(* ===== verification/BitStatus.thy ===== *)
theory BitStatus
  imports Prelude
begin

text \<open>
  The bit layer of \<^verbatim>\<open>conlock\<close>: the traits \<^verbatim>\<open>Bit\<close> and \<^verbatim>\<open>BitWith\<close> with their
  implementation on \<^verbatim>\<open>u32\<close> and the \<^verbatim>\<open>with!\<close> macro (\<^verbatim>\<open>conlock/src/bit.rs\<close>), and the
  status bits, status queries and compare-and-swap descriptions of the one-shot channel
  (\<^verbatim>\<open>BitStatus\<close>, \<^verbatim>\<open>Status\<close> and \<^verbatim>\<open>cas!\<close> of \<^verbatim>\<open>conlock/src/oneshot.rs\<close>).
\<close>

section \<open>Bits of a status word\<close>

datatype bit_status = READY | CLOSE | WAITING | FIELDLESS | PENDING

fun bit_of :: "bit_status \<Rightarrow> u32" where
  "bit_of READY = 1"
| "bit_of CLOSE = 2"
| "bit_of WAITING = 4"
| "bit_of FIELDLESS = 8"
| "bit_of PENDING = 16"

definition with_bit :: "u32 \<Rightarrow> bit_status \<Rightarrow> u32" where
  "with_bit s b = s OR bit_of b"

definition without_bit :: "u32 \<Rightarrow> bit_status \<Rightarrow> u32" where
  "without_bit s b = s AND NOT (bit_of b)"

definition is_bit :: "u32 \<Rightarrow> bit_status \<Rightarrow> bool" where
  "is_bit s b \<longleftrightarrow> s AND bit_of b \<noteq> 0"

text \<open>The macro \<^verbatim>\<open>with!(current, + A - B ...)\<close>: its signed identifiers, left to right.\<close>

datatype transfer = Plus bit_status | Minus bit_status

fun with_macro :: "u32 \<Rightarrow> transfer list \<Rightarrow> u32" where
  "with_macro current [] = current"
| "with_macro current (Plus b # rest) = with_macro (with_bit current b) rest"
| "with_macro current (Minus b # rest) = with_macro (without_bit current b) rest"

section \<open>The status queries\<close>

definition is_ready :: "u32 \<Rightarrow> bool" where "is_ready c = is_bit c READY"
definition is_closed :: "u32 \<Rightarrow> bool" where "is_closed c = is_bit c CLOSE"
definition is_waiting :: "u32 \<Rightarrow> bool" where "is_waiting c = is_bit c WAITING"
definition is_dataless :: "u32 \<Rightarrow> bool" where "is_dataless c = is_bit c FIELDLESS"
definition is_dropping :: "u32 \<Rightarrow> bool" where "is_dropping c = is_bit c FIELDLESS"
definition is_wakeless :: "u32 \<Rightarrow> bool" where "is_wakeless c = is_bit c FIELDLESS"
definition is_pending :: "u32 \<Rightarrow> bool" where "is_pending c = is_bit c PENDING"

lemmas status_defs = is_ready_def is_closed_def is_waiting_def is_dataless_def
  is_dropping_def is_wakeless_def is_pending_def

section \<open>The compare-and-swap operations\<close>

text \<open>Cargo features of \<^verbatim>\<open>conlock\<close>.\<close>

record features =
  f_sync :: bool
  f_wait :: bool
  f_async :: bool

datatype mem_order = Relaxed | Acquire | Release

text \<open>
  What an expansion of \<^verbatim>\<open>cas!\<close> fixes: strong or weak exchange, success ordering (the
  failure ordering is always \<^verbatim>\<open>Relaxed\<close>), whether the local copy is updated on success
  (\<^verbatim>\<open>=\<close>) or kept (\<^verbatim>\<open>:\<close>), and the signed bits.
\<close>

record cas_op =
  weak :: bool
  order :: mem_order
  sync :: bool
  bits :: "transfer list"

definition cas_new :: "cas_op \<Rightarrow> u32 \<Rightarrow> u32" where
  "cas_new op current = with_macro current (bits op)"

text \<open>The local copy after a successful exchange.\<close>

definition cas_current :: "cas_op \<Rightarrow> u32 \<Rightarrow> u32" where
  "cas_current op current = (if sync op then cas_new op current else current)"

definition try_setup_ready_release :: "features \<Rightarrow> cas_op" where
  "try_setup_ready_release f = \<lparr>weak = True, order = Release, sync = False,
     bits = (if f_async f then [Plus READY, Minus WAITING, Minus FIELDLESS, Minus PENDING]
             else [Plus READY, Minus WAITING])\<rparr>"

definition try_setup_dataless_acquire :: cas_op where
  "try_setup_dataless_acquire = \<lparr>weak = True, order = Acquire, sync = False,
     bits = [Minus READY, Plus FIELDLESS]\<rparr>"

definition try_sync_unset_ready_acquire :: cas_op where
  "try_sync_unset_ready_acquire = \<lparr>weak = True, order = Acquire, sync = True,
     bits = [Minus READY]\<rparr>"

definition try_setup_closed_dropping_release :: cas_op where
  "try_setup_closed_dropping_release = \<lparr>weak = True, order = Release, sync = False,
     bits = [Plus CLOSE, Minus WAITING, Minus PENDING]\<rparr>"

definition try_sync_setup_closed_wake :: cas_op where
  "try_sync_setup_closed_wake = \<lparr>weak = True, order = Relaxed, sync = True,
     bits = [Plus CLOSE, Minus WAITING]\<rparr>"

definition try_sync_setup_closed_acquire :: cas_op where
  "try_sync_setup_closed_acquire = \<lparr>weak = True, order = Acquire, sync = True,
     bits = [Plus CLOSE, Minus WAITING, Minus PENDING]\<rparr>"

definition try_set_closed_dropping_release :: cas_op where
  "try_set_closed_dropping_release = \<lparr>weak = True, order = Release, sync = False,
     bits = [Plus CLOSE, Plus FIELDLESS]\<rparr>"

definition try_set_dropping_release :: cas_op where
  "try_set_dropping_release = \<lparr>weak = True, order = Release, sync = False,
     bits = [Plus FIELDLESS]\<rparr>"

definition try_set_waiting :: cas_op where
  "try_set_waiting = \<lparr>weak = True, order = Relaxed, sync = True, bits = [Plus WAITING]\<rparr>"

definition try_sync_set_waiting_pending_wakeless :: cas_op where
  "try_sync_set_waiting_pending_wakeless = \<lparr>weak = True, order = Relaxed, sync = True,
     bits = [Plus WAITING, Plus PENDING, Plus FIELDLESS]\<rparr>"

definition try_unset_pending_acquire :: cas_op where
  "try_unset_pending_acquire = \<lparr>weak = True, order = Acquire, sync = False,
     bits = [Minus PENDING]\<rparr>"

definition try_sync_set_wakeless_acquire :: cas_op where
  "try_sync_set_wakeless_acquire = \<lparr>weak = True, order = Acquire, sync = True,
     bits = [Plus FIELDLESS]\<rparr>"

definition unset_wakeless_release :: cas_op where
  "unset_wakeless_release = \<lparr>weak = False, order = Release, sync = False,
     bits = [Minus FIELDLESS]\<rparr>"

lemmas cas_op_defs = try_setup_ready_release_def try_setup_dataless_acquire_def
  try_sync_unset_ready_acquire_def try_setup_closed_dropping_release_def
  try_sync_setup_closed_wake_def try_sync_setup_closed_acquire_def
  try_set_closed_dropping_release_def try_set_dropping_release_def try_set_waiting_def
  try_sync_set_waiting_pending_wakeless_def try_unset_pending_acquire_def
  try_sync_set_wakeless_acquire_def unset_wakeless_release_def

end
