(* ===== verification/AtomicMem.thy ===== *)
theory AtomicMem
  imports BitStatus
begin

text \<open>
  The memory a one-shot channel lives in: one atomic word (the field \<^verbatim>\<open>state\<close> of
  \<^verbatim>\<open>Inner<T>\<close>) and the non-atomic cells \<^verbatim>\<open>data\<close> and \<^verbatim>\<open>waker\<close>, under Rust's release /
  acquire memory model.

  Every modification of the word is a read-modify-write, so its modification order is a
  sequence of messages \<open>0 .. top\<close>; message \<open>k\<close> holds the value \<open>mval k\<close> and the set
  \<open>mview k\<close> of events that happen before an acquire read of it (the release sequence it
  belongs to). A relaxed load, and the load of a failed exchange, may return any message
  that is not older than the newest one the thread has seen. A successful exchange reads
  the newest message. Every access gets a fresh event number; the view of a thread holds
  the events that happen before its next step. A non-atomic access races when an earlier
  access to the same cell is missing from the view, and freeing the memory races when any
  earlier event is missing.
\<close>

datatype agent = Snd | Rcv nat

datatype cell = Data | Waker

datatype fault = Race cell | FreeRace | UseAfterFree | UninitRead cell | Overwrite cell

record ('v, 'w) mem =
  mval :: "nat \<Rightarrow> u32"
  mview :: "nat \<Rightarrow> nat set"
  top :: nat
  seen :: "agent \<Rightarrow> nat"
  view :: "agent \<Rightarrow> nat set"
  clock :: nat
  accs :: "cell \<Rightarrow> nat set"
  data :: "'v option"
  waker :: "'w option"
  freed :: bool
  faults :: "fault list"

text \<open>The fresh channel memory of \<^verbatim>\<open>Inner::new\<close>: word \<open>0\<close>, both cells uninitialised.\<close>

definition mem_new :: "('v, 'w) mem" where
  "mem_new = \<lparr>mval = (\<lambda>_. 0), mview = (\<lambda>_. {}), top = 0, seen = (\<lambda>_. 0), view = (\<lambda>_. {}),
     clock = 0, accs = (\<lambda>_. {}), data = None, waker = None, freed = False, faults = []\<rparr>"

section \<open>Events\<close>

definition uaf :: "('v, 'w, 'z) mem_scheme \<Rightarrow> fault list" where
  "uaf m = (if freed m then [UseAfterFree] else [])"

text \<open>An event of agent \<open>a\<close> on live channel memory.\<close>

definition touch :: "agent \<Rightarrow> ('v, 'w, 'z) mem_scheme \<Rightarrow> ('v, 'w, 'z) mem_scheme" where
  "touch a m = m\<lparr>clock := Suc (clock m), view := (view m)(a := insert (clock m) (view m a)),
     faults := faults m @ uaf m\<rparr>"

definition access :: "agent \<Rightarrow> cell \<Rightarrow> ('v, 'w, 'z) mem_scheme \<Rightarrow> ('v, 'w, 'z) mem_scheme" where
  "access a x m = (touch a m)\<lparr>accs := (accs m)(x := insert (clock m) (accs m x)),
     faults := faults m @ uaf m @ (if accs m x \<subseteq> view m a then [] else [Race x])\<rparr>"

section \<open>The atomic word\<close>

definition can_read :: "agent \<Rightarrow> nat \<Rightarrow> ('v, 'w, 'z) mem_scheme \<Rightarrow> bool" where
  "can_read a k m \<longleftrightarrow> seen m a \<le> k \<and> k \<le> top m"

text \<open>\<^verbatim>\<open>state.load(Relaxed)\<close>, and the load of a failed exchange, returning message \<open>k\<close>.\<close>

definition load_relaxed :: "agent \<Rightarrow> nat \<Rightarrow> ('v, 'w, 'z) mem_scheme \<Rightarrow> ('v, 'w, 'z) mem_scheme" where
  "load_relaxed a k m = (touch a m)\<lparr>seen := (seen m)(a := k)\<rparr>"

text \<open>\<^verbatim>\<open>Status::acquire\<close>: \<^verbatim>\<open>state.load(Acquire)\<close> returning message \<open>k\<close>.\<close>

definition load_acquire :: "agent \<Rightarrow> nat \<Rightarrow> ('v, 'w, 'z) mem_scheme \<Rightarrow> ('v, 'w, 'z) mem_scheme" where
  "load_acquire a k m = (touch a m)\<lparr>seen := (seen m)(a := k),
     view := (view m)(a := insert (clock m) (view m a) \<union> mview m k)\<rparr>"

text \<open>
  A successful exchange from the newest message: a \<^verbatim>\<open>Release\<close> one publishes the view of
  its thread, an \<^verbatim>\<open>Acquire\<close> one takes over the events of the message read; in every
  ordering the new message continues the release sequence of the one it replaces.
\<close>

definition cas_success :: "agent \<Rightarrow> cas_op \<Rightarrow> u32 \<Rightarrow> ('v, 'w, 'z) mem_scheme \<Rightarrow> ('v, 'w, 'z) mem_scheme" where
  "cas_success a op current m =
     (let n = Suc (top m); v = insert (clock m) (view m a) in
      (touch a m)\<lparr>top := n,
        mval := (mval m)(n := cas_new op current),
        mview := (mview m)(n := mview m (top m) \<union> (if order op = Release then v else {})),
        seen := (seen m)(a := n),
        view := (view m)(a := v \<union> (if order op = Acquire then mview m (top m) else {}))\<rparr>)"

section \<open>The cells and the allocation\<close>

text \<open>\<^verbatim>\<open>Inner::write\<close>. Writing over an initialised cell leaks its value.\<close>

definition write_data :: "agent \<Rightarrow> 'v \<Rightarrow> ('v, 'w, 'z) mem_scheme \<Rightarrow> ('v, 'w, 'z) mem_scheme" where
  "write_data a v m = (let m' = access a Data m in
     m'\<lparr>data := Some v,
        faults := faults m' @ (if data m = None then [] else [Overwrite Data])\<rparr>)"

text \<open>\<^verbatim>\<open>Inner::read\<close>: \<^verbatim>\<open>assume_init_read\<close> moves the value out of the cell.\<close>

definition read_data :: "agent \<Rightarrow> ('v, 'w, 'z) mem_scheme \<Rightarrow> ('v, 'w, 'z) mem_scheme" where
  "read_data a m = (let m' = access a Data m in
     m'\<lparr>data := None,
        faults := faults m' @ (if data m = None then [UninitRead Data] else [])\<rparr>)"

text \<open>
  \<^verbatim>\<open>waker_mut().assume_init_read()\<close> and \<^verbatim>\<open>assume_init_drop()\<close>: both consume the waker.
\<close>

definition take_waker :: "agent \<Rightarrow> ('v, 'w, 'z) mem_scheme \<Rightarrow> ('v, 'w, 'z) mem_scheme" where
  "take_waker a m = (let m' = access a Waker m in
     m'\<lparr>waker := None,
        faults := faults m' @ (if waker m = None then [UninitRead Waker] else [])\<rparr>)"

text \<open>\<^verbatim>\<open>waker_mut().write(w)\<close>.\<close>

definition write_waker :: "agent \<Rightarrow> 'w \<Rightarrow> ('v, 'w, 'z) mem_scheme \<Rightarrow> ('v, 'w, 'z) mem_scheme" where
  "write_waker a w m = (let m' = access a Waker m in
     m'\<lparr>waker := Some w,
        faults := faults m' @ (if waker m = None then [] else [Overwrite Waker])\<rparr>)"

text \<open>
  \<^verbatim>\<open>let waker = waker_mut().assume_init_mut(); if !waker.will_wake(cx.waker()) { *waker = ... }\<close>:
  the assignment drops the old waker. \<open>ww\<close> is the standard library's \<^verbatim>\<open>will_wake\<close>.
\<close>

definition update_waker ::
  "('w \<Rightarrow> 'w \<Rightarrow> bool) \<Rightarrow> agent \<Rightarrow> 'w \<Rightarrow> ('v, 'w, 'z) mem_scheme \<Rightarrow> ('v, 'w, 'z) mem_scheme" where
  "update_waker ww a w m = (let m' = access a Waker m in
     case waker m of
       None \<Rightarrow> m'\<lparr>faults := faults m' @ [UninitRead Waker]\<rparr>
     | Some w0 \<Rightarrow> if ww w0 w then m' else m'\<lparr>waker := Some w\<rparr>)"

text \<open>\<^verbatim>\<open>Inner::dealloc\<close>.\<close>

definition dealloc :: "agent \<Rightarrow> ('v, 'w, 'z) mem_scheme \<Rightarrow> ('v, 'w, 'z) mem_scheme" where
  "dealloc a m = (touch a m)\<lparr>freed := True,
     faults := faults m @ uaf m @ (if {..<clock m} \<subseteq> view m a then [] else [FreeRace])\<rparr>"

lemmas mem_op_defs = touch_def access_def load_relaxed_def load_acquire_def cas_success_def
  write_data_def read_data_def take_waker_def write_waker_def update_waker_def dealloc_def

end
