(* ===== verification/Oneshot.thy ===== *)
theory Oneshot
  imports AtomicMem
begin

text \<open>
  The one-shot channel of \<^verbatim>\<open>conlock/src/oneshot.rs\<close>: the five operations of
  \<^verbatim>\<open>Inner<T>\<close> (\<^verbatim>\<open>send\<close>, \<^verbatim>\<open>recv\<close>, \<^verbatim>\<open>poll_recv\<close>, \<^verbatim>\<open>drop_sender\<close>, \<^verbatim>\<open>drop_receiver\<close>) as
  programs of primitive instructions, and the step relation of a sender and any number of
  receiving threads that run them on shared memory in every interleaving.
\<close>

section \<open>Instructions and program points\<close>

text \<open>
  A primitive instruction is one access to the channel's memory (or one call into the
  blocking primitive). \<open>IWait\<close> is \<^verbatim>\<open>wait_ready\<close>; \<open>IParked\<close> is a thread blocked in it.
\<close>

datatype ('v, 'w) insn =
    ILoad
  | IAcquire
  | ICas cas_op u32
  | IWriteData 'v
  | IReadData
  | IWakeWaker
  | IDropWaker
  | IWriteWaker 'w
  | IUpdateWaker 'w
  | IWait u32
  | IParked
  | IWakeAll
  | IDealloc
  | INone

text \<open>What an instruction tells the code that follows it.\<close>

datatype 'v outcome = Loaded u32 | CasOk | CasFail u32 | Got "'v option" | Done

text \<open>What a call returns: \<^verbatim>\<open>Result<(), T>\<close>, \<^verbatim>\<open>Option<T>\<close>, \<^verbatim>\<open>Poll<Option<T>>\<close>.\<close>

datatype 'v ret = SendOk | SendErr "'v option" | RecvRet "'v option" | PollPending | PollReady "'v option"

datatype 'v send_pc =
    SendLoad 'v | SendWrite 'v u32 | SendCas u32 | SendAcq | SendWake | SendWakeAll | SendReadBack

datatype drops_pc =
    DsLoad | DsAcq | DsDealloc | DsSetDropping u32 | DsClosedDropping u32 | DsClosedAcq u32
  | DsWake u32 | DsClosedWake u32 | DsWakeAll u32 | DsSetClosedDropping u32

datatype recv_pc =
    RcLoad | RcTake u32 | RcRead | RcUnpend u32 | RcDropWaker u32 | RcSetWaiting u32
  | RcWait u32 | RcParked | RcReload

datatype 'w poll_pc =
    PoLoad 'w | PoTake 'w u32 | PoRead | PoWakeless 'w u32 | PoUpdate 'w u32 | PoSet 'w u32
  | PoWrite 'w u32 | PoUnset 'w u32 | PoDropWaker 'w u32

datatype dropr_pc =
    DrLoad | DrUnset u32 | DrRead u32 | DrAcq | DrDealloc | DrSetDropping u32
  | DrClosedAcq u32 | DrDropWaker u32 | DrSetClosedDropping u32

text \<open>
  A program point: no call in progress, a point of one of the five operations, a call about
  to return, or the handle destroyed. The argument of a point is the local copy
  \<^verbatim>\<open>status.current\<close> where the following code uses it.
\<close>

datatype ('v, 'w) pc =
    Idle
  | InSend "'v send_pc"
  | InDropS drops_pc
  | InRecv recv_pc
  | InPoll "'w poll_pc"
  | InDropR dropr_pc
  | Ret "'v ret"
  | Gone

section \<open>\<^verbatim>\<open>send\<close>\<close>

text \<open>\<^verbatim>\<open>try_wake_after_ready\<close>, on the status copy from before the exchange.\<close>

definition try_wake_after_ready :: "features \<Rightarrow> u32 \<Rightarrow> ('v, 'w) pc" where
  "try_wake_after_ready f cur =
     (if f_async f \<and> is_pending cur then
        (if \<not> is_wakeless cur then InSend SendAcq else Ret SendOk)
      else if f_wait f \<and> is_waiting cur then InSend SendWakeAll
      else Ret SendOk)"

fun send_instr :: "features \<Rightarrow> 'v send_pc \<Rightarrow> ('v, 'w) insn" where
  "send_instr f (SendLoad v) = ILoad"
| "send_instr f (SendWrite v cur) = IWriteData v"
| "send_instr f (SendCas cur) = ICas (try_setup_ready_release f) cur"
| "send_instr f SendAcq = IAcquire"
| "send_instr f SendWake = IWakeWaker"
| "send_instr f SendWakeAll = IWakeAll"
| "send_instr f SendReadBack = IReadData"

fun send_next :: "features \<Rightarrow> 'v send_pc \<Rightarrow> 'v outcome \<Rightarrow> ('v, 'w) pc" where
  "send_next f (SendLoad v) (Loaded cur) =
     (if is_closed cur then Ret (SendErr (Some v)) else InSend (SendWrite v cur))"
| "send_next f (SendWrite v cur) Done = InSend (SendCas cur)"
| "send_next f (SendCas cur) CasOk = try_wake_after_ready f cur"
| "send_next f (SendCas cur) (CasFail new) =
     (if is_closed new then InSend SendReadBack else InSend (SendCas new))"
| "send_next f SendAcq (Loaded _) = InSend SendWake"
| "send_next f SendWake Done = Ret SendOk"
| "send_next f SendWakeAll Done = Ret SendOk"
| "send_next f SendReadBack (Got v) = Ret (SendErr v)"
| "send_next f p _ = InSend p"

section \<open>\<^verbatim>\<open>drop_sender\<close>\<close>

text \<open>The head of its loop.\<close>

definition drop_sender_loop :: "features \<Rightarrow> u32 \<Rightarrow> ('v, 'w) pc" where
  "drop_sender_loop f cur =
     (if is_closed cur then
        (if is_dropping cur then InDropS DsAcq else InDropS (DsSetDropping cur))
      else if f_async f \<and> is_pending cur then
        (if is_wakeless cur then InDropS (DsClosedDropping cur) else InDropS (DsClosedAcq cur))
      else if is_waiting cur then InDropS (DsClosedWake cur)
      else InDropS (DsSetClosedDropping cur))"

fun drops_instr :: "features \<Rightarrow> drops_pc \<Rightarrow> ('v, 'w) insn" where
  "drops_instr f DsLoad = ILoad"
| "drops_instr f DsAcq = IAcquire"
| "drops_instr f DsDealloc = IDealloc"
| "drops_instr f (DsSetDropping cur) = ICas try_set_dropping_release cur"
| "drops_instr f (DsClosedDropping cur) = ICas try_setup_closed_dropping_release cur"
| "drops_instr f (DsClosedAcq cur) = ICas try_sync_setup_closed_acquire cur"
| "drops_instr f (DsWake cur) = IWakeWaker"
| "drops_instr f (DsClosedWake cur) = ICas try_sync_setup_closed_wake cur"
| "drops_instr f (DsWakeAll cur) = IWakeAll"
| "drops_instr f (DsSetClosedDropping cur) = ICas try_set_closed_dropping_release cur"

fun drops_next :: "features \<Rightarrow> drops_pc \<Rightarrow> 'v outcome \<Rightarrow> ('v, 'w) pc" where
  "drops_next f DsLoad (Loaded cur) = drop_sender_loop f cur"
| "drops_next f DsAcq (Loaded _) = InDropS DsDealloc"
| "drops_next f DsDealloc Done = Gone"
| "drops_next f (DsSetDropping cur) CasOk = Gone"
| "drops_next f (DsClosedDropping cur) CasOk = Gone"
| "drops_next f (DsClosedAcq cur) CasOk =
     InDropS (DsWake (cas_current try_sync_setup_closed_acquire cur))"
| "drops_next f (DsWake cur) Done = InDropS (DsSetDropping cur)"
| "drops_next f (DsClosedWake cur) CasOk =
     (let cur' = cas_current try_sync_setup_closed_wake cur in
      if f_wait f then InDropS (DsWakeAll cur') else InDropS (DsSetDropping cur'))"
| "drops_next f (DsWakeAll cur) Done = InDropS (DsSetDropping cur)"
| "drops_next f (DsSetClosedDropping cur) CasOk = Gone"
| "drops_next f p (CasFail new) = drop_sender_loop f new"
| "drops_next f p _ = InDropS p"

section \<open>\<^verbatim>\<open>recv\<close>\<close>

definition recv_loop :: "features \<Rightarrow> u32 \<Rightarrow> ('v, 'w) pc" where
  "recv_loop f cur =
     (if is_ready cur then InRecv (RcTake cur)
      else if is_closed cur then Ret (RecvRet None)
      else if is_waiting cur then
        (if f_async f \<and> is_pending cur then InRecv (RcUnpend cur) else InRecv (RcWait cur))
      else if is_dataless cur then Ret (RecvRet None)
      else InRecv (RcSetWaiting cur))"

fun recv_instr :: "features \<Rightarrow> recv_pc \<Rightarrow> ('v, 'w) insn" where
  "recv_instr f RcLoad = ILoad"
| "recv_instr f (RcTake cur) = ICas try_setup_dataless_acquire cur"
| "recv_instr f RcRead = IReadData"
| "recv_instr f (RcUnpend cur) = ICas try_unset_pending_acquire cur"
| "recv_instr f (RcDropWaker cur) = IDropWaker"
| "recv_instr f (RcSetWaiting cur) = ICas try_set_waiting cur"
| "recv_instr f (RcWait cur) = IWait cur"
| "recv_instr f RcParked = IParked"
| "recv_instr f RcReload = ILoad"

fun recv_next :: "features \<Rightarrow> recv_pc \<Rightarrow> 'v outcome \<Rightarrow> ('v, 'w) pc" where
  "recv_next f RcLoad (Loaded cur) = recv_loop f cur"
| "recv_next f (RcTake cur) CasOk = InRecv RcRead"
| "recv_next f RcRead (Got v) = Ret (RecvRet v)"
| "recv_next f (RcUnpend cur) CasOk =
     InRecv (RcDropWaker (cas_current try_unset_pending_acquire cur))"
| "recv_next f (RcDropWaker cur) Done = InRecv (RcWait cur)"
| "recv_next f (RcSetWaiting cur) CasOk =
     InRecv (RcWait (cas_current try_set_waiting cur))"
| "recv_next f (RcWait cur) (Loaded new) =
     (if new \<noteq> cur then recv_loop f new else InRecv (RcWait cur))"
| "recv_next f (RcWait cur) Done = InRecv RcReload"
| "recv_next f RcParked Done = InRecv RcReload"
| "recv_next f RcReload (Loaded cur) = recv_loop f cur"
| "recv_next f p (CasFail new) = recv_loop f new"
| "recv_next f p _ = InRecv p"

section \<open>\<^verbatim>\<open>poll_recv\<close>\<close>

definition poll_loop :: "'w \<Rightarrow> u32 \<Rightarrow> ('v, 'w) pc" where
  "poll_loop w cur =
     (if is_ready cur then InPoll (PoTake w cur)
      else if is_closed cur then Ret (PollReady None)
      else if is_waiting cur then InPoll (PoWakeless w cur)
      else if is_dataless cur then Ret (PollReady None)
      else InPoll (PoSet w cur))"

fun poll_instr :: "'w poll_pc \<Rightarrow> ('v, 'w) insn" where
  "poll_instr (PoLoad w) = ILoad"
| "poll_instr (PoTake w cur) = ICas try_setup_dataless_acquire cur"
| "poll_instr PoRead = IReadData"
| "poll_instr (PoWakeless w cur) = ICas try_sync_set_wakeless_acquire cur"
| "poll_instr (PoUpdate w cur) = IUpdateWaker w"
| "poll_instr (PoSet w cur) = ICas try_sync_set_waiting_pending_wakeless cur"
| "poll_instr (PoWrite w cur) = IWriteWaker w"
| "poll_instr (PoUnset w cur) = ICas unset_wakeless_release cur"
| "poll_instr (PoDropWaker w cur) = IDropWaker"

fun poll_next :: "'w poll_pc \<Rightarrow> 'v outcome \<Rightarrow> ('v, 'w) pc" where
  "poll_next (PoLoad w) (Loaded cur) = poll_loop w cur"
| "poll_next (PoTake w cur) CasOk = InPoll PoRead"
| "poll_next (PoTake w cur) (CasFail new) = poll_loop w new"
| "poll_next PoRead (Got v) = Ret (PollReady v)"
| "poll_next (PoWakeless w cur) CasOk =
     InPoll (PoUpdate w (cas_current try_sync_set_wakeless_acquire cur))"
| "poll_next (PoWakeless w cur) (CasFail new) = poll_loop w new"
| "poll_next (PoUpdate w cur) Done = InPoll (PoUnset w cur)"
| "poll_next (PoSet w cur) CasOk =
     InPoll (PoWrite w (cas_current try_sync_set_waiting_pending_wakeless cur))"
| "poll_next (PoSet w cur) (CasFail new) = poll_loop w new"
| "poll_next (PoWrite w cur) Done = InPoll (PoUnset w cur)"
| "poll_next (PoUnset w cur) CasOk = Ret PollPending"
| "poll_next (PoUnset w cur) (CasFail new) = InPoll (PoDropWaker w new)"
| "poll_next (PoDropWaker w cur) Done = poll_loop w cur"
| "poll_next p _ = InPoll p"

section \<open>\<^verbatim>\<open>drop_receiver\<close>\<close>

text \<open>The part of its loop after the check for unread data, and the whole loop head.\<close>

definition drop_receiver_tail :: "features \<Rightarrow> u32 \<Rightarrow> ('v, 'w) pc" where
  "drop_receiver_tail f cur =
     (if is_closed cur then
        (if is_dropping cur then InDropR DrAcq else InDropR (DrSetDropping cur))
      else if f_async f \<and> is_pending cur then InDropR (DrClosedAcq cur)
      else InDropR (DrSetClosedDropping cur))"

definition drop_receiver_loop :: "features \<Rightarrow> u32 \<Rightarrow> ('v, 'w) pc" where
  "drop_receiver_loop f cur =
     (if is_ready cur then InDropR (DrUnset cur) else drop_receiver_tail f cur)"

fun dropr_instr :: "features \<Rightarrow> dropr_pc \<Rightarrow> ('v, 'w) insn" where
  "dropr_instr f DrLoad = ILoad"
| "dropr_instr f (DrUnset cur) = ICas try_sync_unset_ready_acquire cur"
| "dropr_instr f (DrRead cur) = IReadData"
| "dropr_instr f DrAcq = IAcquire"
| "dropr_instr f DrDealloc = IDealloc"
| "dropr_instr f (DrSetDropping cur) = ICas try_set_dropping_release cur"
| "dropr_instr f (DrClosedAcq cur) = ICas try_sync_setup_closed_acquire cur"
| "dropr_instr f (DrDropWaker cur) = IDropWaker"
| "dropr_instr f (DrSetClosedDropping cur) = ICas try_set_closed_dropping_release cur"

fun dropr_next :: "features \<Rightarrow> dropr_pc \<Rightarrow> 'v outcome \<Rightarrow> ('v, 'w) pc" where
  "dropr_next f DrLoad (Loaded cur) = drop_receiver_loop f cur"
| "dropr_next f (DrUnset cur) CasOk =
     InDropR (DrRead (cas_current try_sync_unset_ready_acquire cur))"
| "dropr_next f (DrRead cur) (Got _) = drop_receiver_tail f cur"
| "dropr_next f DrAcq (Loaded _) = InDropR DrDealloc"
| "dropr_next f DrDealloc Done = Gone"
| "dropr_next f (DrSetDropping cur) CasOk = Gone"
| "dropr_next f (DrClosedAcq cur) CasOk =
     InDropR (DrDropWaker (cas_current try_sync_setup_closed_acquire cur))"
| "dropr_next f (DrDropWaker cur) Done = InDropR (DrSetDropping cur)"
| "dropr_next f (DrSetClosedDropping cur) CasOk = Gone"
| "dropr_next f p (CasFail new) = drop_receiver_loop f new"
| "dropr_next f p _ = InDropR p"

section \<open>One program\<close>

fun instr :: "features \<Rightarrow> ('v, 'w) pc \<Rightarrow> ('v, 'w) insn" where
  "instr f (InSend p) = send_instr f p"
| "instr f (InDropS p) = drops_instr f p"
| "instr f (InRecv p) = recv_instr f p"
| "instr f (InPoll p) = poll_instr p"
| "instr f (InDropR p) = dropr_instr f p"
| "instr f _ = INone"

fun nxt :: "features \<Rightarrow> ('v, 'w) pc \<Rightarrow> 'v outcome \<Rightarrow> ('v, 'w) pc" where
  "nxt f (InSend p) r = send_next f p r"
| "nxt f (InDropS p) r = drops_next f p r"
| "nxt f (InRecv p) r = recv_next f p r"
| "nxt f (InPoll p) r = poll_next p r"
| "nxt f (InDropR p) r = dropr_next f p r"
| "nxt f p _ = p"

section \<open>The channel and its steps\<close>

text \<open>
  The shared memory, the program point of every thread, what the receiving side has
  observed up to its last completed call (\<open>own_seen\<close>, \<open>own_view\<close>: the happens-before that
  the borrow checker guarantees an exclusive use of the \<^verbatim>\<open>Receiver\<close>), and a record of
  the run: the value given to \<^verbatim>\<open>send\<close>, the completed calls, the values dropped unread by
  \<^verbatim>\<open>drop_receiver\<close>, and the wakers woken.
\<close>

record ('v, 'w) chan = "('v, 'w) mem" +
  pc :: "agent \<Rightarrow> ('v, 'w) pc"
  own_seen :: nat
  own_view :: "nat set"
  sent :: "'v option"
  rets :: "(agent \<times> 'v ret) list"
  lost :: "'v list"
  woken :: "'w list"

text \<open>\<^verbatim>\<open>channel()\<close>.\<close>

definition channel :: "('v, 'w) chan" where
  "channel = mem.extend mem_new
     \<lparr>pc = (\<lambda>_. Idle), own_seen = 0, own_view = {}, sent = None, rets = [], lost = [],
      woken = []\<rparr>"

definition goto :: "agent \<Rightarrow> ('v, 'w) pc \<Rightarrow> ('v, 'w) chan \<Rightarrow> ('v, 'w) chan" where
  "goto a p s = s\<lparr>pc := (pc s)(a := p)\<rparr>"

definition adv :: "features \<Rightarrow> agent \<Rightarrow> 'v outcome \<Rightarrow> ('v, 'w) chan \<Rightarrow> ('v, 'w) chan" where
  "adv f a r s = goto a (nxt f (pc s a) r) s"

text \<open>
  \<^verbatim>\<open>poll\<close> takes \<^verbatim>\<open>&mut Receiver\<close> and \<^verbatim>\<open>drop\<close> owns it, so they exclude every other call
  on the receiver; \<^verbatim>\<open>recv\<close> takes \<^verbatim>\<open>&Receiver\<close> and may run in several threads at once.
\<close>

fun excl :: "('v, 'w) pc \<Rightarrow> bool" where
  "excl (InPoll _) = True"
| "excl (InDropR _) = True"
| "excl Gone = True"
| "excl _ = False"

definition may_share :: "('v, 'w) chan \<Rightarrow> bool" where
  "may_share s \<longleftrightarrow> (\<forall>j. \<not> excl (pc s (Rcv j)))"

definition may_own :: "('v, 'w) chan \<Rightarrow> bool" where
  "may_own s \<longleftrightarrow> (\<forall>j. pc s (Rcv j) = Idle)"

text \<open>An exclusive call starts after every earlier call on the receiver has returned.\<close>

definition take_over :: "agent \<Rightarrow> ('v, 'w) chan \<Rightarrow> ('v, 'w) chan" where
  "take_over a s = s\<lparr>seen := (seen s)(a := max (seen s a) (own_seen s)),
     view := (view s)(a := view s a \<union> own_view s)\<rparr>"

definition hand_back :: "agent \<Rightarrow> ('v, 'w) chan \<Rightarrow> ('v, 'w) chan" where
  "hand_back a s = s\<lparr>own_seen := max (own_seen s) (seen s a), own_view := own_view s \<union> view s a\<rparr>"

definition log_ret :: "agent \<Rightarrow> 'v ret \<Rightarrow> ('v, 'w) chan \<Rightarrow> ('v, 'w) chan" where
  "log_ret a r s = s\<lparr>rets := rets s @ [(a, r)]\<rparr>"

definition unpark_all :: "('v, 'w) chan \<Rightarrow> ('v, 'w) chan" where
  "unpark_all s = s\<lparr>pc := (\<lambda>a. if pc s a = InRecv RcParked then InRecv RcReload else pc s a)\<rparr>"

definition log_lost :: "agent \<Rightarrow> ('v, 'w) chan \<Rightarrow> ('v, 'w) chan" where
  "log_lost a s = (case pc s a of
     InDropR _ \<Rightarrow> s\<lparr>lost := lost s @ (case data s of None \<Rightarrow> [] | Some v \<Rightarrow> [v])\<rparr>
   | _ \<Rightarrow> s)"

definition log_woken :: "('v, 'w) chan \<Rightarrow> ('v, 'w) chan" where
  "log_woken s = s\<lparr>woken := woken s @ (case waker s of None \<Rightarrow> [] | Some w \<Rightarrow> [w])\<rparr>"

text \<open>
  The steps. \<open>mb v e\<close> says whether \<^verbatim>\<open>atomic_wait::wait\<close> may block when the word is \<open>v\<close>
  and the expected value \<open>e\<close>; it may also return at any time. \<open>ww\<close> is \<^verbatim>\<open>Waker::will_wake\<close>.
  A \<open>weak\<close> exchange may fail on any readable message, a strong one only on a message that
  differs from the expected value.
\<close>

inductive chan_step ::
  "features \<Rightarrow> (u32 \<Rightarrow> u32 \<Rightarrow> bool) \<Rightarrow> ('w \<Rightarrow> 'w \<Rightarrow> bool) \<Rightarrow> ('v, 'w) chan \<Rightarrow> ('v, 'w) chan \<Rightarrow> bool"
  for f mb ww where
  call_send: "pc s Snd = Idle \<Longrightarrow>
     chan_step f mb ww s (goto Snd (InSend (SendLoad v)) (s\<lparr>sent := Some v\<rparr>))"
| call_drop_sender: "pc s Snd = Idle \<Longrightarrow> chan_step f mb ww s (goto Snd (InDropS DsLoad) s)"
| ret_send: "pc s Snd = Ret r \<Longrightarrow>
     chan_step f mb ww s (goto Snd (InDropS DsLoad) (log_ret Snd r s))"
| call_recv: "f_sync f \<Longrightarrow> may_share s \<Longrightarrow> pc s (Rcv i) = Idle \<Longrightarrow>
     chan_step f mb ww s (goto (Rcv i) (InRecv RcLoad) s)"
| call_poll: "f_async f \<Longrightarrow> may_own s \<Longrightarrow>
     chan_step f mb ww s (goto (Rcv i) (InPoll (PoLoad w)) (take_over (Rcv i) s))"
| call_drop_receiver: "may_own s \<Longrightarrow>
     chan_step f mb ww s (goto (Rcv i) (InDropR DrLoad) (take_over (Rcv i) s))"
| ret_receiver: "pc s (Rcv i) = Ret r \<Longrightarrow>
     chan_step f mb ww s (goto (Rcv i) Idle (hand_back (Rcv i) (log_ret (Rcv i) r s)))"
| load: "instr f (pc s a) = ILoad \<Longrightarrow> can_read a k s \<Longrightarrow>
     chan_step f mb ww s (adv f a (Loaded (mval s k)) (load_relaxed a k s))"
| acquire: "instr f (pc s a) = IAcquire \<Longrightarrow> can_read a k s \<Longrightarrow>
     chan_step f mb ww s (adv f a (Loaded (mval s k)) (load_acquire a k s))"
| cas_ok: "instr f (pc s a) = ICas op cur \<Longrightarrow> mval s (top s) = cur \<Longrightarrow>
     chan_step f mb ww s (adv f a CasOk (cas_success a op cur s))"
| cas_fail: "instr f (pc s a) = ICas op cur \<Longrightarrow> can_read a k s \<Longrightarrow> weak op \<or> mval s k \<noteq> cur \<Longrightarrow>
     chan_step f mb ww s (adv f a (CasFail (mval s k)) (load_relaxed a k s))"
| write_data: "instr f (pc s a) = IWriteData v \<Longrightarrow>
     chan_step f mb ww s (adv f a Done (write_data a v s))"
| read_data: "instr f (pc s a) = IReadData \<Longrightarrow>
     chan_step f mb ww s (adv f a (Got (data s)) (read_data a (log_lost a s)))"
| wake_waker: "instr f (pc s a) = IWakeWaker \<Longrightarrow>
     chan_step f mb ww s (adv f a Done (take_waker a (log_woken s)))"
| drop_waker: "instr f (pc s a) = IDropWaker \<Longrightarrow>
     chan_step f mb ww s (adv f a Done (take_waker a s))"
| write_waker: "instr f (pc s a) = IWriteWaker w \<Longrightarrow>
     chan_step f mb ww s (adv f a Done (write_waker a w s))"
| update_waker: "instr f (pc s a) = IUpdateWaker w \<Longrightarrow>
     chan_step f mb ww s (adv f a Done (update_waker ww a w s))"
| spin: "\<not> f_wait f \<Longrightarrow> instr f (pc s a) = IWait cur \<Longrightarrow> can_read a k s \<Longrightarrow>
     chan_step f mb ww s (adv f a (Loaded (mval s k)) (load_relaxed a k s))"
| wait_return: "f_wait f \<Longrightarrow> instr f (pc s a) = IWait cur \<Longrightarrow>
     chan_step f mb ww s (adv f a Done (touch a s))"
| wait_block: "f_wait f \<Longrightarrow> instr f (pc s a) = IWait cur \<Longrightarrow> mb (mval s (top s)) cur \<Longrightarrow>
     chan_step f mb ww s (goto a (InRecv RcParked) (touch a s))"
| wait_wakeup: "instr f (pc s a) = IParked \<Longrightarrow> chan_step f mb ww s (adv f a Done s)"
| wake_all: "instr f (pc s a) = IWakeAll \<Longrightarrow>
     chan_step f mb ww s (unpark_all (adv f a Done (touch a s)))"
| dealloc: "instr f (pc s a) = IDealloc \<Longrightarrow>
     chan_step f mb ww s (adv f a Done (dealloc a s))"

text \<open>The states the channel can reach.\<close>

abbreviation chan_reach ::
  "features \<Rightarrow> (u32 \<Rightarrow> u32 \<Rightarrow> bool) \<Rightarrow> ('w \<Rightarrow> 'w \<Rightarrow> bool) \<Rightarrow> ('v, 'w) chan \<Rightarrow> bool" where
  "chan_reach f mb ww \<equiv> reach (\<lambda>s. s = channel) (chan_step f mb ww)"

end
