(* ===== verification/OneshotWords.thy ===== *)
theory OneshotWords
  imports Oneshot
begin

text \<open>
  The status words that occur, the effect of every exchange on them, and the program
  points of every instruction.
\<close>

section \<open>The documented status words\<close>

text \<open>
  The nine rows of the state table in \<^verbatim>\<open>conlock/README.md\<close>; the two with \<^verbatim>\<open>PENDING\<close> exist
  only under the \<^verbatim>\<open>async\<close> feature.
\<close>

definition words :: "features \<Rightarrow> u32 set" where
  "words f = {0, 1, 2, 4, 8, 10, 11} \<union> (if f_async f then {20, 28} else {})"

lemma words_cases:
  assumes "w \<in> words f"
  obtains "w = 0" | "w = 1" | "w = 2" | "w = 4" | "w = 8" | "w = 10" | "w = 11"
    | "w = 20" "f_async f" | "w = 28" "f_async f"
  using assms by (auto simp: words_def split: if_splits)

lemma is_eval [word_state]:
  "\<not> is_ready 0" "is_ready 1" "\<not> is_ready 2" "\<not> is_ready 4" "\<not> is_ready 8" "\<not> is_ready 10"
  "is_ready 11" "\<not> is_ready 20" "\<not> is_ready 28"
  "\<not> is_closed 0" "\<not> is_closed 1" "is_closed 2" "\<not> is_closed 4" "\<not> is_closed 8" "is_closed 10"
  "is_closed 11" "\<not> is_closed 20" "\<not> is_closed 28"
  "\<not> is_waiting 0" "\<not> is_waiting 1" "\<not> is_waiting 2" "is_waiting 4" "\<not> is_waiting 8"
  "\<not> is_waiting 10" "\<not> is_waiting 11" "is_waiting 20" "is_waiting 28"
  "\<not> is_dataless 0" "\<not> is_dataless 1" "\<not> is_dataless 2" "\<not> is_dataless 4" "is_dataless 8"
  "is_dataless 10" "is_dataless 11" "\<not> is_dataless 20" "is_dataless 28"
  "\<not> is_dropping 0" "\<not> is_dropping 1" "\<not> is_dropping 2" "\<not> is_dropping 4" "is_dropping 8"
  "is_dropping 10" "is_dropping 11" "\<not> is_dropping 20" "is_dropping 28"
  "\<not> is_wakeless 0" "\<not> is_wakeless 1" "\<not> is_wakeless 2" "\<not> is_wakeless 4" "is_wakeless 8"
  "is_wakeless 10" "is_wakeless 11" "\<not> is_wakeless 20" "is_wakeless 28"
  "\<not> is_pending 0" "\<not> is_pending 1" "\<not> is_pending 2" "\<not> is_pending 4" "\<not> is_pending 8"
  "\<not> is_pending 10" "\<not> is_pending 11" "is_pending 20" "is_pending 28"
  by (simp_all add: status_defs is_bit_def)

lemma cas_eval [word_state]:
  "cas_new (try_setup_ready_release f) 0 = 1" "cas_new (try_setup_ready_release f) 4 = 1"
  "f_async f \<Longrightarrow> cas_new (try_setup_ready_release f) 20 = 1"
  "f_async f \<Longrightarrow> cas_new (try_setup_ready_release f) 28 = 1"
  "cas_new try_setup_dataless_acquire 1 = 8" "cas_new try_setup_dataless_acquire 11 = 10"
  "cas_new try_sync_unset_ready_acquire 1 = 0" "cas_new try_sync_unset_ready_acquire 11 = 10"
  "cas_new try_setup_closed_dropping_release 28 = 10"
  "cas_new try_sync_setup_closed_wake 4 = 2"
  "cas_new try_sync_setup_closed_acquire 20 = 2"
  "cas_new try_set_closed_dropping_release 0 = 10" "cas_new try_set_closed_dropping_release 1 = 11"
  "cas_new try_set_closed_dropping_release 8 = 10"
  "cas_new try_set_dropping_release 2 = 10"
  "cas_new try_set_waiting 0 = 4"
  "cas_new try_sync_set_waiting_pending_wakeless 0 = 28"
  "cas_new try_unset_pending_acquire 20 = 4"
  "cas_new try_sync_set_wakeless_acquire 20 = 28"
  "cas_new unset_wakeless_release 28 = 20"
  by (simp_all add: cas_new_def cas_op_defs with_bit_def without_bit_def)

lemma cas_current_eval [word_state]:
  "cas_current try_sync_unset_ready_acquire cur = cas_new try_sync_unset_ready_acquire cur"
  "cas_current try_sync_setup_closed_wake cur = cas_new try_sync_setup_closed_wake cur"
  "cas_current try_sync_setup_closed_acquire cur = cas_new try_sync_setup_closed_acquire cur"
  "cas_current try_set_waiting cur = cas_new try_set_waiting cur"
  "cas_current try_sync_set_waiting_pending_wakeless cur
     = cas_new try_sync_set_waiting_pending_wakeless cur"
  "cas_current try_sync_set_wakeless_acquire cur = cas_new try_sync_set_wakeless_acquire cur"
  "cas_current try_unset_pending_acquire cur = cur"
  by (simp_all add: cas_current_def cas_op_defs)

lemma order_eval [word_state]:
  "order (try_setup_ready_release f) = Release" "order try_setup_dataless_acquire = Acquire"
  "order try_sync_unset_ready_acquire = Acquire" "order try_setup_closed_dropping_release = Release"
  "order try_sync_setup_closed_wake = Relaxed" "order try_sync_setup_closed_acquire = Acquire"
  "order try_set_closed_dropping_release = Release" "order try_set_dropping_release = Release"
  "order try_set_waiting = Relaxed" "order try_sync_set_waiting_pending_wakeless = Relaxed"
  "order try_unset_pending_acquire = Acquire" "order try_sync_set_wakeless_acquire = Acquire"
  "order unset_wakeless_release = Release"
  by (simp_all add: cas_op_defs)

lemma weak_eval [word_state]:
  "\<not> weak unset_wakeless_release"
  by (simp_all add: cas_op_defs)

lemmas loop_defs = recv_loop_def poll_loop_def drop_sender_loop_def drop_receiver_loop_def
  drop_receiver_tail_def try_wake_after_ready_def

section \<open>The points of each instruction\<close>

lemma instr_ILoad:
  assumes "instr f p = ILoad"
  obtains v where "p = InSend (SendLoad v)" | "p = InDropS DsLoad" | "p = InRecv RcLoad"
    | "p = InRecv RcReload" | w where "p = InPoll (PoLoad w)" | "p = InDropR DrLoad"
  using assms by (cases p)
    (auto elim!: send_instr.elims drops_instr.elims recv_instr.elims poll_instr.elims dropr_instr.elims)

lemma instr_IAcquire:
  assumes "instr f p = IAcquire"
  obtains "p = InSend SendAcq" | "p = InDropS DsAcq" | "p = InDropR DrAcq"
  using assms by (cases p)
    (auto elim!: send_instr.elims drops_instr.elims recv_instr.elims poll_instr.elims dropr_instr.elims)

lemma instr_ICas:
  assumes "instr f p = ICas op cur"
  obtains
    (send) "p = InSend (SendCas cur)" "op = try_setup_ready_release f"
  | (ds_drop) "p = InDropS (DsSetDropping cur)" "op = try_set_dropping_release"
  | (ds_closed_drop) "p = InDropS (DsClosedDropping cur)" "op = try_setup_closed_dropping_release"
  | (ds_closed_acq) "p = InDropS (DsClosedAcq cur)" "op = try_sync_setup_closed_acquire"
  | (ds_closed_wake) "p = InDropS (DsClosedWake cur)" "op = try_sync_setup_closed_wake"
  | (ds_set) "p = InDropS (DsSetClosedDropping cur)" "op = try_set_closed_dropping_release"
  | (rc_take) "p = InRecv (RcTake cur)" "op = try_setup_dataless_acquire"
  | (rc_unpend) "p = InRecv (RcUnpend cur)" "op = try_unset_pending_acquire"
  | (rc_wait) "p = InRecv (RcSetWaiting cur)" "op = try_set_waiting"
  | (po_take) w where "p = InPoll (PoTake w cur)" "op = try_setup_dataless_acquire"
  | (po_wakeless) w where "p = InPoll (PoWakeless w cur)" "op = try_sync_set_wakeless_acquire"
  | (po_set) w where "p = InPoll (PoSet w cur)" "op = try_sync_set_waiting_pending_wakeless"
  | (po_unset) w where "p = InPoll (PoUnset w cur)" "op = unset_wakeless_release"
  | (dr_unset) "p = InDropR (DrUnset cur)" "op = try_sync_unset_ready_acquire"
  | (dr_drop) "p = InDropR (DrSetDropping cur)" "op = try_set_dropping_release"
  | (dr_closed_acq) "p = InDropR (DrClosedAcq cur)" "op = try_sync_setup_closed_acquire"
  | (dr_set) "p = InDropR (DrSetClosedDropping cur)" "op = try_set_closed_dropping_release"
  using assms by (cases p)
    (auto elim!: send_instr.elims drops_instr.elims recv_instr.elims poll_instr.elims dropr_instr.elims)

lemma instr_data:
  "instr f p = IWriteData v \<Longrightarrow> \<exists>cur. p = InSend (SendWrite v cur)"
  "instr f p = IReadData \<Longrightarrow>
     p = InSend SendReadBack \<or> p = InRecv RcRead \<or> p = InPoll PoRead \<or> (\<exists>cur. p = InDropR (DrRead cur))"
  by (cases p; auto elim!: send_instr.elims drops_instr.elims recv_instr.elims
      poll_instr.elims dropr_instr.elims)+

lemma instr_waker:
  "instr f p = IWakeWaker \<Longrightarrow> p = InSend SendWake \<or> (\<exists>cur. p = InDropS (DsWake cur))"
  "instr f p = IDropWaker \<Longrightarrow> (\<exists>cur. p = InRecv (RcDropWaker cur)) \<or>
     (\<exists>w cur. p = InPoll (PoDropWaker w cur)) \<or> (\<exists>cur. p = InDropR (DrDropWaker cur))"
  "instr f p = IWriteWaker w \<Longrightarrow> \<exists>cur. p = InPoll (PoWrite w cur)"
  "instr f p = IUpdateWaker w \<Longrightarrow> \<exists>cur. p = InPoll (PoUpdate w cur)"
  by (cases p; auto elim!: send_instr.elims drops_instr.elims recv_instr.elims
      poll_instr.elims dropr_instr.elims)+

lemma instr_block:
  "instr f p = IWait cur \<Longrightarrow> p = InRecv (RcWait cur)"
  "instr f p = IParked \<Longrightarrow> p = InRecv RcParked"
  "instr f p = IWakeAll \<Longrightarrow> p = InSend SendWakeAll \<or> (\<exists>cur. p = InDropS (DsWakeAll cur))"
  "instr f p = IDealloc \<Longrightarrow> p = InDropS DsDealloc \<or> p = InDropR DrDealloc"
  by (cases p; auto elim!: send_instr.elims drops_instr.elims recv_instr.elims
      poll_instr.elims dropr_instr.elims)+

end
