(* ===== verification/OneshotCtl.thy ===== *)
theory OneshotCtl
  imports OneshotWords
begin

text \<open>
  The control invariant of the channel: which status words occur, how they evolve, and
  what each program point knows about the newest one.
\<close>

section \<open>The invariant\<close>

abbreviation latest :: "('v, 'w, 'z) mem_scheme \<Rightarrow> u32" where
  "latest s \<equiv> mval s (top s)"

text \<open>Which thread may be at which point.\<close>

fun snd_pc :: "('v, 'w) pc \<Rightarrow> bool" where
  "snd_pc (InRecv _) = False" | "snd_pc (InPoll _) = False" | "snd_pc (InDropR _) = False"
| "snd_pc _ = True"

fun rcv_pc :: "('v, 'w) pc \<Rightarrow> bool" where
  "rcv_pc (InSend _) = False" | "rcv_pc (InDropS _) = False"
| "rcv_pc _ = True"

text \<open>The sender has not made the data ready (and, inside \<^verbatim>\<open>send\<close>, may still do so).\<close>

fun presend :: "('v, 'w) pc \<Rightarrow> bool" where
  "presend Idle = True"
| "presend (InSend (SendLoad _)) = True"
| "presend (InSend (SendWrite _ _)) = True"
| "presend (InSend (SendCas _)) = True"
| "presend (InSend SendReadBack) = True"
| "presend _ = False"

text \<open>A \<^verbatim>\<open>recv\<close> that has seen the waiting state; a \<^verbatim>\<open>poll\<close> that owns the waker cell.\<close>

fun waits :: "('v, 'w) pc \<Rightarrow> bool" where
  "waits (InRecv (RcDropWaker _)) = True"
| "waits (InRecv (RcWait _)) = True"
| "waits (InRecv RcParked) = True"
| "waits (InRecv RcReload) = True"
| "waits _ = False"

fun polls :: "('v, 'w) pc \<Rightarrow> bool" where
  "polls (InPoll (PoUpdate _ _)) = True"
| "polls (InPoll (PoWrite _ _)) = True"
| "polls (InPoll (PoUnset _ _)) = True"
| "polls _ = False"

text \<open>
  What a thread at a point knows: the shape of its local copy, and constraints on the
  newest word \<open>mv tp\<close> (\<open>sn\<close> is the newest message the thread has seen).
\<close>

fun know_drops :: "(nat \<Rightarrow> u32) \<Rightarrow> nat \<Rightarrow> nat \<Rightarrow> drops_pc \<Rightarrow> bool" where
  "know_drops mv tp sn DsLoad = True"
| "know_drops mv tp sn DsAcq = (mv tp = 10 \<and> sn = tp)"
| "know_drops mv tp sn DsDealloc = (mv tp = 10)"
| "know_drops mv tp sn (DsSetDropping c) = (c = 2 \<and> mv tp \<in> {2, 10})"
| "know_drops mv tp sn (DsClosedDropping c) = (c = 28)"
| "know_drops mv tp sn (DsClosedAcq c) = (c = 20)"
| "know_drops mv tp sn (DsWake c) = (c = 2 \<and> mv tp \<in> {2, 10})"
| "know_drops mv tp sn (DsClosedWake c) = (c = 4)"
| "know_drops mv tp sn (DsWakeAll c) = (c = 2 \<and> mv tp \<in> {2, 10})"
| "know_drops mv tp sn (DsSetClosedDropping c) = (c \<in> {0, 1, 8})"

fun know_recv :: "(nat \<Rightarrow> u32) \<Rightarrow> nat \<Rightarrow> recv_pc \<Rightarrow> bool" where
  "know_recv mv tp (RcTake c) = (c \<in> {1, 11})"
| "know_recv mv tp (RcUnpend c) = (c \<in> {20, 28})"
| "know_recv mv tp (RcDropWaker c) = (c \<in> {20, 28} \<and> mv tp \<noteq> 20)"
| "know_recv mv tp (RcSetWaiting c) = (c = 0)"
| "know_recv mv tp (RcWait c) = (c \<in> {4, 20, 28} \<and> (c \<noteq> 4 \<longrightarrow> mv tp \<noteq> 20))"
| "know_recv mv tp _ = True"

definition polling :: "(nat \<Rightarrow> u32) \<Rightarrow> nat \<Rightarrow> nat \<Rightarrow> u32 \<Rightarrow> bool" where
  "polling mv tp sn c \<longleftrightarrow> c = 28 \<and> mv sn = 28 \<and> (\<forall>k. sn < k \<longrightarrow> k \<le> tp \<longrightarrow> mv k \<in> {1, 10, 11})"

fun know_poll :: "(nat \<Rightarrow> u32) \<Rightarrow> nat \<Rightarrow> nat \<Rightarrow> 'w poll_pc \<Rightarrow> bool" where
  "know_poll mv tp sn (PoLoad w) = True"
| "know_poll mv tp sn (PoTake w c) = (c \<in> {1, 11})"
| "know_poll mv tp sn PoRead = True"
| "know_poll mv tp sn (PoWakeless w c) = (c \<in> {4, 20, 28})"
| "know_poll mv tp sn (PoUpdate w c) = polling mv tp sn c"
| "know_poll mv tp sn (PoSet w c) = (c = 0)"
| "know_poll mv tp sn (PoWrite w c) = polling mv tp sn c"
| "know_poll mv tp sn (PoUnset w c) = polling mv tp sn c"
| "know_poll mv tp sn (PoDropWaker w c) = (c = mv sn \<and> c \<in> {1, 10, 11})"

fun know_dropr :: "(nat \<Rightarrow> u32) \<Rightarrow> nat \<Rightarrow> nat \<Rightarrow> dropr_pc \<Rightarrow> bool" where
  "know_dropr mv tp sn DrLoad = True"
| "know_dropr mv tp sn (DrUnset c) = (c \<in> {1, 11})"
| "know_dropr mv tp sn (DrRead c) = (c \<in> {0, 10} \<and> mv tp \<in> {c, 10} \<and> (c = 10 \<longrightarrow> sn = tp)
     \<and> (\<exists>k \<le> tp. mv k \<in> {1, 11}))"
| "know_dropr mv tp sn DrAcq = (mv tp = 10 \<and> sn = tp)"
| "know_dropr mv tp sn DrDealloc = (mv tp = 10)"
| "know_dropr mv tp sn (DrSetDropping c) = (c = 2 \<and> mv tp \<in> {2, 10})"
| "know_dropr mv tp sn (DrClosedAcq c) = (c \<in> {20, 28})"
| "know_dropr mv tp sn (DrDropWaker c) = (c = 2 \<and> mv tp \<in> {2, 10})"
| "know_dropr mv tp sn (DrSetClosedDropping c) = (c \<in> {0, 4, 8})"

fun know :: "(nat \<Rightarrow> u32) \<Rightarrow> nat \<Rightarrow> nat \<Rightarrow> ('v, 'w) pc \<Rightarrow> bool" where
  "know mv tp sn (InSend (SendWrite v c)) = (\<not> is_closed c)"
| "know mv tp sn (InSend (SendCas c)) = (\<not> is_closed c)"
| "know mv tp sn (InSend SendReadBack) = (mv tp \<in> {2, 10})"
| "know mv tp sn (InDropS p) = know_drops mv tp sn p"
| "know mv tp sn (InRecv p) = know_recv mv tp p"
| "know mv tp sn (InPoll p) = know_poll mv tp sn p"
| "know mv tp sn (InDropR p) = know_dropr mv tp sn p"
| "know mv tp sn (Ret (SendErr _)) = (mv tp \<in> {2, 10})"
| "know mv tp sn Gone = (mv tp \<in> {10, 11})"
| "know mv tp sn _ = True"

text \<open>
  How a word may change later: closing is final, consumed data stays consumed, a closed
  channel only becomes reclaimable.
\<close>

definition evolves :: "u32 \<Rightarrow> u32 \<Rightarrow> bool" where
  "evolves v w \<longleftrightarrow> (v = 2 \<longrightarrow> w \<in> {2, 10}) \<and> (v = 8 \<longrightarrow> w \<in> {8, 10}) \<and> (v = 10 \<longrightarrow> w = 10)
     \<and> (v = 11 \<longrightarrow> w \<in> {10, 11})"

definition hist_inv :: "features \<Rightarrow> ('v, 'w, 'z) mem_scheme \<Rightarrow> bool" where
  "hist_inv f s \<longleftrightarrow> (\<forall>k \<le> top s. mval s k \<in> words f) \<and> (\<forall>k < top s. mval s k \<noteq> 10)
     \<and> (\<forall>k \<le> top s. evolves (mval s k) (latest s))"

definition seen_inv :: "('v, 'w) chan \<Rightarrow> bool" where
  "seen_inv s \<longleftrightarrow> (\<forall>a. seen s a \<le> top s) \<and> own_seen s \<le> top s"

fun async_pc :: "('v, 'w) pc \<Rightarrow> bool" where
  "async_pc (InPoll _) = True" | "async_pc _ = False"

definition side_inv :: "features \<Rightarrow> ('v, 'w) chan \<Rightarrow> bool" where
  "side_inv f s \<longleftrightarrow> snd_pc (pc s Snd) \<and> (\<forall>i. rcv_pc (pc s (Rcv i)))
     \<and> (\<forall>a. async_pc (pc s a) \<longrightarrow> f_async f)"

definition know_inv :: "('v, 'w) chan \<Rightarrow> bool" where
  "know_inv s \<longleftrightarrow> (\<forall>a. know (mval s) (top s) (seen s a) (pc s a))"

definition excl_inv :: "('v, 'w) chan \<Rightarrow> bool" where
  "excl_inv s \<longleftrightarrow> (\<forall>i j. excl (pc s (Rcv i)) \<longrightarrow> j \<noteq> i \<longrightarrow> pc s (Rcv j) = Idle)"

definition virgin_inv :: "('v, 'w) chan \<Rightarrow> bool" where
  "virgin_inv s \<longleftrightarrow> (presend (pc s Snd) \<longrightarrow> (\<forall>k \<le> top s. mval s k \<notin> {1, 8, 11}))
     \<and> ((\<exists>k \<le> top s. mval s k = 11) \<longrightarrow> pc s Snd = Gone)"

definition owner_inv :: "('v, 'w) chan \<Rightarrow> bool" where
  "owner_inv s \<longleftrightarrow> (latest s = 4 \<longrightarrow> (\<exists>i. waits (pc s (Rcv i)) \<and> seen s (Rcv i) = top s))
     \<and> (latest s = 28 \<longrightarrow> (\<exists>i. polls (pc s (Rcv i))))"

definition fin_inv :: "('v, 'w) chan \<Rightarrow> bool" where
  "fin_inv s \<longleftrightarrow> (latest s \<in> {10, 11} \<longrightarrow> pc s Snd = Gone \<or> (\<exists>i. pc s (Rcv i) = Gone))
     \<and> (freed s \<longleftrightarrow> pc s Snd = Gone \<and> (\<exists>i. pc s (Rcv i) = Gone))
     \<and> (\<forall>i. pc s (Rcv i) = Gone \<longrightarrow> latest s = 10)"

definition ctl_inv :: "features \<Rightarrow> ('v, 'w) chan \<Rightarrow> bool" where
  "ctl_inv f s \<longleftrightarrow> hist_inv f s \<and> seen_inv s \<and> side_inv f s \<and> know_inv s \<and> excl_inv s
     \<and> virgin_inv s \<and> owner_inv s \<and> fin_inv s"

lemmas ctl_defs = hist_inv_def seen_inv_def side_inv_def know_inv_def excl_inv_def virgin_inv_def
  owner_inv_def fin_inv_def

lemma ctl_channel: "ctl_inv f channel"
  by (auto simp: ctl_inv_def ctl_defs channel_def mem_new_def mem.defs words_def evolves_def)

section \<open>Consequences\<close>

lemma ctl_latest: "ctl_inv f s \<Longrightarrow> latest s \<in> words f"
  by (simp add: ctl_inv_def hist_inv_def)

lemma ctl_read:
  assumes "ctl_inv f s" and "can_read a k s"
  shows "mval s k \<in> words f" and "evolves (mval s k) (latest s)" and "mval s k = 10 \<Longrightarrow> k = top s"
    and "k \<le> top s"
  using assms by (auto simp: ctl_inv_def hist_inv_def can_read_def order_le_less)

lemma ctl_side:
  assumes "ctl_inv f s"
  shows "\<not> snd_pc (pc s a) \<Longrightarrow> \<exists>i. a = Rcv i" and "\<not> rcv_pc (pc s a) \<Longrightarrow> a = Snd"
  using assms by (cases a; auto simp: ctl_inv_def side_inv_def)+

lemma ctl_know: "ctl_inv f s \<Longrightarrow> know (mval s) (top s) (seen s a) (pc s a)"
  by (simp add: ctl_inv_def know_inv_def)

lemma ctl_excl: "ctl_inv f s \<Longrightarrow> excl (pc s (Rcv i)) \<Longrightarrow> j \<noteq> i \<Longrightarrow> pc s (Rcv j) = Idle"
  by (simp add: ctl_inv_def excl_inv_def)

lemma ctl_presend:
  "ctl_inv f s \<Longrightarrow> presend (pc s Snd) \<Longrightarrow> k \<le> top s \<Longrightarrow> mval s k \<notin> {1, 8, 11}"
  by (simp add: ctl_inv_def virgin_inv_def)

lemma ctl_11: "ctl_inv f s \<Longrightarrow> pc s Snd \<noteq> Gone \<Longrightarrow> k \<le> top s \<Longrightarrow> mval s k \<noteq> 11"
  by (auto simp: ctl_inv_def virgin_inv_def)

text \<open>While a receiver is used exclusively nobody waits in \<^verbatim>\<open>recv\<close>, and dually.\<close>

lemma ctl_excl_4:
  assumes "ctl_inv f s" and "excl (pc s (Rcv i))"
  shows "latest s \<noteq> 4"
proof
  assume "latest s = 4"
  then obtain j where w: "waits (pc s (Rcv j))" using assms(1) by (auto simp: ctl_inv_def owner_inv_def)
  then have "j \<noteq> i" using assms(2) by (cases "pc s (Rcv j)") auto
  then show False using ctl_excl[OF assms, of j] w by simp
qed

lemma ctl_excl_28:
  assumes "ctl_inv f s" and "latest s = 28" and "\<not> polls (pc s (Rcv i))"
  shows "pc s (Rcv i) = Idle"
proof -
  from assms(1,2) obtain j where p: "polls (pc s (Rcv j))" by (auto simp: ctl_inv_def owner_inv_def)
  with assms(3) have "j \<noteq> i" by auto
  moreover have "excl (pc s (Rcv j))" using p by (cases "pc s (Rcv j)") auto
  ultimately show ?thesis using ctl_excl[OF assms(1), of j i] by simp
qed

lemma ctl_Gone_excl: "ctl_inv f s \<Longrightarrow> pc s (Rcv i) = Gone \<Longrightarrow> j \<noteq> i \<Longrightarrow> pc s (Rcv j) = Idle"
  using ctl_excl[of f s i j] by simp

lemma ctl_fin:
  assumes "ctl_inv f s"
  shows "freed s \<longleftrightarrow> pc s Snd = Gone \<and> (\<exists>i. pc s (Rcv i) = Gone)"
    and "latest s \<in> {10, 11} \<Longrightarrow> pc s Snd \<noteq> Gone \<Longrightarrow> \<exists>i. pc s (Rcv i) = Gone"
    and "pc s (Rcv i) = Gone \<Longrightarrow> latest s = 10"
    and "pc s Snd = Gone \<Longrightarrow> latest s \<in> {10, 11}"
  using assms ctl_know[OF assms, of Snd] by (auto simp: ctl_inv_def fin_inv_def)

lemma ctl_fin_rcv:
  assumes "ctl_inv f s" and "latest s = 10" and "excl (pc s (Rcv i))" and "pc s (Rcv i) \<noteq> Gone"
  shows "pc s Snd = Gone"
proof (rule ccontr)
  assume "pc s Snd \<noteq> Gone"
  then obtain j where "pc s (Rcv j) = Gone" using ctl_fin(2)[OF assms(1)] assms(2) by auto
  then show False using assms(3,4) ctl_excl[OF assms(1,3)] by (metis pc.distinct(13))
qed

text \<open>A thread inside a call has not finished, so the memory is still allocated.\<close>

lemma ctl_live:
  assumes "ctl_inv f s" and "instr f (pc s a) \<noteq> INone"
  shows "\<not> freed s"
proof
  assume fr: "freed s"
  then obtain i where i: "pc s (Rcv i) = Gone" and snd: "pc s Snd = Gone"
    using ctl_fin(1)[OF assms(1)] by auto
  show False
  proof (cases a)
    case Snd
    then show ?thesis using snd assms(2) by simp
  next
    case (Rcv j)
    then show ?thesis using ctl_Gone_excl[OF assms(1) i, of j] i assms(2) by (cases "j = i") auto
  qed
qed

section \<open>Preservation\<close>

text \<open>A step that leaves the word alone: one thread moves to another point.\<close>

lemma ctl_move_snd:
  assumes "ctl_inv f s" and "mval t = mval s" and "top t = top s" and "freed t = freed s"
    and "pc t = (pc s)(Snd := p)" and "seen t = (seen s)(Snd := k)" and "k \<le> top s"
    and "own_seen t \<le> top s" and "know (mval s) (top s) k p"
    and "snd_pc p" and "presend p \<Longrightarrow> presend (pc s Snd)" and "p = Gone \<longleftrightarrow> pc s Snd = Gone"
  shows "ctl_inv f t"
proof -
  have "\<not> async_pc p" using assms(10) by (cases p) auto
  then have "side_inv f t"
    using assms(1,5,10) unfolding ctl_inv_def side_inv_def by auto
  moreover have "hist_inv f t" "seen_inv t" "know_inv t" "excl_inv t" "virgin_inv t" "owner_inv t"
    using assms(1-3,5-9,11,12) unfolding ctl_inv_def ctl_defs by auto
  moreover have "fin_inv t"
    using assms(1-5,12) unfolding ctl_inv_def fin_inv_def by auto
  ultimately show ?thesis unfolding ctl_inv_def by blast
qed

lemma ctl_move_rcv:
  assumes "ctl_inv f s" and "mval t = mval s" and "top t = top s" and "freed t = freed s"
    and "pc t = (pc s)(Rcv i := p)" and "seen t = (seen s)(Rcv i := k)" and "k \<le> top s"
    and "own_seen t \<le> top s" and "know (mval s) (top s) k p"
    and "rcv_pc p \<and> (async_pc p \<longrightarrow> f_async f)" and "p = Gone \<longleftrightarrow> pc s (Rcv i) = Gone"
    and "excl p \<Longrightarrow> excl (pc s (Rcv i)) \<or> may_own s"
    and "p = Idle \<or> pc s (Rcv i) \<noteq> Idle \<or> may_share s \<or> may_own s"
    and "latest s = 28 \<Longrightarrow> polls (pc s (Rcv i)) \<Longrightarrow> polls p"
    and "latest s = 4 \<Longrightarrow> waits (pc s (Rcv i)) \<Longrightarrow> seen s (Rcv i) = top s \<Longrightarrow> waits p \<and> k = top s"
  shows "ctl_inv f t"
proof -
  have "excl_inv t"
    unfolding excl_inv_def
  proof (intro allI impI)
    fix i' j assume ex: "excl (pc t (Rcv i'))" and ne: "j \<noteq> i'"
    show "pc t (Rcv j) = Idle"
      using assms(1,5,12,13) ex ne ctl_excl[OF assms(1), of i' j]
      by (auto simp: may_own_def may_share_def split: if_splits)
  qed
  moreover have "owner_inv t"
    unfolding owner_inv_def
  proof (intro conjI impI)
    assume "latest t = 4"
    then have l: "latest s = 4" using assms(2,3) by simp
    then obtain j where j: "waits (pc s (Rcv j))" "seen s (Rcv j) = top s"
      using assms(1) by (auto simp: ctl_inv_def owner_inv_def)
    then show "\<exists>i. waits (pc t (Rcv i)) \<and> seen t (Rcv i) = top t"
      using assms(3,5,6) assms(15)[OF l] by (intro exI[of _ j]) auto
  next
    assume "latest t = 28"
    then have l: "latest s = 28" using assms(2,3) by simp
    then obtain j where j: "polls (pc s (Rcv j))"
      using assms(1) by (auto simp: ctl_inv_def owner_inv_def)
    then show "\<exists>i. polls (pc t (Rcv i))"
      using assms(5) assms(14)[OF l] by (intro exI[of _ j]) auto
  qed
  moreover have "side_inv f t"
    using assms(1,5,10) unfolding ctl_inv_def side_inv_def by auto
  moreover have "know_inv t" "hist_inv f t" "seen_inv t" "virgin_inv t"
    using assms(1-3,5-9) unfolding ctl_inv_def ctl_defs by auto
  moreover have "fin_inv t"
    using assms(1-5,11) unfolding ctl_inv_def fin_inv_def by auto
  ultimately show ?thesis
    unfolding ctl_inv_def by blast
qed

subsection \<open>Loop heads\<close>

text \<open>Whatever message a thread reads, the loop head leads to a point whose knowledge holds.\<close>

lemma know_loops:
  assumes "ctl_inv f s" and "can_read a k s"
  shows "know (mval s) (top s) k (recv_loop f (mval s k))"
    and "know (mval s) (top s) k (poll_loop w (mval s k))"
    and "pc s Snd \<noteq> Gone \<Longrightarrow> know (mval s) (top s) k (drop_sender_loop f (mval s k))"
    and "know (mval s) (top s) k (drop_receiver_loop f (mval s k))"
proof -
  note r = ctl_read[OF assms]
  show "know (mval s) (top s) k (recv_loop f (mval s k))"
    using r(1,2) by (cases rule: words_cases) (auto simp: recv_loop_def word_state)
  show "know (mval s) (top s) k (poll_loop w (mval s k))"
    using r(1,2) by (cases rule: words_cases) (auto simp: poll_loop_def word_state)
  show "know (mval s) (top s) k (drop_sender_loop f (mval s k))" if "pc s Snd \<noteq> Gone"
    using r(1) by (cases rule: words_cases)
      (use r(2,3) ctl_11[OF assms(1) that r(4)] in
        \<open>auto simp: drop_sender_loop_def word_state evolves_def\<close>)
  show "know (mval s) (top s) k (drop_receiver_loop f (mval s k))"
    using r(1) by (cases rule: words_cases)
      (use r(2,3) in \<open>auto simp: drop_receiver_loop_def drop_receiver_tail_def word_state evolves_def\<close>)
qed

lemma loop_kinds:
  "rcv_pc (recv_loop f c)" "recv_loop f c \<noteq> Gone" "\<not> excl (recv_loop f c)" "recv_loop f c \<noteq> Idle"
  "rcv_pc (poll_loop w c)" "poll_loop w c \<noteq> Gone" "poll_loop w c \<noteq> Idle" "\<not> polls (poll_loop w c)"
  "snd_pc (drop_sender_loop f c)" "drop_sender_loop f c \<noteq> Gone" "\<not> presend (drop_sender_loop f c)"
  "rcv_pc (drop_receiver_loop f c)" "drop_receiver_loop f c \<noteq> Gone" "drop_receiver_loop f c \<noteq> Idle"
  "rcv_pc (drop_receiver_tail f c)" "drop_receiver_tail f c \<noteq> Gone" "drop_receiver_tail f c \<noteq> Idle"
  "\<not> polls (drop_receiver_tail f c)" "\<not> polls (drop_receiver_loop f c)"
  "snd_pc (try_wake_after_ready f c)" "try_wake_after_ready f c \<noteq> Gone"
  "\<not> presend (try_wake_after_ready f c)"
  by (simp_all add: loop_defs)

lemma recv_loop_4: "recv_loop f 4 = InRecv (RcWait 4)"
  by (simp add: recv_loop_def word_state)

subsection \<open>A new word\<close>

lemma ex_push: "\<exists>k \<le> tp. P (mv k) \<Longrightarrow> \<exists>k \<le> Suc tp. P ((mv(Suc tp := w)) k)"
  by (metis fun_upd_other le_SucI not_less_eq_eq order_refl)

lemma know_push:
  assumes "know mv tp sn p" and "sn \<le> tp" and "evolves (mv tp) w" and "mv tp \<noteq> 10"
    and "w = 20 \<Longrightarrow> \<not> waits p" and "polls p \<Longrightarrow> w \<in> {1, 10, 11}"
    and "\<And>c. p = InDropR (DrRead c) \<Longrightarrow> w = 10"
  shows "know (mv(Suc tp := w)) (Suc tp) sn p"
proof (cases p)
  case (InSend q)
  then show ?thesis using assms by (cases q) (auto simp: evolves_def)
next
  case (InDropS q)
  then show ?thesis using assms by (cases q) (auto simp: evolves_def)
next
  case (InRecv q)
  then show ?thesis using assms by (cases q) auto
next
  case (InPoll q)
  then show ?thesis using assms by (cases q) (auto simp: polling_def le_Suc_eq)
next
  case (InDropR q)
  show ?thesis
  proof (cases q)
    case (DrRead c)
    with InDropR assms(1,4,7) show ?thesis
      using ex_push[of tp "\<lambda>v. v \<in> {1, 11}" mv w] by auto
  qed (use assms InDropR in \<open>auto simp: evolves_def\<close>)
next
  case (Ret r)
  then show ?thesis using assms by (cases r) (auto simp: evolves_def)
qed (use assms in \<open>auto simp: evolves_def\<close>)

lemma evolves_trans: "evolves u v \<Longrightarrow> evolves v w \<Longrightarrow> evolves u w"
  by (auto simp: evolves_def)

lemma ctl_push:
  assumes I: "ctl_inv f s" and live: "\<not> freed s" and act: "pc s a \<noteq> Gone" "pc s a \<noteq> Idle"
    and t: "mval t = (mval s)(Suc (top s) := w)" "top t = Suc (top s)" "freed t = freed s"
      "pc t = (pc s)(a := p)" "seen t = (seen s)(a := Suc (top s))" "own_seen t = own_seen s"
    and w: "w \<in> words f" "evolves (latest s) w" "latest s \<noteq> 10"
    and kp: "know (mval t) (top t) (top t) p"
    and others: "\<And>b. b \<noteq> a \<Longrightarrow> (w = 20 \<longrightarrow> \<not> waits (pc s b)) \<and> (polls (pc s b) \<longrightarrow> w \<in> {1, 10, 11})
      \<and> (\<forall>c. pc s b = InDropR (DrRead c) \<longrightarrow> w = 10)"
    and snd: "a = Snd \<Longrightarrow> snd_pc p \<and> \<not> presend p"
    and rcv: "a \<noteq> Snd \<Longrightarrow> rcv_pc p \<and> (excl p \<longrightarrow> excl (pc s a)) \<and> (async_pc p \<longrightarrow> f_async f)"
    and virgin: "presend (pc t Snd) \<Longrightarrow> w \<notin> {1, 8, 11}" "w = 11 \<Longrightarrow> pc t Snd = Gone"
    and own: "w = 4 \<Longrightarrow> a \<noteq> Snd \<and> waits p" "w = 28 \<Longrightarrow> a \<noteq> Snd \<and> polls p"
    and fin: "w \<in> {10, 11} \<Longrightarrow> p = Gone \<or> latest s = 11"
      "p = Gone \<Longrightarrow> latest s \<noteq> 11 \<and> w \<in> {10, 11} \<and> (a \<noteq> Snd \<longrightarrow> w = 10)"
  shows "ctl_inv f t"
proof -
  have lt: "latest t = w" using t(1,2) by simp
  have "hist_inv f t"
    using I w t(1,2) unfolding ctl_inv_def hist_inv_def
    by (auto simp: le_Suc_eq less_Suc_eq intro: evolves_trans) (simp_all add: evolves_def)
  moreover have "seen_inv t"
    using I t unfolding ctl_inv_def seen_inv_def by (auto intro: le_SucI)
  moreover have "side_inv f t"
  proof -
    have "a = Snd \<Longrightarrow> \<not> async_pc p" using snd by (cases p) auto
    then show ?thesis using I t snd rcv unfolding ctl_inv_def side_inv_def by auto
  qed
  moreover have "know_inv t"
    unfolding know_inv_def
  proof
    fix b
    show "know (mval t) (top t) (seen t b) (pc t b)"
    proof (cases "b = a")
      case True
      then show ?thesis using kp t by simp
    next
      case False
      have "know (mval s) (top s) (seen s b) (pc s b)" "seen s b \<le> top s"
        using I by (auto simp: ctl_inv_def know_inv_def seen_inv_def)
      from know_push[OF this w(2,3)] others[OF False] show ?thesis
        using t False by simp
    qed
  qed
  moreover have "excl_inv t"
    unfolding excl_inv_def
  proof (intro allI impI)
    fix i j assume "excl (pc t (Rcv i))" "j \<noteq> i"
    then show "pc t (Rcv j) = Idle"
      using ctl_excl[OF I, of i j] act rcv t(4) by (auto split: if_splits)
  qed
  moreover have "virgin_inv t"
    using I virgin t snd act unfolding ctl_inv_def virgin_inv_def by (auto simp: le_Suc_eq)
  moreover have "owner_inv t"
    using own t lt unfolding owner_inv_def by (cases a) auto
  moreover have "fin_inv t"
  proof -
    have g: "pc s (Rcv i) \<noteq> Gone" for i using ctl_fin(3)[OF I] w(3) by auto
    have "w \<in> {10, 11} \<Longrightarrow> pc t Snd = Gone \<or> (\<exists>i. pc t (Rcv i) = Gone)"
      using fin(1) t(4) ctl_fin(2)[OF I] g act by (cases a) fastforce+
    moreover have "\<not> (pc t Snd = Gone \<and> (\<exists>i. pc t (Rcv i) = Gone))"
      using t(4) g fin(2) ctl_fin(4)[OF I] w(3) by (cases a) (auto split: if_splits)
    moreover have "pc t (Rcv i) = Gone \<Longrightarrow> w = 10" for i
      using t(4) g fin(2) by (auto split: if_splits)
    ultimately show ?thesis
      unfolding fin_inv_def lt using live t(3) by auto
  qed
  ultimately show ?thesis
    unfolding ctl_inv_def by blast
qed

text \<open>The three kinds of thread that replace the word.\<close>

lemma polls_latest: "ctl_inv f s \<Longrightarrow> polls (pc s b) \<Longrightarrow> latest s \<in> {1, 10, 11, 28}"
  using ctl_know[of f s b]
  by (cases "pc s b" rule: polls.cases; cases "seen s b = top s")
    (auto simp: polling_def ctl_inv_def seen_inv_def nat_less_le)

lemma drread_latest:
  assumes "ctl_inv f s" and "pc s b = InDropR (DrRead c)"
  shows "latest s \<in> {0, 10}" and "\<not> presend (pc s Snd)"
  using ctl_know[OF assms(1), of b] ctl_presend[OF assms(1)] assms(2) by auto

lemma ctl_others_idle:
  assumes "ctl_inv f s" and "excl (pc s (Rcv i))" and "b \<noteq> Rcv i"
  shows "\<not> waits (pc s b) \<and> \<not> polls (pc s b) \<and> (\<forall>q. pc s b \<noteq> InDropR q)"
proof (cases b)
  case Snd
  then have "snd_pc (pc s b)" using assms(1) by (simp add: ctl_inv_def side_inv_def)
  then show ?thesis by (cases "pc s b") auto
next
  case (Rcv j)
  then show ?thesis using ctl_excl[OF assms(1,2), of j] assms(3) by auto
qed

lemma ctl_shared:
  assumes I: "ctl_inv f s" and act: "pc s (Rcv i) = InRecv q"
  shows "\<not> polls (pc s b)" and "pc s b \<noteq> InDropR q'"
proof -
  have "\<not> excl (pc s b)" if "b \<noteq> Snd"
    using that ctl_excl[OF I, of _ i] act by (cases b) force+
  then show "\<not> polls (pc s b)" "pc s b \<noteq> InDropR q'"
    using I by (cases "b = Snd"; cases "pc s b"; force simp: ctl_inv_def side_inv_def)+
qed

definition pushed ::
  "agent \<Rightarrow> u32 \<Rightarrow> ('v, 'w) pc \<Rightarrow> ('v, 'w) chan \<Rightarrow> ('v, 'w) chan \<Rightarrow> bool" where
  "pushed a w p s t \<longleftrightarrow> mval t = (mval s)(Suc (top s) := w) \<and> top t = Suc (top s)
     \<and> freed t = freed s \<and> pc t = (pc s)(a := p) \<and> seen t = (seen s)(a := Suc (top s))
     \<and> own_seen t = own_seen s \<and> know (mval t) (top t) (top t) p"

lemma push_snd:
  assumes I: "ctl_inv f s" and live: "\<not> freed s" and act: "pc s Snd \<noteq> Gone" "pc s Snd \<noteq> Idle"
    and t: "pushed Snd w p s t" and p: "snd_pc p" "\<not> presend p"
    and w: "w = 1 \<and> p \<noteq> Gone \<and> presend (pc s Snd) \<and> latest s \<in> {0, 4, 20, 28}
      \<or> w = 2 \<and> p \<noteq> Gone \<and> latest s \<in> {4, 20} \<or> w = 10 \<and> p = Gone \<and> latest s \<in> {0, 2, 8, 28}
      \<or> w = 11 \<and> p = Gone \<and> latest s = 1"
  shows "ctl_inv f t"
proof (rule ctl_push[OF I live act])
  show "w \<in> words f" "evolves (latest s) w" "latest s \<noteq> 10"
    using w by (auto simp: words_def evolves_def)
  show "(w = 20 \<longrightarrow> \<not> waits (pc s b)) \<and> (polls (pc s b) \<longrightarrow> w \<in> {1, 10, 11})
      \<and> (\<forall>c. pc s b = InDropR (DrRead c) \<longrightarrow> w = 10)" for b
    using w polls_latest[OF I, of b] drread_latest[OF I, of b] by auto
qed (use t p w in \<open>auto simp: pushed_def\<close>)

lemma push_excl:
  assumes I: "ctl_inv f s" and live: "\<not> freed s"
    and act: "pc s (Rcv i) \<noteq> Gone" "excl (pc s (Rcv i))"
    and t: "pushed (Rcv i) w p s t" and p: "rcv_pc p" "async_pc p \<Longrightarrow> f_async f"
      "w \<in> {20, 28} \<Longrightarrow> f_async f"
    and w: "p \<noteq> Gone \<and> (latest s, w) \<in> {(1, 8), (11, 10), (28, 20), (1, 0), (20, 2)}
      \<or> polls p \<and> w = 28 \<and> latest s \<in> {0, 20} \<or> p = Gone \<and> w = 10 \<and> latest s \<in> {0, 2, 8}"
  shows "ctl_inv f t"
proof (rule ctl_push[OF I live])
  have pre: "presend (pc s Snd) \<Longrightarrow> latest s \<notin> {1, 8, 11}" using ctl_presend[OF I] by simp
  show "w \<in> words f" "evolves (latest s) w" "latest s \<noteq> 10"
    using w p by (auto simp: words_def evolves_def)
  show "(w = 20 \<longrightarrow> \<not> waits (pc s b)) \<and> (polls (pc s b) \<longrightarrow> w \<in> {1, 10, 11})
      \<and> (\<forall>c. pc s b = InDropR (DrRead c) \<longrightarrow> w = 10)" if "b \<noteq> Rcv i" for b
    using ctl_others_idle[OF I act(2) that] by auto
  show "presend (pc t Snd) \<Longrightarrow> w \<notin> {1, 8, 11}" using pre w t by (auto simp: pushed_def)
qed (use t p w act in \<open>auto simp: pushed_def\<close>)

lemma push_shared:
  assumes I: "ctl_inv f s" and live: "\<not> freed s" and act: "pc s (Rcv i) = InRecv q"
    and t: "pushed (Rcv i) w p s t" and p: "rcv_pc p" "\<not> excl p"
    and w: "(latest s, w) \<in> {(1, 8), (11, 10)} \<or> waits p \<and> w = 4 \<and> latest s \<in> {0, 20}"
  shows "ctl_inv f t"
proof -
  have na: "\<not> async_pc p" using p by (cases p) auto
  show ?thesis
  proof (rule ctl_push[OF I live])
    have pre: "presend (pc s Snd) \<Longrightarrow> latest s \<notin> {1, 8, 11}" using ctl_presend[OF I] by simp
    show "w \<in> words f" "evolves (latest s) w" "latest s \<noteq> 10"
      using w by (auto simp: words_def evolves_def)
    show "(w = 20 \<longrightarrow> \<not> waits (pc s b)) \<and> (polls (pc s b) \<longrightarrow> w \<in> {1, 10, 11})
        \<and> (\<forall>c. pc s b = InDropR (DrRead c) \<longrightarrow> w = 10)" if "b \<noteq> Rcv i" for b
      using ctl_shared[OF I act, of b] w by auto
    show "presend (pc t Snd) \<Longrightarrow> w \<notin> {1, 8, 11}" using pre w t by (auto simp: pushed_def)
  qed (use t p na w act in \<open>auto simp: pushed_def\<close>)
qed

end
