(* ===== verification/OneshotStep.thy ===== *)
theory OneshotStep
  imports OneshotCtl
begin

text \<open>
  Every step of the channel keeps the control invariant: the table of successful
  exchanges, and the moves between two exchanges.
\<close>

section \<open>Successful exchanges\<close>

text \<open>Every exchange that can succeed, with the word it replaces and the word it writes.\<close>

lemma cas_table:
  assumes I: "ctl_inv f s" and ins: "instr f (pc s a) = ICas op (latest s)"
  obtains
    (send) l where "a = Snd" "pc s a = InSend (SendCas l)" "latest s = l" "l \<in> {0, 4, 20, 28}"
      "cas_new op l = 1" "order op = Release"
  | (ds_drop) "a = Snd" "pc s a = InDropS (DsSetDropping 2)" "latest s = 2" "cas_new op 2 = 10"
      "order op = Release"
  | (ds_closed_drop) "a = Snd" "pc s a = InDropS (DsClosedDropping 28)" "latest s = 28"
      "cas_new op 28 = 10" "order op = Release"
  | (ds_closed_acq) "a = Snd" "pc s a = InDropS (DsClosedAcq 20)" "latest s = 20" "cas_new op 20 = 2"
      "cas_current op 20 = 2" "order op = Acquire" "op = try_sync_setup_closed_acquire"
  | (ds_closed_wake) "a = Snd" "pc s a = InDropS (DsClosedWake 4)" "latest s = 4" "cas_new op 4 = 2"
      "cas_current op 4 = 2" "order op = Relaxed" "op = try_sync_setup_closed_wake"
  | (ds_set) l where "a = Snd" "pc s a = InDropS (DsSetClosedDropping l)" "latest s = l"
      "l = 0 \<and> cas_new op l = 10 \<or> l = 1 \<and> cas_new op l = 11 \<or> l = 8 \<and> cas_new op l = 10"
      "order op = Release"
  | (rc_take) i l where "a = Rcv i" "pc s a = InRecv (RcTake l)" "latest s = l"
      "l = 1 \<and> cas_new op l = 8 \<or> l = 11 \<and> cas_new op l = 10" "order op = Acquire"
  | (rc_unpend) i where "a = Rcv i" "pc s a = InRecv (RcUnpend 20)" "latest s = 20"
      "cas_new op 20 = 4" "order op = Acquire" "op = try_unset_pending_acquire"
  | (rc_wait) i where "a = Rcv i" "pc s a = InRecv (RcSetWaiting 0)" "latest s = 0"
      "cas_new op 0 = 4" "order op = Relaxed" "op = try_set_waiting"
  | (po_take) i w l where "a = Rcv i" "pc s a = InPoll (PoTake w l)" "latest s = l"
      "l = 1 \<and> cas_new op l = 8 \<or> l = 11 \<and> cas_new op l = 10" "order op = Acquire"
  | (po_wakeless) i w where "a = Rcv i" "pc s a = InPoll (PoWakeless w 20)" "latest s = 20"
      "cas_new op 20 = 28" "order op = Acquire" "op = try_sync_set_wakeless_acquire"
  | (po_set) i w where "a = Rcv i" "pc s a = InPoll (PoSet w 0)" "latest s = 0"
      "cas_new op 0 = 28" "order op = Relaxed" "op = try_sync_set_waiting_pending_wakeless"
  | (po_unset) i w where "a = Rcv i" "pc s a = InPoll (PoUnset w 28)" "latest s = 28"
      "cas_new op 28 = 20" "order op = Release" "polling (mval s) (top s) (seen s a) 28"
  | (dr_unset) i l where "a = Rcv i" "pc s a = InDropR (DrUnset l)" "latest s = l"
      "l = 1 \<and> cas_new op l = 0 \<or> l = 11 \<and> cas_new op l = 10" "order op = Acquire"
      "op = try_sync_unset_ready_acquire"
  | (dr_drop) i where "a = Rcv i" "pc s a = InDropR (DrSetDropping 2)" "latest s = 2"
      "cas_new op 2 = 10" "order op = Release"
  | (dr_closed_acq) i where "a = Rcv i" "pc s a = InDropR (DrClosedAcq 20)" "latest s = 20"
      "cas_new op 20 = 2" "cas_current op 20 = 2" "order op = Acquire"
      "op = try_sync_setup_closed_acquire"
  | (dr_set) i l where "a = Rcv i" "pc s a = InDropR (DrSetClosedDropping l)" "latest s = l"
      "l \<in> {0, 8}" "cas_new op l = 10" "order op = Release"
proof -
  note kn = ctl_know[OF I, of a]
  note side = ctl_side[OF I, of a]
  have x4: "\<And>i. a = Rcv i \<Longrightarrow> excl (pc s a) \<Longrightarrow> latest s \<noteq> 4"
    using ctl_excl_4[OF I] by auto
  have x28: "\<And>i. a = Rcv i \<Longrightarrow> \<not> polls (pc s a) \<Longrightarrow> pc s a \<noteq> Idle \<Longrightarrow> latest s \<noteq> 28"
    using ctl_excl_28[OF I] by auto
  have snd: "presend (pc s Snd) \<Longrightarrow> latest s \<notin> {1, 8, 11}" using ctl_presend[OF I] by simp
  from ins show thesis
  proof (cases rule: instr_ICas)
    case send
    with side have "a = Snd" by simp
    then show thesis
      using send kn snd ctl_latest[OF I] that(1)[of "latest s"]
      by (auto simp: word_state elim!: words_cases)
  next
    case (po_unset w)
    with side obtain i where "a = Rcv i" by auto
    moreover have "latest s = 28" using po_unset kn by (simp add: polling_def)
    ultimately show thesis
      using po_unset kn that(13)[of i w] by (simp add: word_state)
  qed (use kn side x4 x28 in \<open>auto simp: word_state intro: that\<close>)
qed

lemma pushed_cas:
  assumes "latest s = l" and "cas_new op l = w" and "nxt f (pc s a) CasOk = p"
    and "know ((mval s)(Suc (top s) := w)) (Suc (top s)) (Suc (top s)) p"
  shows "pushed a w p s (adv f a CasOk (cas_success a op l s))"
  using assms by (simp add: pushed_def adv_def goto_def cas_success_def touch_def Let_def)

lemma know_wake: "know mv tp sn (try_wake_after_ready f l)"
  by (simp add: try_wake_after_ready_def)

lemma ctl_async: "ctl_inv f s \<Longrightarrow> pc s a = InPoll q \<Longrightarrow> f_async f"
  unfolding ctl_inv_def side_inv_def by (metis async_pc.simps(1))

lemma ctl_cas_ok:
  assumes I: "ctl_inv f s" and ins: "instr f (pc s a) = ICas op (latest s)"
  shows "ctl_inv f (adv f a CasOk (cas_success a op (latest s) s))" (is "ctl_inv f ?t")
proof -
  have live: "\<not> freed s" using ctl_live[OF I, of a] ins by simp
  have 11: "latest s = 11 \<Longrightarrow> pc s Snd = Gone" using ctl_11[OF I, of "top s"] by auto
  have as: "latest s = 20 \<Longrightarrow> f_async f" using ctl_latest[OF I] by (auto simp: words_def split: if_splits)
  from I ins show ?thesis
  proof (cases rule: cas_table)
    case (send l)
    show ?thesis
      by (rule push_snd[OF I live, where w = 1 and p = "try_wake_after_ready f l"])
        (use send in \<open>auto intro!: pushed_cas simp: loop_kinds know_wake\<close>)
  next
    case ds_drop
    show ?thesis
      by (rule push_snd[OF I live, where w = 10 and p = "Gone"])
        (use ds_drop in \<open>auto intro!: pushed_cas simp: word_state Let_def loop_kinds\<close>)
  next
    case ds_closed_drop
    show ?thesis
      by (rule push_snd[OF I live, where w = 10 and p = "Gone"])
        (use ds_closed_drop in \<open>auto intro!: pushed_cas simp: word_state Let_def loop_kinds\<close>)
  next
    case ds_closed_acq
    show ?thesis
      by (rule push_snd[OF I live, where w = 2 and p = "InDropS (DsWake 2)"])
        (use ds_closed_acq in \<open>auto intro!: pushed_cas simp: word_state Let_def loop_kinds\<close>)
  next
    case ds_closed_wake
    show ?thesis
      by (rule push_snd[OF I live, where w = 2 and p = "if f_wait f then InDropS (DsWakeAll 2) else InDropS (DsSetDropping 2)"])
        (use ds_closed_wake in \<open>auto intro!: pushed_cas simp: word_state Let_def loop_kinds\<close>)
  next
    case (ds_set l)
    show ?thesis
      by (rule push_snd[OF I live, where w = "cas_new op l" and p = Gone])
        (use ds_set in \<open>auto intro!: pushed_cas\<close>)
  next
    case (rc_take i l)
    show ?thesis
      by (rule push_shared[OF I live, where i = i and w = "cas_new op l" and p = "InRecv RcRead"])
        (use rc_take in \<open>auto intro!: pushed_cas\<close>)
  next
    case (rc_unpend i)
    show ?thesis
      by (rule push_shared[OF I live, where i = i and w = 4 and p = "InRecv (RcDropWaker 20)"])
        (use rc_unpend in \<open>auto intro!: pushed_cas simp: word_state\<close>)
  next
    case (rc_wait i)
    show ?thesis
      by (rule push_shared[OF I live, where i = i and w = 4 and p = "InRecv (RcWait 4)"])
        (use rc_wait in \<open>auto intro!: pushed_cas simp: word_state\<close>)
  next
    case (po_take i w l)
    show ?thesis
      by (rule push_excl[OF I live, where i = i and w = "cas_new op l" and p = "InPoll PoRead"])
        (use po_take ctl_async[OF I] in \<open>auto intro!: pushed_cas\<close>)
  next
    case (po_wakeless i w)
    show ?thesis
      by (rule push_excl[OF I live, where i = i and w = 28 and p = "InPoll (PoUpdate w 28)"])
        (use po_wakeless ctl_async[OF I] in \<open>auto intro!: pushed_cas simp: word_state polling_def\<close>)
  next
    case (po_set i w)
    show ?thesis
      by (rule push_excl[OF I live, where i = i and w = 28 and p = "InPoll (PoWrite w 28)"])
        (use po_set ctl_async[OF I] in \<open>auto intro!: pushed_cas simp: word_state polling_def\<close>)
  next
    case (po_unset i w)
    show ?thesis
      by (rule push_excl[OF I live, where i = i and w = 20 and p = "Ret PollPending"])
        (use po_unset ctl_async[OF I] in \<open>auto intro!: pushed_cas\<close>)
  next
    case (dr_unset i l)
    show ?thesis
      by (rule push_excl[OF I live, where i = i and w = "cas_new op l"
            and p = "InDropR (DrRead (cas_new op l))"])
        (use dr_unset in \<open>auto intro!: pushed_cas exI[of _ "top s"] simp: word_state\<close>)
  next
    case (dr_drop i)
    show ?thesis
      by (rule push_excl[OF I live, where i = i and w = 10 and p = Gone])
        (use dr_drop in \<open>auto intro!: pushed_cas\<close>)
  next
    case (dr_closed_acq i)
    show ?thesis
      by (rule push_excl[OF I live, where i = i and w = 2 and p = "InDropR (DrDropWaker 2)"])
        (use dr_closed_acq in \<open>auto intro!: pushed_cas\<close>)
  next
    case (dr_set i l)
    show ?thesis
      by (rule push_excl[OF I live, where i = i and w = 10 and p = Gone])
        (use dr_set in \<open>auto intro!: pushed_cas\<close>)
  qed
qed

section \<open>Moves between two exchanges\<close>

lemma ctl_seen: "ctl_inv f s \<Longrightarrow> seen s a \<le> top s" "ctl_inv f s \<Longrightarrow> own_seen s \<le> top s"
  by (simp_all add: ctl_inv_def seen_inv_def)

text \<open>
  What a move must establish, for either side: the thread \<open>a\<close> goes to \<open>p\<close> having seen
  message \<open>k\<close>, and the word, the allocation and the other threads are unchanged.
\<close>

definition moved :: "agent \<Rightarrow> nat \<Rightarrow> ('v, 'w) pc \<Rightarrow> ('v, 'w) chan \<Rightarrow> ('v, 'w) chan \<Rightarrow> bool" where
  "moved a k p s t \<longleftrightarrow> mval t = mval s \<and> top t = top s \<and> freed t = freed s
     \<and> pc t = (pc s)(a := p) \<and> seen t = (seen s)(a := k) \<and> own_seen t = own_seen s"

lemma moved_snd:
  assumes I: "ctl_inv f s" and m: "moved a k p s t" and k: "k \<le> top s" and a: "a = Snd"
    and p: "know (mval s) (top s) k p" "snd_pc p" "presend p \<Longrightarrow> presend (pc s a)"
      "p \<noteq> Gone" "pc s a \<noteq> Gone"
  shows "ctl_inv f t"
  by (rule ctl_move_snd[OF I, where p = p and k = k])
    (use m k a p ctl_seen[OF I] in \<open>auto simp: moved_def\<close>)

lemma moved_rcv:
  assumes I: "ctl_inv f s" and m: "moved a k p s t" and k: "k \<le> top s" and a: "a \<noteq> Snd"
    and p: "know (mval s) (top s) k p" "rcv_pc p" "async_pc p \<Longrightarrow> f_async f"
    and act: "p \<noteq> Gone" "pc s a \<noteq> Gone" "pc s a \<noteq> Idle" "excl p \<Longrightarrow> excl (pc s a)"
    and own: "latest s = 28 \<Longrightarrow> polls (pc s a) \<Longrightarrow> polls p"
      "latest s = 4 \<Longrightarrow> waits (pc s a) \<Longrightarrow> seen s a = top s \<Longrightarrow> waits p \<and> k = top s"
  shows "ctl_inv f t"
proof -
  from a obtain i where i: "a = Rcv i" by (cases a) auto
  show ?thesis
    by (rule ctl_move_rcv[OF I, where p = p and k = k and i = i])
      (use m k p act own i ctl_seen[OF I] in \<open>auto simp: moved_def\<close>)
qed

subsection \<open>Loads and failed exchanges\<close>

lemma moved_load:
  "moved a k (nxt f (pc s a) r) s (adv f a r (load_relaxed a k s))"
  "moved a k (nxt f (pc s a) r) s (adv f a r (load_acquire a k s))"
  by (simp_all add: moved_def adv_def goto_def load_relaxed_def load_acquire_def touch_def)

lemma recv_loop_async: "\<not> async_pc (recv_loop f c)"
  by (simp add: recv_loop_def)

lemma drop_loop_async: "\<not> async_pc (drop_receiver_loop f c)" "\<not> async_pc (drop_receiver_tail f c)"
  by (simp_all add: loop_defs)

lemma recv_loop_waits:
  assumes "ctl_inv f s" and "can_read a k s" and "latest s = 4" and "seen s a = top s"
  shows "k = top s" and "waits (recv_loop f (mval s k))"
proof -
  show "k = top s" using assms by (simp add: can_read_def)
  then show "waits (recv_loop f (mval s k))" using assms(3) by (simp add: recv_loop_4)
qed

lemma ctl_snd_pc:
  assumes "ctl_inv f s"
  shows "rcv_pc (pc s a) \<or> a = Snd" and "snd_pc (pc s a) \<or> a \<noteq> Snd"
  using assms by (cases a; simp add: ctl_inv_def side_inv_def)+

lemma ctl_load:
  assumes I: "ctl_inv f s" and ins: "instr f (pc s a) = ILoad" and r: "can_read a k s"
  shows "ctl_inv f (adv f a (Loaded (mval s k)) (load_relaxed a k s))" (is "ctl_inv f ?t")
proof -
  note rd = ctl_read[OF I r] and kl = know_loops[OF I r] and side = ctl_snd_pc[OF I, of a]
  note m = moved_load(1)[of a k f s "Loaded (mval s k)"]
  note mv = moved_snd[OF I m rd(4)] moved_rcv[OF I m rd(4)]
  from ins show ?thesis
  proof (cases rule: instr_ILoad)
    case (1 v)
    have "mval s k \<in> {2, 10} \<Longrightarrow> latest s \<in> {2, 10}" using rd(2) by (auto simp: evolves_def)
    moreover have "is_closed (mval s k) \<Longrightarrow> mval s k \<in> {2, 10}"
      using rd(1) ctl_presend[OF I _ rd(4)] 1 side by (auto simp: word_state elim!: words_cases)
    ultimately show ?thesis
      by (intro mv(1)) (use 1 side in auto)
  next
    case 2
    show ?thesis by (rule mv(1)) (use 2 kl(3) side in \<open>auto simp: loop_kinds\<close>)
  next
    case 3
    show ?thesis by (rule mv(2)) (use 3 kl(1) side in \<open>auto simp: loop_kinds recv_loop_async\<close>)
  next
    case 4
    show ?thesis by (rule mv(2))
        (use 4 kl(1) side recv_loop_waits[OF I r] in \<open>auto simp: loop_kinds recv_loop_async\<close>)
  next
    case (5 w)
    show ?thesis by (rule mv(2))
        (use 5 kl(2) side ctl_async[OF I, of a] in \<open>auto simp: loop_kinds\<close>)
  next
    case 6
    show ?thesis by (rule mv(2)) (use 6 kl(4) side in \<open>auto simp: loop_kinds drop_loop_async\<close>)
  qed
qed

lemma ctl_acquire:
  assumes I: "ctl_inv f s" and ins: "instr f (pc s a) = IAcquire" and r: "can_read a k s"
  shows "ctl_inv f (adv f a (Loaded (mval s k)) (load_acquire a k s))" (is "ctl_inv f ?t")
proof -
  note rd = ctl_read[OF I r] and side = ctl_snd_pc[OF I, of a] and kn = ctl_know[OF I, of a]
  note m = moved_load(2)[of a k f s "Loaded (mval s k)"]
  note mv = moved_snd[OF I m rd(4)] moved_rcv[OF I m rd(4)]
  from ins show ?thesis
  proof (cases rule: instr_IAcquire)
    case 1
    show ?thesis by (rule mv(1)) (use 1 side in auto)
  next
    case 2
    show ?thesis by (rule mv(1)) (use 2 side kn in auto)
  next
    case 3
    show ?thesis by (rule mv(2)) (use 3 side kn in auto)
  qed
qed

lemma polling_newer:
  assumes "polling (mval s) (top s) (seen s a) c" and "can_read a k s" and "mval s k \<noteq> 28"
  shows "mval s k \<in> {1, 10, 11}" and "latest s \<noteq> 28"
proof -
  have lt: "seen s a < k" "k \<le> top s"
    using assms by (auto simp: polling_def can_read_def order_le_less)
  then show "mval s k \<in> {1, 10, 11}" using assms(1) by (auto simp: polling_def)
  from lt have "latest s \<in> {1, 10, 11}" using assms(1) by (auto simp: polling_def)
  then show "latest s \<noteq> 28" by auto
qed

lemma ctl_cas_fail:
  assumes I: "ctl_inv f s" and ins: "instr f (pc s a) = ICas op cur" and r: "can_read a k s"
    and wk: "weak op \<or> mval s k \<noteq> cur"
  shows "ctl_inv f (adv f a (CasFail (mval s k)) (load_relaxed a k s))" (is "ctl_inv f ?t")
proof -
  note rd = ctl_read[OF I r] and kl = know_loops[OF I r]
  note side = ctl_snd_pc[OF I, of a] and kn = ctl_know[OF I, of a]
  note m = moved_load(1)[of a k f s "CasFail (mval s k)"]
  note mv = moved_snd[OF I m rd(4)] moved_rcv[OF I m rd(4)]
  note loops = loop_kinds recv_loop_async drop_loop_async
  from ins show ?thesis
  proof (cases rule: instr_ICas)
    case send
    have "mval s k \<in> {2, 10} \<Longrightarrow> latest s \<in> {2, 10}" using rd(2) by (auto simp: evolves_def)
    moreover have "is_closed (mval s k) \<Longrightarrow> mval s k \<in> {2, 10}"
      using rd(1) ctl_presend[OF I _ rd(4)] send side by (auto simp: word_state elim!: words_cases)
    ultimately show ?thesis
      by (intro mv(1)) (use send side in auto)
  next
    case ds_drop
    show ?thesis by (rule mv(1)) (use ds_drop kl(3) side in \<open>auto simp: loops\<close>)
  next
    case ds_closed_drop
    show ?thesis by (rule mv(1)) (use ds_closed_drop kl(3) side in \<open>auto simp: loops\<close>)
  next
    case ds_closed_acq
    show ?thesis by (rule mv(1)) (use ds_closed_acq kl(3) side in \<open>auto simp: loops\<close>)
  next
    case ds_closed_wake
    show ?thesis by (rule mv(1)) (use ds_closed_wake kl(3) side in \<open>auto simp: loops\<close>)
  next
    case ds_set
    show ?thesis by (rule mv(1)) (use ds_set kl(3) side in \<open>auto simp: loops\<close>)
  next
    case rc_take
    show ?thesis by (rule mv(2)) (use rc_take kl(1) side in \<open>auto simp: loops\<close>)
  next
    case rc_unpend
    show ?thesis by (rule mv(2)) (use rc_unpend kl(1) side in \<open>auto simp: loops\<close>)
  next
    case rc_wait
    show ?thesis by (rule mv(2)) (use rc_wait kl(1) side in \<open>auto simp: loops\<close>)
  next
    case (po_take w)
    show ?thesis by (rule mv(2)) (use po_take kl(2) side ctl_async[OF I, of a] in \<open>auto simp: loops\<close>)
  next
    case (po_wakeless w)
    show ?thesis by (rule mv(2)) (use po_wakeless kl(2) side ctl_async[OF I, of a] in \<open>auto simp: loops\<close>)
  next
    case (po_set w)
    show ?thesis by (rule mv(2)) (use po_set kl(2) side ctl_async[OF I, of a] in \<open>auto simp: loops\<close>)
  next
    case (po_unset w)
    have pg: "polling (mval s) (top s) (seen s a) cur" using po_unset kn by simp
    moreover have "mval s k \<noteq> 28" using wk po_unset pg by (auto simp: word_state polling_def)
    ultimately show ?thesis
      by (intro mv(2)) (use po_unset side polling_newer[OF pg r] ctl_async[OF I, of a] in auto)
  next
    case dr_unset
    show ?thesis by (rule mv(2)) (use dr_unset kl(4) side in \<open>auto simp: loops\<close>)
  next
    case dr_drop
    show ?thesis by (rule mv(2)) (use dr_drop kl(4) side in \<open>auto simp: loops\<close>)
  next
    case dr_closed_acq
    show ?thesis by (rule mv(2)) (use dr_closed_acq kl(4) side in \<open>auto simp: loops\<close>)
  next
    case dr_set
    show ?thesis by (rule mv(2)) (use dr_set kl(4) side in \<open>auto simp: loops\<close>)
  qed
qed

subsection \<open>Cells, blocking and deallocation\<close>

text \<open>An access to a cell leaves the word, the allocation and the seen messages alone.\<close>

lemma moved_cell:
  assumes "mval t = mval s" and "top t = top s" and "freed t = freed s" and "seen t = seen s"
    and "pc t = pc s" and "own_seen t = own_seen s"
  shows "moved a (seen s a) (nxt f (pc s a) r) s (adv f a r t)"
  using assms by (simp add: moved_def adv_def goto_def)

lemma cell_frame [step_simps]:
  "mval (access a x s) = mval s" "top (access a x s) = top s" "freed (access a x s) = freed s"
  "seen (access a x s) = seen s"
  "mval (touch a s) = mval s" "top (touch a s) = top s" "freed (touch a s) = freed s"
  "seen (touch a s) = seen s"
  "mval (write_data a v s) = mval s" "top (write_data a v s) = top s"
  "freed (write_data a v s) = freed s" "seen (write_data a v s) = seen s"
  "mval (read_data a s) = mval s" "top (read_data a s) = top s"
  "freed (read_data a s) = freed s" "seen (read_data a s) = seen s"
  "mval (take_waker a s) = mval s" "top (take_waker a s) = top s"
  "freed (take_waker a s) = freed s" "seen (take_waker a s) = seen s"
  "mval (write_waker a w s) = mval s" "top (write_waker a w s) = top s"
  "freed (write_waker a w s) = freed s" "seen (write_waker a w s) = seen s"
  "mval (update_waker ww a w s) = mval s" "top (update_waker ww a w s) = top s"
  "freed (update_waker ww a w s) = freed s" "seen (update_waker ww a w s) = seen s"
  by (simp_all add: mem_op_defs Let_def split: option.split)

lemma cell_frame_chan [step_simps]:
  "pc (access a x s) = pc s" "own_seen (access a x s) = own_seen s"
  "pc (touch a s) = pc s" "own_seen (touch a s) = own_seen s"
  "pc (write_data a v s) = pc s" "own_seen (write_data a v s) = own_seen s"
  "pc (read_data a s) = pc s" "own_seen (read_data a s) = own_seen s"
  "pc (take_waker a s) = pc s" "own_seen (take_waker a s) = own_seen s"
  "pc (write_waker a w s) = pc s" "own_seen (write_waker a w s) = own_seen s"
  "pc (update_waker ww a w s) = pc s" "own_seen (update_waker ww a w s) = own_seen s"
  by (simp_all add: mem_op_defs Let_def split: option.split)

lemma log_frame [step_simps]:
  "mval (log_lost a s) = mval s" "top (log_lost a s) = top s" "freed (log_lost a s) = freed s"
  "seen (log_lost a s) = seen s" "pc (log_lost a s) = pc s" "own_seen (log_lost a s) = own_seen s"
  "mval (log_woken s) = mval s" "top (log_woken s) = top s" "freed (log_woken s) = freed s"
  "seen (log_woken s) = seen s" "pc (log_woken s) = pc s" "own_seen (log_woken s) = own_seen s"
  by (simp_all add: log_lost_def log_woken_def split: pc.split)

lemma ctl_cell_snd:
  assumes I: "ctl_inv f s" and act: "instr f (pc s Snd) \<noteq> INone"
    and fr: "mval t = mval s" "top t = top s" "freed t = freed s" "seen t = seen s" "pc t = pc s"
      "own_seen t = own_seen s"
    and p: "nxt f (pc s Snd) r = p" "know (mval s) (top s) (seen s Snd) p" "snd_pc p"
      "presend p \<Longrightarrow> presend (pc s Snd)" "p \<noteq> Gone"
  shows "ctl_inv f (adv f Snd r t)"
  by (rule moved_snd[OF I moved_cell[OF fr] ctl_seen(1)[OF I]]) (use p act in auto)

lemma ctl_cell_rcv:
  assumes I: "ctl_inv f s" and a: "a \<noteq> Snd" and act: "instr f (pc s a) \<noteq> INone"
    and fr: "mval t = mval s" "top t = top s" "freed t = freed s" "seen t = seen s" "pc t = pc s"
      "own_seen t = own_seen s"
    and p: "nxt f (pc s a) r = p" "know (mval s) (top s) (seen s a) p" "rcv_pc p" "p \<noteq> Gone"
      "async_pc p \<Longrightarrow> async_pc (pc s a)" "excl p \<Longrightarrow> excl (pc s a)"
      "polls (pc s a) \<Longrightarrow> polls p" "waits (pc s a) \<Longrightarrow> waits p"
  shows "ctl_inv f (adv f a r t)"
  by (rule moved_rcv[OF I moved_cell[OF fr] ctl_seen(1)[OF I] a])
    (use p act I in \<open>auto simp: ctl_inv_def side_inv_def\<close>)

lemma side_snd: "ctl_inv f s \<Longrightarrow> \<not> rcv_pc (pc s a) \<Longrightarrow> a = Snd"
  and side_rcv: "ctl_inv f s \<Longrightarrow> \<not> snd_pc (pc s a) \<Longrightarrow> a \<noteq> Snd"
  using ctl_snd_pc by blast+

lemma ctl_data_cells:
  assumes I: "ctl_inv f s"
  shows "instr f (pc s a) = IWriteData v \<Longrightarrow> ctl_inv f (adv f a Done (write_data a v s))"
    and "instr f (pc s a) = IReadData \<Longrightarrow> ctl_inv f (adv f a (Got (data s)) (read_data a (log_lost a s)))"
proof -
  note kn = ctl_know[OF I, of a]
  note snd = ctl_cell_snd[OF I] and rcv = ctl_cell_rcv[OF I]
  show "ctl_inv f (adv f a Done (write_data a v s))" if ins: "instr f (pc s a) = IWriteData v"
  proof -
    obtain cur where p: "pc s a = InSend (SendWrite v cur)" using instr_data(1)[OF ins] by blast
    then have "a = Snd" using side_snd[OF I, of a] by simp
    with p kn show ?thesis by (intro snd[where p = "InSend (SendCas cur)", folded \<open>a = Snd\<close>]) (auto simp: step_simps)
  qed
  show "ctl_inv f (adv f a (Got (data s)) (read_data a (log_lost a s)))"
    if ins: "instr f (pc s a) = IReadData"
    using instr_data(2)[OF ins]
  proof (elim disjE exE)
    assume p: "pc s a = InSend SendReadBack"
    then have "a = Snd" using side_snd[OF I, of a] by simp
    with p kn show ?thesis
      by (intro snd[where p = "Ret (SendErr (data s))", folded \<open>a = Snd\<close>]) (auto simp: step_simps)
  next
    assume p: "pc s a = InRecv RcRead"
    then show ?thesis using side_rcv[OF I, of a]
      by (intro rcv[where p = "Ret (RecvRet (data s))"]) (auto simp: step_simps)
  next
    assume p: "pc s a = InPoll PoRead"
    then show ?thesis using side_rcv[OF I, of a]
      by (intro rcv[where p = "Ret (PollReady (data s))"]) (auto simp: step_simps)
  next
    fix c assume p: "pc s a = InDropR (DrRead c)"
    then show ?thesis using side_rcv[OF I, of a] kn
      by (intro rcv[where p = "drop_receiver_tail f c"])
        (auto simp: step_simps loop_kinds drop_loop_async drop_receiver_tail_def word_state)
  qed
qed

lemma ctl_waker_cells:
  assumes I: "ctl_inv f s"
  shows "instr f (pc s a) = IWakeWaker \<Longrightarrow> ctl_inv f (adv f a Done (take_waker a (log_woken s)))"
    and "instr f (pc s a) = IDropWaker \<Longrightarrow> ctl_inv f (adv f a Done (take_waker a s))"
    and "instr f (pc s a) = IWriteWaker w \<Longrightarrow> ctl_inv f (adv f a Done (write_waker a w s))"
    and "instr f (pc s a) = IUpdateWaker w \<Longrightarrow> ctl_inv f (adv f a Done (update_waker ww a w s))"
proof -
  note kn = ctl_know[OF I, of a]
  note snd = ctl_cell_snd[OF I] and rcv = ctl_cell_rcv[OF I]
  show "ctl_inv f (adv f a Done (take_waker a (log_woken s)))" if "instr f (pc s a) = IWakeWaker"
    using instr_waker(1)[OF that]
  proof (elim disjE exE)
    assume p: "pc s a = InSend SendWake"
    then have "a = Snd" using side_snd[OF I, of a] by simp
    with p show ?thesis by (intro snd[where p = "Ret SendOk", folded \<open>a = Snd\<close>]) (auto simp: step_simps)
  next
    fix c assume p: "pc s a = InDropS (DsWake c)"
    then have "a = Snd" using side_snd[OF I, of a] by simp
    with p kn show ?thesis
      by (intro snd[where p = "InDropS (DsSetDropping c)", folded \<open>a = Snd\<close>]) (auto simp: step_simps)
  qed
  show "ctl_inv f (adv f a Done (take_waker a s))" if "instr f (pc s a) = IDropWaker"
    using instr_waker(2)[OF that]
  proof (elim disjE exE)
    fix c assume p: "pc s a = InRecv (RcDropWaker c)"
    then show ?thesis using side_rcv[OF I, of a] kn
      by (intro rcv[where p = "InRecv (RcWait c)"]) (auto simp: step_simps)
  next
    fix w c assume p: "pc s a = InPoll (PoDropWaker w c)"
    have "know (mval s) (top s) (seen s a) (poll_loop w (mval s (seen s a)))"
      using ctl_seen(1)[OF I, of a] by (intro know_loops(2)[OF I, of a]) (simp add: can_read_def)
    then show ?thesis using p side_rcv[OF I, of a] kn
      by (intro rcv[where p = "poll_loop w c"]) (auto simp: step_simps loop_kinds)
  next
    fix c assume p: "pc s a = InDropR (DrDropWaker c)"
    then show ?thesis using side_rcv[OF I, of a] kn
      by (intro rcv[where p = "InDropR (DrSetDropping c)"]) (auto simp: step_simps)
  qed
  show "ctl_inv f (adv f a Done (write_waker a w s))" if ins: "instr f (pc s a) = IWriteWaker w"
  proof -
    obtain c where p: "pc s a = InPoll (PoWrite w c)" using instr_waker(3)[OF ins] by blast
    then show ?thesis using side_rcv[OF I, of a] kn
      by (intro rcv[where p = "InPoll (PoUnset w c)"]) (auto simp: step_simps)
  qed
  show "ctl_inv f (adv f a Done (update_waker ww a w s))" if ins: "instr f (pc s a) = IUpdateWaker w"
  proof -
    obtain c where p: "pc s a = InPoll (PoUpdate w c)" using instr_waker(4)[OF ins] by blast
    then show ?thesis using side_rcv[OF I, of a] kn
      by (intro rcv[where p = "InPoll (PoUnset w c)"]) (auto simp: step_simps)
  qed
qed

lemma ctl_wait:
  assumes I: "ctl_inv f s"
  shows "instr f (pc s a) = IWait cur \<Longrightarrow> can_read a k s \<Longrightarrow>
      ctl_inv f (adv f a (Loaded (mval s k)) (load_relaxed a k s))"
    and "instr f (pc s a) = IWait cur \<Longrightarrow> ctl_inv f (adv f a Done (touch a s))"
    and "instr f (pc s a) = IWait cur \<Longrightarrow> ctl_inv f (goto a (InRecv RcParked) (touch a s))"
    and "instr f (pc s a) = IParked \<Longrightarrow> ctl_inv f (adv f a Done s)"
proof -
  note kn = ctl_know[OF I, of a] and rcv = ctl_cell_rcv[OF I]
  show "ctl_inv f (adv f a (Loaded (mval s k)) (load_relaxed a k s))"
    if ins: "instr f (pc s a) = IWait cur" and r: "can_read a k s"
  proof -
    note p = instr_block(1)[OF ins]
    note m = moved_load(1)[of a k f s "Loaded (mval s k)"]
    have [simp]: "latest s = 4 \<Longrightarrow> seen s a = top s \<Longrightarrow> k = top s"
      using r by (auto simp: can_read_def)
    show ?thesis
      by (rule moved_rcv[OF I m ctl_read(4)[OF I r]])
        (use p kn side_rcv[OF I, of a] know_loops(1)[OF I r] recv_loop_waits[OF I r] in
          \<open>auto simp: loop_kinds recv_loop_async split: if_splits\<close>)
  qed
  show "ctl_inv f (adv f a Done (touch a s))" if ins: "instr f (pc s a) = IWait cur"
    using instr_block(1)[OF ins] side_rcv[OF I, of a]
    by (intro rcv[where p = "InRecv RcReload"]) (auto simp: step_simps)
  show "ctl_inv f (goto a (InRecv RcParked) (touch a s))" if ins: "instr f (pc s a) = IWait cur"
    using instr_block(1)[OF ins] side_rcv[OF I, of a] I ctl_seen(1)[OF I, of a]
    by (intro moved_rcv[where a = a and k = "seen s a" and p = "InRecv RcParked", OF I])
      (auto simp: moved_def goto_def step_simps)
  show "ctl_inv f (adv f a Done s)" if ins: "instr f (pc s a) = IParked"
    using instr_block(2)[OF ins] side_rcv[OF I, of a]
    by (intro rcv[where p = "InRecv RcReload"]) auto
qed

text \<open>Waking the parked threads moves each of them to its reload.\<close>

lemma ctl_unpark:
  assumes I: "ctl_inv f s"
  shows "ctl_inv f (unpark_all s)"
proof -
  have eq: "pc (unpark_all s) a = (if pc s a = InRecv RcParked then InRecv RcReload else pc s a)" for a
    by (simp add: unpark_all_def)
  have fr: "mval (unpark_all s) = mval s" "top (unpark_all s) = top s" "seen (unpark_all s) = seen s"
    "freed (unpark_all s) = freed s" "own_seen (unpark_all s) = own_seen s"
    by (simp_all add: unpark_all_def)
  have snd: "pc (unpark_all s) Snd = pc s Snd"
    using I eq by (auto simp: ctl_inv_def side_inv_def)
  have g: "pc (unpark_all s) a = Gone \<longleftrightarrow> pc s a = Gone"
    "excl (pc (unpark_all s) a) \<longleftrightarrow> excl (pc s a)" "polls (pc (unpark_all s) a) \<longleftrightarrow> polls (pc s a)"
    "waits (pc (unpark_all s) a) \<longleftrightarrow> waits (pc s a)" "rcv_pc (pc (unpark_all s) a) \<longleftrightarrow> rcv_pc (pc s a)"
    "async_pc (pc (unpark_all s) a) \<longleftrightarrow> async_pc (pc s a)"
    "pc (unpark_all s) a = Idle \<longleftrightarrow> pc s a = Idle"
    "know mv tp sn (pc s a) \<Longrightarrow> know mv tp sn (pc (unpark_all s) a)" for a mv tp sn
    by (auto simp: eq)
  have "side_inv f (unpark_all s)" "know_inv (unpark_all s)" "excl_inv (unpark_all s)"
    "owner_inv (unpark_all s)"
    using I unfolding ctl_inv_def side_inv_def know_inv_def excl_inv_def owner_inv_def
    by (simp_all add: g fr snd)
  moreover have "hist_inv f (unpark_all s)" "seen_inv (unpark_all s)" "virgin_inv (unpark_all s)"
    "fin_inv (unpark_all s)"
    using I unfolding ctl_inv_def hist_inv_def seen_inv_def virgin_inv_def fin_inv_def
    by (simp_all add: g fr snd)
  ultimately show ?thesis by (simp add: ctl_inv_def)
qed

lemma ctl_wake_all:
  assumes I: "ctl_inv f s" and ins: "instr f (pc s a) = IWakeAll"
  shows "ctl_inv f (unpark_all (adv f a Done (touch a s)))"
proof (rule ctl_unpark)
  note kn = ctl_know[OF I, of a] and snd = ctl_cell_snd[OF I]
  from instr_block(3)[OF ins] show "ctl_inv f (adv f a Done (touch a s))"
  proof (elim disjE exE)
    assume p: "pc s a = InSend SendWakeAll"
    then have "a = Snd" using side_snd[OF I, of a] by simp
    with p show ?thesis by (intro snd[where p = "Ret SendOk", folded \<open>a = Snd\<close>]) (auto simp: step_simps)
  next
    fix c assume p: "pc s a = InDropS (DsWakeAll c)"
    then have "a = Snd" using side_snd[OF I, of a] by simp
    with p kn show ?thesis
      by (intro snd[where p = "InDropS (DsSetDropping c)", folded \<open>a = Snd\<close>]) (auto simp: step_simps)
  qed
qed

text \<open>The last handle frees the memory; the other one is already gone.\<close>

lemma dealloc_other_gone:
  assumes I: "ctl_inv f s" and ins: "instr f (pc s a) = IDealloc"
  shows "a = Snd \<Longrightarrow> \<exists>i. pc s (Rcv i) = Gone" and "a \<noteq> Snd \<Longrightarrow> pc s Snd = Gone" and "latest s = 10"
proof -
  note kn = ctl_know[OF I, of a]
  from instr_block(4)[OF ins] kn show l: "latest s = 10" by auto
  from instr_block(4)[OF ins] show "a = Snd \<Longrightarrow> \<exists>i. pc s (Rcv i) = Gone"
    using ctl_fin(2)[OF I] l by auto
  show "pc s Snd = Gone" if "a \<noteq> Snd"
  proof -
    from that obtain i where i: "a = Rcv i" by (cases a) auto
    with instr_block(4)[OF ins] have "pc s (Rcv i) = InDropR DrDealloc"
      using side_snd[OF I, of a] by auto
    then show ?thesis by (intro ctl_fin_rcv[OF I l, of i]) auto
  qed
qed

lemma ctl_dealloc:
  assumes I: "ctl_inv f s" and ins: "instr f (pc s a) = IDealloc"
  shows "ctl_inv f (adv f a Done (dealloc a s))" (is "ctl_inv f ?t")
proof -
  have nx: "nxt f (pc s a) Done = Gone" using instr_block(4)[OF ins] by auto
  have fr: "mval ?t = mval s" "top ?t = top s" "seen ?t = seen s" "freed ?t = True"
    "own_seen ?t = own_seen s" "pc ?t = (pc s)(a := Gone)"
    using nx by (simp_all add: adv_def goto_def dealloc_def touch_def)
  note og = dealloc_other_gone[OF I ins]
  have np: "\<not> polls (pc s a)" "\<not> waits (pc s a)" "excl (pc s a) \<or> a = Snd"
    using instr_block(4)[OF ins] side_snd[OF I, of a] by auto
  have "hist_inv f ?t" "seen_inv ?t" "side_inv f ?t" "know_inv ?t" "virgin_inv ?t"
    using I og(3) unfolding ctl_inv_def hist_inv_def seen_inv_def side_inv_def know_inv_def virgin_inv_def
    by (auto simp: fr)
  moreover have "excl_inv ?t"
    unfolding excl_inv_def
  proof (intro allI impI)
    fix i j assume "excl (pc ?t (Rcv i))" "j \<noteq> i"
    then show "pc ?t (Rcv j) = Idle"
      using ctl_excl[OF I, of i j] np(3) og(1) ctl_excl[OF I, of i] fr(6)
      by (cases "a = Rcv i"; cases "a = Rcv j") (auto dest: ctl_excl[OF I])
  qed
  moreover have "owner_inv ?t" using og(3) by (simp add: owner_inv_def fr)
  moreover have "fin_inv ?t"
    unfolding fin_inv_def fr using og by (cases a) auto
  ultimately show ?thesis by (simp add: ctl_inv_def)
qed

section \<open>Calls and returns\<close>

lemma ctl_calls:
  assumes I: "ctl_inv f s"
  shows "pc s Snd = Idle \<Longrightarrow> ctl_inv f (goto Snd (InSend (SendLoad v)) (s\<lparr>sent := Some v\<rparr>))"
    and "pc s Snd = Idle \<Longrightarrow> ctl_inv f (goto Snd (InDropS DsLoad) s)"
    and "pc s Snd = Ret r \<Longrightarrow> ctl_inv f (goto Snd (InDropS DsLoad) (log_ret Snd r s))"
    and "may_share s \<Longrightarrow> pc s (Rcv i) = Idle \<Longrightarrow> ctl_inv f (goto (Rcv i) (InRecv RcLoad) s)"
    and "f_async f \<Longrightarrow> may_own s \<Longrightarrow>
      ctl_inv f (goto (Rcv i) (InPoll (PoLoad w)) (take_over (Rcv i) s))"
    and "may_own s \<Longrightarrow> ctl_inv f (goto (Rcv i) (InDropR DrLoad) (take_over (Rcv i) s))"
    and "pc s (Rcv i) = Ret r \<Longrightarrow>
      ctl_inv f (goto (Rcv i) Idle (hand_back (Rcv i) (log_ret (Rcv i) r s)))"
proof -
  note sn = ctl_seen[OF I]
  have id: "may_own s \<Longrightarrow> pc s (Rcv i) = Idle" by (simp add: may_own_def)
  show "pc s Snd = Idle \<Longrightarrow> ctl_inv f (goto Snd (InSend (SendLoad v)) (s\<lparr>sent := Some v\<rparr>))"
    by (rule ctl_move_snd[OF I, where k = "seen s Snd"]) (use sn in \<open>auto simp: goto_def\<close>)
  show "pc s Snd = Idle \<Longrightarrow> ctl_inv f (goto Snd (InDropS DsLoad) s)"
    by (rule ctl_move_snd[OF I, where k = "seen s Snd"]) (use sn in \<open>auto simp: goto_def\<close>)
  show "pc s Snd = Ret r \<Longrightarrow> ctl_inv f (goto Snd (InDropS DsLoad) (log_ret Snd r s))"
    by (rule ctl_move_snd[OF I, where k = "seen s Snd"]) (use sn in \<open>auto simp: goto_def log_ret_def\<close>)
  show "may_share s \<Longrightarrow> pc s (Rcv i) = Idle \<Longrightarrow> ctl_inv f (goto (Rcv i) (InRecv RcLoad) s)"
    by (rule ctl_move_rcv[OF I, where k = "seen s (Rcv i)" and i = i]) (use sn in \<open>auto simp: goto_def\<close>)
  show "f_async f \<Longrightarrow> may_own s \<Longrightarrow>
      ctl_inv f (goto (Rcv i) (InPoll (PoLoad w)) (take_over (Rcv i) s))"
    by (rule ctl_move_rcv[OF I, where k = "max (seen s (Rcv i)) (own_seen s)" and i = i])
      (use sn id in \<open>auto simp: goto_def take_over_def\<close>)
  show "may_own s \<Longrightarrow> ctl_inv f (goto (Rcv i) (InDropR DrLoad) (take_over (Rcv i) s))"
    by (rule ctl_move_rcv[OF I, where k = "max (seen s (Rcv i)) (own_seen s)" and i = i])
      (use sn id in \<open>auto simp: goto_def take_over_def\<close>)
  show "pc s (Rcv i) = Ret r \<Longrightarrow>
      ctl_inv f (goto (Rcv i) Idle (hand_back (Rcv i) (log_ret (Rcv i) r s)))"
    by (rule ctl_move_rcv[OF I, where k = "seen s (Rcv i)" and i = i])
      (use sn in \<open>auto simp: goto_def hand_back_def log_ret_def\<close>)
qed

section \<open>Every step\<close>

theorem ctl_step:
  assumes "ctl_inv f s" and "chan_step f mb ww s t"
  shows "ctl_inv f t"
  using assms(2,1)
proof cases
  case (cas_ok a op cur)
  then show ?thesis using ctl_cas_ok[OF assms(1)] by simp
qed (auto intro: ctl_calls ctl_load ctl_acquire ctl_cas_fail ctl_data_cells ctl_waker_cells
    ctl_wait ctl_wake_all ctl_dealloc assms(1))

end
