(* ===== verification/OneshotRace.thy ===== *)
theory OneshotRace
  imports OneshotStep
begin

text \<open>
  Ownership of the cells \<^verbatim>\<open>data\<close> and \<^verbatim>\<open>waker\<close> and of the allocation. At any time a cell
  belongs to one thread, to the status word, or to nobody; its owner's view (or the view
  of the newest message) holds every earlier access to it. So no access races, no
  uninitialised cell is read, and the memory is freed once, after every other access.
\<close>

section \<open>The invariant\<close>

fun prewrite :: "('v, 'w) pc \<Rightarrow> bool" where
  "prewrite Idle = True"
| "prewrite (InSend (SendLoad _)) = True"
| "prewrite (InSend (SendWrite _ _)) = True"
| "prewrite _ = False"

fun holds_data :: "('v, 'w) pc \<Rightarrow> bool" where
  "holds_data (InSend (SendCas _)) = True"
| "holds_data (InSend SendReadBack) = True"
| "holds_data (InRecv RcRead) = True"
| "holds_data (InPoll PoRead) = True"
| "holds_data (InDropR (DrRead _)) = True"
| "holds_data _ = False"

fun writes_waker :: "('v, 'w) pc \<Rightarrow> bool" where
  "writes_waker (InPoll (PoWrite _ _)) = True"
| "writes_waker _ = False"

fun holds_waker :: "('v, 'w) pc \<Rightarrow> bool" where
  "holds_waker (InSend SendAcq) = True"
| "holds_waker (InSend SendWake) = True"
| "holds_waker (InDropS (DsWake _)) = True"
| "holds_waker (InRecv (RcDropWaker _)) = True"
| "holds_waker (InPoll (PoUpdate _ _)) = True"
| "holds_waker (InPoll (PoWrite _ _)) = True"
| "holds_waker (InPoll (PoUnset _ _)) = True"
| "holds_waker (InPoll (PoDropWaker _ _)) = True"
| "holds_waker (InDropR (DrDropWaker _)) = True"
| "holds_waker _ = False"

definition data_inv :: "('v, 'w) chan \<Rightarrow> bool" where
  "data_inv s \<longleftrightarrow>
     (is_ready (latest s) \<longrightarrow> data s \<noteq> None \<and> accs s Data \<subseteq> mview s (top s)
        \<and> (\<forall>a. \<not> holds_data (pc s a)))
     \<and> (\<forall>a. holds_data (pc s a) \<longrightarrow> data s \<noteq> None \<and> accs s Data \<subseteq> view s a
        \<and> (\<forall>b. b \<noteq> a \<longrightarrow> \<not> holds_data (pc s b)))
     \<and> (prewrite (pc s Snd) \<longrightarrow> data s = None \<and> accs s Data = {})
     \<and> (data s \<noteq> None \<longrightarrow> is_ready (latest s) \<or> (\<exists>a. holds_data (pc s a)))"

text \<open>
  The owner of the waker cell knows every access to it; before its acquire load the sender
  will learn them from any message it can read.
\<close>

definition waker_known :: "agent \<Rightarrow> ('v, 'w) chan \<Rightarrow> bool" where
  "waker_known a s \<longleftrightarrow> (if pc s a = InSend SendAcq
     then \<forall>k. seen s a \<le> k \<longrightarrow> k \<le> top s \<longrightarrow> accs s Waker \<subseteq> mview s k
     else accs s Waker \<subseteq> view s a)"

definition waker_inv :: "('v, 'w) chan \<Rightarrow> bool" where
  "waker_inv s \<longleftrightarrow>
     (latest s = 20 \<longrightarrow> waker s \<noteq> None \<and> accs s Waker \<subseteq> mview s (top s)
        \<and> (\<forall>a. \<not> holds_waker (pc s a)))
     \<and> (\<forall>a. holds_waker (pc s a) \<longrightarrow> (waker s = None \<longleftrightarrow> writes_waker (pc s a))
        \<and> waker_known a s \<and> (\<forall>b. b \<noteq> a \<longrightarrow> \<not> holds_waker (pc s b)))
     \<and> (waker s \<noteq> None \<longrightarrow> latest s = 20 \<or> (\<exists>a. holds_waker (pc s a)))
     \<and> (latest s = 0 \<longrightarrow> (\<exists>i q. pc s (Rcv i) = InDropR q)
        \<or> accs s Waker = {} \<and> waker s = None \<and> (\<forall>a. \<not> holds_waker (pc s a)))"

definition rcv_view :: "('v, 'w) chan \<Rightarrow> nat set" where
  "rcv_view s = (\<Union>i. view s (Rcv i))"

definition event_inv :: "('v, 'w) chan \<Rightarrow> bool" where
  "event_inv s \<longleftrightarrow>
     {..<clock s} \<subseteq> view s Snd \<union> rcv_view s
     \<and> ((\<exists>i. pc s (Rcv i) = Gone) \<longrightarrow> pc s Snd \<noteq> Gone \<longrightarrow> {..<clock s} \<subseteq> view s Snd \<union> mview s (top s))
     \<and> (pc s Snd = Gone \<longrightarrow> (\<forall>i. pc s (Rcv i) \<noteq> Gone) \<longrightarrow> {..<clock s} \<subseteq> mview s (top s) \<union> rcv_view s)
     \<and> (\<forall>i. pc s (Rcv i) = Idle \<longrightarrow> view s (Rcv i) \<subseteq> own_view s)
     \<and> (\<forall>i q. pc s (Rcv i) = InDropR q \<longrightarrow> rcv_view s \<subseteq> view s (Rcv i))
     \<and> (\<forall>a. pc s a \<in> {InDropS DsDealloc, InDropR DrDealloc} \<longrightarrow> {..<clock s} \<subseteq> view s a)"

definition own_inv :: "('v, 'w) chan \<Rightarrow> bool" where
  "own_inv s \<longleftrightarrow> data_inv s \<and> waker_inv s \<and> event_inv s \<and> faults s = []"

lemma own_channel: "own_inv channel"
  by (simp add: own_inv_def data_inv_def waker_inv_def event_inv_def channel_def mem_new_def
      mem.defs word_state)

lemma data_ready:
  assumes "data_inv s" and "is_ready (latest s)"
  shows "data s \<noteq> None" and "accs s Data \<subseteq> mview s (top s)" and "\<not> holds_data (pc s b)"
  using assms unfolding data_inv_def by blast+

lemma data_held:
  assumes "data_inv s" and "holds_data (pc s a)"
  shows "data s \<noteq> None" and "accs s Data \<subseteq> view s a" and "holds_data (pc s b) \<Longrightarrow> b = a"
    and "\<not> is_ready (latest s)"
  using assms unfolding data_inv_def by blast+

lemma data_fresh:
  assumes "data_inv s" and "prewrite (pc s Snd)"
  shows "data s = None" and "accs s Data = {}" and "\<not> holds_data (pc s b)" and "\<not> is_ready (latest s)"
proof -
  show d: "data s = None" "accs s Data = {}" using assms unfolding data_inv_def by simp_all
  show "\<not> holds_data (pc s b)" using data_held(1)[OF assms(1), of b] d by auto
  show "\<not> is_ready (latest s)" using data_ready(1)[OF assms(1)] d by auto
qed

lemma data_owned: "data_inv s \<Longrightarrow> data s \<noteq> None \<Longrightarrow> is_ready (latest s) \<or> (\<exists>a. holds_data (pc s a))"
  by (simp add: data_inv_def)

lemma data_invI:
  assumes "is_ready (latest s) \<Longrightarrow> data s \<noteq> None \<and> accs s Data \<subseteq> mview s (top s) \<and> (\<forall>b. \<not> holds_data (pc s b))"
    and "\<And>a. holds_data (pc s a) \<Longrightarrow> data s \<noteq> None \<and> accs s Data \<subseteq> view s a"
    and "\<And>a b. holds_data (pc s a) \<Longrightarrow> holds_data (pc s b) \<Longrightarrow> b = a"
    and "prewrite (pc s Snd) \<Longrightarrow> data s = None \<and> accs s Data = {}"
    and "data s \<noteq> None \<Longrightarrow> is_ready (latest s) \<or> (\<exists>a. holds_data (pc s a))"
  shows "data_inv s"
  unfolding data_inv_def
proof (intro conjI allI impI)
  show "\<not> holds_data (pc s b)" if "holds_data (pc s a)" "b \<noteq> a" for a b
    using assms(3) that by blast
qed (use assms(1,2,4,5) in blast)+

lemma waker_ready:
  assumes "waker_inv s" and "latest s = 20"
  shows "waker s \<noteq> None" and "accs s Waker \<subseteq> mview s (top s)" and "\<not> holds_waker (pc s b)"
  using assms unfolding waker_inv_def by blast+

lemma waker_held:
  assumes W: "waker_inv s" and h: "holds_waker (pc s a)"
  shows "waker s = None \<longleftrightarrow> writes_waker (pc s a)" and "waker_known a s"
    and "holds_waker (pc s b) \<Longrightarrow> b = a" and "latest s \<noteq> 20"
    and "pc s a \<noteq> InSend SendAcq \<Longrightarrow> accs s Waker \<subseteq> view s a"
proof -
  have all: "\<forall>a. holds_waker (pc s a) \<longrightarrow> (waker s = None \<longleftrightarrow> writes_waker (pc s a))
        \<and> waker_known a s \<and> (\<forall>b. b \<noteq> a \<longrightarrow> \<not> holds_waker (pc s b))"
    using W unfolding waker_inv_def by (elim conjE)
  note a = mp[OF spec[OF all, of a] h]
  show "waker s = None \<longleftrightarrow> writes_waker (pc s a)" "waker_known a s" using a by simp_all
  show "holds_waker (pc s b) \<Longrightarrow> b = a" using a by auto
  show "latest s \<noteq> 20" using W h unfolding waker_inv_def by (elim conjE) auto
  show "pc s a \<noteq> InSend SendAcq \<Longrightarrow> accs s Waker \<subseteq> view s a" using a by (simp add: waker_known_def)
qed

lemma waker_owned: "waker_inv s \<Longrightarrow> waker s \<noteq> None \<Longrightarrow> latest s = 20 \<or> (\<exists>a. holds_waker (pc s a))"
  by (simp add: waker_inv_def)

lemma waker_untouched:
  assumes "waker_inv s" and "latest s = 0" and "\<And>i q. pc s (Rcv i) \<noteq> InDropR q"
  shows "accs s Waker = {}" and "waker s = None" and "\<not> holds_waker (pc s b)"
  using assms unfolding waker_inv_def by blast+

lemma waker_invI:
  assumes "latest s = 20 \<Longrightarrow> waker s \<noteq> None \<and> accs s Waker \<subseteq> mview s (top s) \<and> (\<forall>b. \<not> holds_waker (pc s b))"
    and "\<And>a. holds_waker (pc s a) \<Longrightarrow> (waker s = None \<longleftrightarrow> writes_waker (pc s a)) \<and> waker_known a s"
    and "\<And>a b. holds_waker (pc s a) \<Longrightarrow> holds_waker (pc s b) \<Longrightarrow> b = a"
    and "waker s \<noteq> None \<Longrightarrow> latest s = 20 \<or> (\<exists>a. holds_waker (pc s a))"
    and "latest s = 0 \<Longrightarrow> (\<exists>i q. pc s (Rcv i) = InDropR q)
        \<or> accs s Waker = {} \<and> waker s = None \<and> (\<forall>a. \<not> holds_waker (pc s a))"
  shows "waker_inv s"
  unfolding waker_inv_def
proof (intro conjI allI impI)
  show "\<not> holds_waker (pc s b)" if "holds_waker (pc s a)" "b \<noteq> a" for a b
    using assms(3) that by blast
qed (use assms(1,2,4,5) in blast)+

lemma event_known:
  assumes "event_inv s"
  shows "{..<clock s} \<subseteq> view s Snd \<union> rcv_view s"
    and "pc s (Rcv i) = Gone \<Longrightarrow> pc s Snd \<noteq> Gone \<Longrightarrow> {..<clock s} \<subseteq> view s Snd \<union> mview s (top s)"
    and "pc s Snd = Gone \<Longrightarrow> \<forall>i. pc s (Rcv i) \<noteq> Gone \<Longrightarrow> {..<clock s} \<subseteq> mview s (top s) \<union> rcv_view s"
    and "pc s (Rcv i) = Idle \<Longrightarrow> view s (Rcv i) \<subseteq> own_view s"
    and "pc s (Rcv i) = InDropR q \<Longrightarrow> rcv_view s \<subseteq> view s (Rcv i)"
    and "pc s a \<in> {InDropS DsDealloc, InDropR DrDealloc} \<Longrightarrow> {..<clock s} \<subseteq> view s a"
proof -
  note E = assms[unfolded event_inv_def]
  note E2 = E[THEN conjunct2] and E3 = E[THEN conjunct2, THEN conjunct2]
  note E4 = E3[THEN conjunct2] and E5 = E3[THEN conjunct2, THEN conjunct2]
  show "{..<clock s} \<subseteq> view s Snd \<union> rcv_view s" using E[THEN conjunct1] .
  show "pc s (Rcv i) = Gone \<Longrightarrow> pc s Snd \<noteq> Gone \<Longrightarrow> {..<clock s} \<subseteq> view s Snd \<union> mview s (top s)"
    using E2[THEN conjunct1] by blast
  show "pc s Snd = Gone \<Longrightarrow> \<forall>i. pc s (Rcv i) \<noteq> Gone \<Longrightarrow> {..<clock s} \<subseteq> mview s (top s) \<union> rcv_view s"
    using E3[THEN conjunct1] by blast
  show "pc s (Rcv i) = Idle \<Longrightarrow> view s (Rcv i) \<subseteq> own_view s" using E4[THEN conjunct1] by blast
  show "pc s (Rcv i) = InDropR q \<Longrightarrow> rcv_view s \<subseteq> view s (Rcv i)" using E5[THEN conjunct1] by blast
  show "pc s a \<in> {InDropS DsDealloc, InDropR DrDealloc} \<Longrightarrow> {..<clock s} \<subseteq> view s a"
    using E5[THEN conjunct2] by blast
qed

section \<open>Moves that keep the owner of a cell\<close>

text \<open>Messages are unchanged and views only grow: a load, a wait, a call or a return.\<close>

definition quiet :: "('v, 'w) chan \<Rightarrow> ('v, 'w) chan \<Rightarrow> bool" where
  "quiet s t \<longleftrightarrow> mval t = mval s \<and> mview t = mview s \<and> top t = top s \<and> (\<forall>b. view s b \<subseteq> view t b)"

lemma data_quiet:
  assumes D: "data_inv s" and q: "quiet s t" and c: "accs t Data = accs s Data" "data t = data s"
    and h: "\<And>b. holds_data (pc t b) \<longleftrightarrow> holds_data (pc s b)" and p: "prewrite (pc t Snd) \<Longrightarrow> prewrite (pc s Snd)"
  shows "data_inv t"
proof (rule data_invI)
  have e: "latest t = latest s" "mview t (top t) = mview s (top s)" and v: "view s b \<subseteq> view t b" for b
    using q by (simp_all add: quiet_def)
  show "is_ready (latest t) \<Longrightarrow> data t \<noteq> None \<and> accs t Data \<subseteq> mview t (top t) \<and> (\<forall>b. \<not> holds_data (pc t b))"
    using data_ready[OF D] by (simp add: e c h)
  show "holds_data (pc t a) \<Longrightarrow> data t \<noteq> None \<and> accs t Data \<subseteq> view t a" for a
    using data_held(1,2)[OF D, of a] v[of a] by (auto simp: h c)
  show "holds_data (pc t a) \<Longrightarrow> holds_data (pc t b) \<Longrightarrow> b = a" for a b
    using data_held(3)[OF D] by (simp add: h)
  show "prewrite (pc t Snd) \<Longrightarrow> data t = None \<and> accs t Data = {}"
    using p data_fresh(1,2)[OF D] by (simp add: c)
  show "data t \<noteq> None \<Longrightarrow> is_ready (latest t) \<or> (\<exists>a. holds_data (pc t a))"
    using data_owned[OF D] by (simp add: e c h)
qed

lemma waker_quiet:
  assumes W: "waker_inv s" and q: "quiet s t" and c: "accs t Waker = accs s Waker" "waker t = waker s"
    and h: "\<And>b. holds_waker (pc t b) \<longleftrightarrow> holds_waker (pc s b)"
      "\<And>b. writes_waker (pc t b) \<longleftrightarrow> writes_waker (pc s b)"
    and kn: "\<And>b. holds_waker (pc s b) \<Longrightarrow> waker_known b s \<Longrightarrow> waker_known b t"
    and dr: "\<And>i q. pc s (Rcv i) = InDropR q \<Longrightarrow> latest s = 0 \<Longrightarrow> \<exists>q'. pc t (Rcv i) = InDropR q'"
  shows "waker_inv t"
proof (rule waker_invI)
  have e: "latest t = latest s" "mview t (top t) = mview s (top s)" using q by (simp_all add: quiet_def)
  show "latest t = 20 \<Longrightarrow> waker t \<noteq> None \<and> accs t Waker \<subseteq> mview t (top t) \<and> (\<forall>b. \<not> holds_waker (pc t b))"
    using waker_ready[OF W] by (simp add: e c h)
  show "holds_waker (pc t a) \<Longrightarrow> (waker t = None \<longleftrightarrow> writes_waker (pc t a)) \<and> waker_known a t" for a
    using waker_held(1,2)[OF W, of a] kn[of a] by (simp add: h c)
  show "holds_waker (pc t a) \<Longrightarrow> holds_waker (pc t b) \<Longrightarrow> b = a" for a b
    using waker_held(3)[OF W] by (simp add: h)
  show "waker t \<noteq> None \<Longrightarrow> latest t = 20 \<or> (\<exists>a. holds_waker (pc t a))"
    using waker_owned[OF W] by (simp add: e c h)
  show "latest t = 0 \<Longrightarrow> (\<exists>i q. pc t (Rcv i) = InDropR q)
        \<or> accs t Waker = {} \<and> waker t = None \<and> (\<forall>a. \<not> holds_waker (pc t a))"
    using waker_untouched[OF W] dr unfolding e c h by blast
qed

lemma waker_known_quiet:
  assumes "waker_known b s" and "quiet s t" and "accs t Waker = accs s Waker"
    and "pc t b = InSend SendAcq \<longleftrightarrow> pc s b = InSend SendAcq"
    and "pc s b = InSend SendAcq \<Longrightarrow> seen t b = seen s b"
  shows "waker_known b t"
  using assms by (auto simp: waker_known_def quiet_def split: if_splits)

section \<open>Exchanges\<close>

text \<open>
  What a successful exchange of \<open>a\<close> does to messages and views: \<open>M\<close> is the view of the
  new message, \<open>V\<close> the thread's new view.
\<close>

definition exchanged ::
  "agent \<Rightarrow> u32 \<Rightarrow> nat set \<Rightarrow> nat set \<Rightarrow> ('v, 'w) pc \<Rightarrow> ('v, 'w) chan \<Rightarrow> ('v, 'w) chan \<Rightarrow> bool" where
  "exchanged a w M V p s t \<longleftrightarrow> mval t = (mval s)(Suc (top s) := w) \<and> top t = Suc (top s)
     \<and> mview t = (mview s)(Suc (top s) := M) \<and> mview s (top s) \<subseteq> M
     \<and> view t = (view s)(a := V) \<and> view s a \<subseteq> V \<and> accs t = accs s \<and> data t = data s
     \<and> waker t = waker s \<and> pc t = (pc s)(a := p) \<and> seen t = (seen s)(a := Suc (top s))"

lemma data_exchanged:
  assumes D: "data_inv s" and t: "exchanged a w M V p s t" and "\<not> prewrite p"
    and "(is_ready w \<longleftrightarrow> is_ready (latest s)) \<and> (holds_data p \<longleftrightarrow> holds_data (pc s a))
       \<or> holds_data (pc s a) \<and> \<not> holds_data p \<and> is_ready w \<and> view s a \<subseteq> M
       \<or> is_ready (latest s) \<and> \<not> is_ready w \<and> holds_data p \<and> mview s (top s) \<subseteq> V"
  shows "data_inv t"
proof -
  have e: "accs t = accs s" "data t = data s" "latest t = w" "mview t (top t) = M"
    "\<And>b. view t b = (if b = a then V else view s b)" "\<And>b. pc t b = (if b = a then p else pc s b)"
    and v: "view s a \<subseteq> V" "mview s (top s) \<subseteq> M"
    using t by (auto simp: exchanged_def)
  have pw: "prewrite (pc t Snd) \<Longrightarrow> prewrite (pc s Snd)" using e(6) assms(3) by (auto split: if_splits)
  have pf: "prewrite (pc t Snd) \<Longrightarrow> data t = None \<and> accs t Data = {}"
    using pw data_fresh(1,2)[OF D] by (simp add: e)
  from assms(4) show ?thesis
  proof (elim disjE)
    assume k: "(is_ready w \<longleftrightarrow> is_ready (latest s)) \<and> (holds_data p \<longleftrightarrow> holds_data (pc s a))"
    then have h: "holds_data (pc t b) \<longleftrightarrow> holds_data (pc s b)" for b by (simp add: e(6))
    have vw: "view s b \<subseteq> view t b" for b using v by (simp add: e)
    show ?thesis
    proof (rule data_invI)
      show "is_ready (latest t) \<Longrightarrow> data t \<noteq> None \<and> accs t Data \<subseteq> mview t (top t) \<and> (\<forall>b. \<not> holds_data (pc t b))"
        using data_ready[OF D] k v(2) unfolding h e(1-4) by blast
      show "holds_data (pc t a) \<Longrightarrow> data t \<noteq> None \<and> accs t Data \<subseteq> view t a" for a
        using data_held(1,2)[OF D, of a] vw[of a] unfolding h e(1,2) by blast
      show "holds_data (pc t a) \<Longrightarrow> holds_data (pc t b) \<Longrightarrow> b = a" for a b
        using data_held(3)[OF D] by (simp add: h)
      show "data t \<noteq> None \<Longrightarrow> is_ready (latest t) \<or> (\<exists>a. holds_data (pc t a))"
        using data_owned[OF D] k by (simp add: e(2,3) h)
    qed (rule pf)
  next
    assume g: "holds_data (pc s a) \<and> \<not> holds_data p \<and> is_ready w \<and> view s a \<subseteq> M"
    have h: "\<not> holds_data (pc t b)" for b
      using g data_held(3)[OF D, of a b] by (auto simp: e(6))
    show ?thesis
      by (rule data_invI) (use g h pf data_held(1,2)[OF D, of a] in \<open>auto simp: e(1-4)\<close>)
  next
    assume g: "is_ready (latest s) \<and> \<not> is_ready w \<and> holds_data p \<and> mview s (top s) \<subseteq> V"
    have h: "holds_data (pc t b) \<longleftrightarrow> b = a" for b
      using g data_ready(3)[OF D, of b] by (auto simp: e(6))
    show ?thesis
      by (rule data_invI) (use g h pf data_ready(1,2)[OF D] in \<open>auto simp: e(1-5)\<close>)
  qed
qed

lemma waker_exchanged:
  assumes W: "waker_inv s" and t: "exchanged a w M V p s t" and na: "pc s a \<noteq> InSend SendAcq"
    and sn: "\<And>b. seen s b \<le> top s" and z: "w = 0 \<Longrightarrow> \<exists>i q. pc t (Rcv i) = InDropR q"
    and "latest s \<noteq> 20 \<and> w \<noteq> 20 \<and> p \<noteq> InSend SendAcq
         \<and> (holds_waker p \<longleftrightarrow> holds_waker (pc s a)) \<and> (writes_waker p \<longleftrightarrow> writes_waker (pc s a))
       \<or> holds_waker (pc s a) \<and> \<not> writes_waker (pc s a) \<and> \<not> holds_waker p \<and> w = 20 \<and> view s a \<subseteq> M
       \<or> latest s = 20 \<and> w \<noteq> 20 \<and> holds_waker p \<and> \<not> writes_waker p \<and>
           (p \<noteq> InSend SendAcq \<longrightarrow> mview s (top s) \<subseteq> V)
       \<or> latest s = 0 \<and> w \<noteq> 20 \<and> p \<noteq> InSend SendAcq \<and> holds_waker p \<and> writes_waker p
           \<and> (\<forall>i q. pc s (Rcv i) \<noteq> InDropR q)"
  shows "waker_inv t"
proof -
  have e: "accs t = accs s" "waker t = waker s" "latest t = w" "mview t (top t) = M"
    "\<And>b. view t b = (if b = a then V else view s b)" "\<And>b. pc t b = (if b = a then p else pc s b)"
    and v: "view s a \<subseteq> V" "mview s (top s) \<subseteq> M"
    using t by (auto simp: exchanged_def)
  have kn: "waker_known b t" if "waker_known b s" "b \<noteq> a \<or> p \<noteq> InSend SendAcq" "seen s b \<le> top s" for b
    using that t na unfolding waker_known_def exchanged_def by (auto simp: le_Suc_eq split: if_splits)
  have z': "latest t = 0 \<Longrightarrow> (\<exists>i q. pc t (Rcv i) = InDropR q)
      \<or> accs t Waker = {} \<and> waker t = None \<and> (\<forall>a. \<not> holds_waker (pc t a))"
    using z by (simp add: e(3))
  from assms(6) show ?thesis
  proof (elim disjE)
    assume k: "latest s \<noteq> 20 \<and> w \<noteq> 20 \<and> p \<noteq> InSend SendAcq
         \<and> (holds_waker p \<longleftrightarrow> holds_waker (pc s a)) \<and> (writes_waker p \<longleftrightarrow> writes_waker (pc s a))"
    then have h: "holds_waker (pc t b) \<longleftrightarrow> holds_waker (pc s b)"
      "writes_waker (pc t b) \<longleftrightarrow> writes_waker (pc s b)" for b by (simp_all add: e(6))
    show ?thesis
    proof (rule waker_invI)
      show "holds_waker (pc t b) \<Longrightarrow> (waker t = None \<longleftrightarrow> writes_waker (pc t b)) \<and> waker_known b t" for b
        using waker_held(1,2)[OF W, of b] kn[of b] k by (simp add: h e(2) sn)
      show "holds_waker (pc t a) \<Longrightarrow> holds_waker (pc t b) \<Longrightarrow> b = a" for a b
        using waker_held(3)[OF W] by (simp add: h)
      show "waker t \<noteq> None \<Longrightarrow> latest t = 20 \<or> (\<exists>a. holds_waker (pc t a))"
        using waker_owned[OF W] k by (simp add: e(2,3) h)
    qed (use k z' in \<open>simp_all add: e(3)\<close>)
  next
    assume g: "holds_waker (pc s a) \<and> \<not> writes_waker (pc s a) \<and> \<not> holds_waker p \<and> w = 20 \<and> view s a \<subseteq> M"
    have h: "\<not> holds_waker (pc t b)" for b
      using g waker_held(3)[OF W, of a b] by (auto simp: e(6))
    show ?thesis
      by (rule waker_invI) (use g h waker_held(1,5)[OF W, of a] na in \<open>auto simp: e(1-4)\<close>)
  next
    assume g: "latest s = 20 \<and> w \<noteq> 20 \<and> holds_waker p \<and> \<not> writes_waker p \<and>
           (p \<noteq> InSend SendAcq \<longrightarrow> mview s (top s) \<subseteq> V)"
    have h: "holds_waker (pc t b) \<longleftrightarrow> b = a" for b
      using g waker_ready(3)[OF W, of b] by (auto simp: e(6))
    have "waker_known a t"
      using g waker_ready(2)[OF W] v t unfolding waker_known_def exchanged_def by (auto simp: le_Suc_eq)
    then show ?thesis
      by (intro waker_invI) (use g h z' waker_ready(1)[OF W] in \<open>auto simp: e(2,3,6)\<close>)
  next
    assume g: "latest s = 0 \<and> w \<noteq> 20 \<and> p \<noteq> InSend SendAcq \<and> holds_waker p \<and> writes_waker p
        \<and> (\<forall>i q. pc s (Rcv i) \<noteq> InDropR q)"
    note un = waker_untouched[OF W]
    have h: "holds_waker (pc t b) \<longleftrightarrow> b = a" for b
      using g un(3)[of b] by (auto simp: e(6))
    have "waker_known a t" using g un(1) by (simp add: waker_known_def e)
    then show ?thesis
      by (intro waker_invI) (use g h z' un(2) in \<open>auto simp: e(2,3,6)\<close>)
  qed
qed

section \<open>Events\<close>

text \<open>A thread that can still act does not share the memory with two finished sides.\<close>

lemma acting:
  assumes I: "ctl_inv f s" and ins: "instr f (pc s a) \<noteq> INone"
  shows "a \<noteq> Snd \<Longrightarrow> pc s (Rcv i) \<noteq> Gone"
    and "pc s b \<in> {InDropS DsDealloc, InDropR DrDealloc} \<Longrightarrow> b = a"
    and "b \<noteq> a \<Longrightarrow> pc s b \<noteq> InDropR q \<or> a = Snd"
proof -
  have act: "pc s a \<noteq> Gone" "pc s a \<noteq> Idle" using ins by auto
  show g: "pc s (Rcv i) \<noteq> Gone" if ne: "a \<noteq> Snd" for i
  proof -
    obtain j where "a = Rcv j" using ne by (cases a) auto
    then show ?thesis using act ctl_Gone_excl[OF I, of i j] by (cases "i = j") auto
  qed
  show dr: "pc s b \<noteq> InDropR q \<or> a = Snd" if "b \<noteq> a" for b q
  proof (rule ccontr)
    assume "\<not> ?thesis"
    then have q: "pc s b = InDropR q" and "a \<noteq> Snd" by auto
    then obtain j where j: "a = Rcv j" by (cases a) auto
    have "b \<noteq> Snd" using ctl_side(1)[OF I, of b] q by auto
    then obtain i where i: "b = Rcv i" by (cases b) auto
    show False using ctl_excl[OF I, of i j] q i j that act by auto
  qed
  show "b = a" if d: "pc s b \<in> {InDropS DsDealloc, InDropR DrDealloc}"
  proof (rule ccontr)
    assume ne: "b \<noteq> a"
    have "instr f (pc s b) = IDealloc" using d by auto
    note og = dealloc_other_gone[OF I this]
    show False
    proof (cases "b = Snd")
      case True
      then show ?thesis using og(1) g ne by (cases a) auto
    next
      case False
      then have "a = Snd" using dr[OF ne] d side_snd[OF I, of b] by auto
      then show ?thesis using og(2)[OF False] act by simp
    qed
  qed
qed

lemma event_act:
  assumes I: "ctl_inv f s" and E: "event_inv s" and ins: "instr f (pc s a) \<noteq> INone"
    and cl: "clock t \<le> Suc (clock s)" and v: "view t = (view s)(a := V)"
      "insert (clock s) (view s a) \<subseteq> V"
    and m: "mview s (top s) \<subseteq> mview t (top t)" and o: "own_view t = own_view s"
    and pc: "pc t = (pc s)(a := p)" and p: "p \<noteq> Idle" "p \<noteq> Gone"
      "\<And>q. p = InDropR q \<Longrightarrow> \<exists>q'. pc s a = InDropR q'"
      "p \<in> {InDropS DsDealloc, InDropR DrDealloc} \<Longrightarrow> {..<Suc (clock s)} \<subseteq> V"
  shows "event_inv t"
proof -
  note ac = acting[OF I ins]
  have act: "pc s a \<noteq> Gone" "pc s a \<noteq> Idle" using ins by auto
  have cl': "x < clock t \<Longrightarrow> x < clock s \<or> x \<in> V" for x using cl v(2) by (cases "x = clock s") auto
  have vv: "view s b \<subseteq> view t b" for b using v by auto
  have rv: "rcv_view s \<subseteq> rcv_view t" using vv by (auto simp: rcv_view_def)
  have Va: "V = view t a" using v by simp
  have Vr: "a \<noteq> Snd \<Longrightarrow> V \<subseteq> rcv_view t" using Va by (cases a) (auto simp: rcv_view_def)
  have Vs: "a = Snd \<Longrightarrow> V \<subseteq> view t Snd" using Va by simp
  have g: "pc t (Rcv i) = Gone \<longleftrightarrow> pc s (Rcv i) = Gone" "pc t Snd = Gone \<longleftrightarrow> pc s Snd = Gone" for i
    using pc p(2) act by auto
  have 1: "{..<clock t} \<subseteq> view t Snd \<union> rcv_view t"
  proof
    fix x assume "x \<in> {..<clock t}"
    then consider "x < clock s" | "x \<in> V" using cl' by auto
    then show "x \<in> view t Snd \<union> rcv_view t"
    proof cases
      case 1
      then have "x \<in> view s Snd \<union> rcv_view s" using E by (auto simp: event_inv_def)
      then show ?thesis using vv[of Snd] rv by blast
    next
      case 2
      then show ?thesis using Vr Vs by blast
    qed
  qed
  have 2: "{..<clock t} \<subseteq> view t Snd \<union> mview t (top t)" if "pc t (Rcv i) = Gone" "pc t Snd \<noteq> Gone" for i
  proof
    fix x assume "x \<in> {..<clock t}"
    then consider "x < clock s" | "x \<in> V" using cl' by auto
    then show "x \<in> view t Snd \<union> mview t (top t)"
    proof cases
      case 1
      then have "x \<in> view s Snd \<union> mview s (top s)" using E that g by (auto simp: event_inv_def)
      then show ?thesis using vv[of Snd] m by blast
    next
      case 2
      then show ?thesis using Vs ac(1) that g by blast
    qed
  qed
  have 3: "{..<clock t} \<subseteq> mview t (top t) \<union> rcv_view t" if "pc t Snd = Gone" "\<forall>i. pc t (Rcv i) \<noteq> Gone"
  proof
    fix x assume "x \<in> {..<clock t}"
    then consider "x < clock s" | "x \<in> V" using cl' by auto
    then show "x \<in> mview t (top t) \<union> rcv_view t"
    proof cases
      case 1
      then have "x \<in> mview s (top s) \<union> rcv_view s" using E that g by (auto simp: event_inv_def)
      then show ?thesis using rv m by blast
    next
      case 2
      then show ?thesis using Vr act that g by blast
    qed
  qed
  have 4: "view t (Rcv i) \<subseteq> own_view t" if "pc t (Rcv i) = Idle" for i
    using that E v(1) pc p(1) act o by (auto simp: event_inv_def split: if_splits)
  have 5: "rcv_view t \<subseteq> view t (Rcv i)" if d: "pc t (Rcv i) = InDropR q" for i q
  proof -
    have "\<exists>q'. pc s (Rcv i) = InDropR q'" using d pc p(3) by (auto split: if_splits)
    then obtain q' where q': "pc s (Rcv i) = InDropR q'" ..
    then have s: "rcv_view s \<subseteq> view s (Rcv i)" using E by (auto simp: event_inv_def)
    have "a = Snd \<or> a = Rcv i" using ac(3)[of "Rcv i" q'] q' by auto
    then have "view t (Rcv j) \<subseteq> rcv_view s \<union> view t (Rcv i)" for j
      using v(1) by (cases "Rcv j = a") (auto simp: rcv_view_def)
    then show ?thesis using s vv[of "Rcv i"] by (auto simp: rcv_view_def)
  qed
  have 6: "{..<clock t} \<subseteq> view t b" if "pc t b \<in> {InDropS DsDealloc, InDropR DrDealloc}" for b
  proof -
    have "b = a" using that ac(2)[of b] pc by (auto split: if_splits)
    then show ?thesis using that p(4) pc Va cl by (auto dest: subsetD)
  qed
  show ?thesis unfolding event_inv_def using 1 2 3 4 5 6 by blast
qed

text \<open>The release exchange by which a side finishes.\<close>

lemma event_finish:
  assumes I: "ctl_inv f s" and E: "event_inv s" and ins: "instr f (pc s a) \<noteq> INone"
    and cl: "clock t = Suc (clock s)" and v: "view t = (view s)(a := insert (clock s) (view s a))"
    and m: "mview t (top t) = mview s (top s) \<union> insert (clock s) (view s a)" and o: "own_view t = own_view s"
    and pc: "pc t = (pc s)(a := Gone)"
    and dr: "a \<noteq> Snd \<Longrightarrow> \<exists>q. pc s a = InDropR q"
    and fin: "latest s \<notin> {10, 11}"
  shows "event_inv t"
proof -
  have g: "pc s Snd \<noteq> Gone" "pc s (Rcv i) \<noteq> Gone" for i
    using ctl_fin(3,4)[OF I] fin by auto
  have all: "x < clock t \<Longrightarrow> x = clock s \<or> x \<in> view s Snd \<union> rcv_view s" for x
    using cl E by (auto simp: event_inv_def less_Suc_eq)
  have vv: "view s b \<subseteq> view t b" for b using v by auto
  have rv: "rcv_view s \<subseteq> rcv_view t" using vv by (auto simp: rcv_view_def)
  have own: "clock s \<in> view t Snd \<union> rcv_view t" using v by (cases a) (auto simp: rcv_view_def)
  have drv: "a \<noteq> Snd \<Longrightarrow> rcv_view s \<subseteq> view s a" using dr E by (cases a) (auto simp: event_inv_def)
  have 1: "{..<clock t} \<subseteq> view t Snd \<union> rcv_view t" using all own vv[of Snd] rv by blast
  have 2: "{..<clock t} \<subseteq> view t Snd \<union> mview t (top t)" if "pc t (Rcv i) = Gone" for i
  proof
    fix x assume "x \<in> {..<clock t}"
    then have x: "x = clock s \<or> x \<in> view s Snd \<union> rcv_view s" using all by simp
    have ne: "a \<noteq> Snd" using that g pc by (auto split: if_splits)
    show "x \<in> view t Snd \<union> mview t (top t)" using x drv[OF ne] vv[of Snd] m by blast
  qed
  have 3: "{..<clock t} \<subseteq> mview t (top t) \<union> rcv_view t" if "pc t Snd = Gone"
  proof
    fix x assume "x \<in> {..<clock t}"
    then have x: "x = clock s \<or> x \<in> view s Snd \<union> rcv_view s" using all by simp
    have "a = Snd" using that g pc by (auto split: if_splits)
    then show "x \<in> mview t (top t) \<union> rcv_view t" using x rv m by auto
  qed
  have 4: "view t (Rcv i) \<subseteq> own_view t" if "pc t (Rcv i) = Idle" for i
    using that E v o pc by (auto simp: event_inv_def split: if_splits)
  have 5: "rcv_view t \<subseteq> view t (Rcv i)" if d: "pc t (Rcv i) = InDropR q" for i q
  proof -
    have ne: "Rcv i \<noteq> a" and q: "pc s (Rcv i) = InDropR q" using d pc by (auto split: if_splits)
    then have "a = Snd" using acting(3)[OF I ins ne] by auto
    then show ?thesis using q E v by (auto simp: event_inv_def rcv_view_def)
  qed
  have 6: "pc t b \<notin> {InDropS DsDealloc, InDropR DrDealloc}" for b
    using acting(2)[OF I ins, of b] pc by (auto split: if_splits)
  show ?thesis unfolding event_inv_def using 1 2 3 4 5 6 by blast
qed


section \<open>Successful exchanges\<close>

lemma exchanged_cas:
  assumes "latest s = l" and "cas_new op l = w" and "nxt f (pc s a) CasOk = p"
  shows "exchanged a w (mview s (top s) \<union> (if order op = Release then insert (clock s) (view s a) else {}))
     (insert (clock s) (view s a) \<union> (if order op = Acquire then mview s (top s) else {})) p s
     (adv f a CasOk (cas_success a op l s))"
  using assms by (auto simp: exchanged_def adv_def goto_def cas_success_def touch_def Let_def)

lemma own_cas:
  assumes I: "ctl_inv f s" and O: "own_inv s" and ins: "instr f (pc s a) = ICas op (latest s)"
    and l: "latest s = l" and w: "cas_new op l = w" and p: "nxt f (pc s a) CasOk = p" "\<not> prewrite p"
    and z: "w = 0 \<Longrightarrow> a \<noteq> Snd \<and> (\<exists>q. p = InDropR q)"
    and data: "(is_ready w \<longleftrightarrow> is_ready l) \<and> (holds_data p \<longleftrightarrow> holds_data (pc s a))
       \<or> holds_data (pc s a) \<and> \<not> holds_data p \<and> is_ready w \<and> order op = Release
       \<or> is_ready l \<and> \<not> is_ready w \<and> holds_data p \<and> order op = Acquire"
    and waker: "l \<noteq> 20 \<and> w \<noteq> 20 \<and> p \<noteq> InSend SendAcq
         \<and> (holds_waker p \<longleftrightarrow> holds_waker (pc s a)) \<and> (writes_waker p \<longleftrightarrow> writes_waker (pc s a))
       \<or> holds_waker (pc s a) \<and> \<not> writes_waker (pc s a) \<and> \<not> holds_waker p \<and> w = 20 \<and> order op = Release
       \<or> l = 20 \<and> w \<noteq> 20 \<and> holds_waker p \<and> \<not> writes_waker p \<and> (p \<noteq> InSend SendAcq \<longrightarrow> order op = Acquire)
       \<or> l = 0 \<and> w \<noteq> 20 \<and> p \<noteq> InSend SendAcq \<and> holds_waker p \<and> writes_waker p
           \<and> (\<forall>i q. pc s (Rcv i) \<noteq> InDropR q)"
    and event: "p = Gone \<and> order op = Release \<and> l \<notin> {10, 11} \<and> (a \<noteq> Snd \<longrightarrow> (\<exists>q. pc s a = InDropR q))
       \<or> p \<notin> {Gone, Idle, InDropS DsDealloc, InDropR DrDealloc}
           \<and> (\<forall>q. p = InDropR q \<longrightarrow> (\<exists>q'. pc s a = InDropR q'))"
  shows "own_inv (adv f a CasOk (cas_success a op (latest s) s))" (is "own_inv ?t")
proof -
  have D: "data_inv s" and W: "waker_inv s" and E: "event_inv s" and F: "faults s = []"
    using O by (simp_all add: own_inv_def)
  have act: "instr f (pc s a) \<noteq> INone" using ins by simp
  note ex = exchanged_cas[OF l w p(1), folded l]
  have na: "pc s a \<noteq> InSend SendAcq" using ins by auto
  have zz: "\<exists>i q. pc ?t (Rcv i) = InDropR q" if "w = 0"
  proof -
    from z[OF that] obtain i q where "a = Rcv i" "p = InDropR q" by (cases a) auto
    then show ?thesis using ex by (auto simp: exchanged_def)
  qed
  have "data_inv ?t"
    by (rule data_exchanged[OF D ex p(2)]) (use data l in auto)
  moreover have "waker_inv ?t"
    by (rule waker_exchanged[OF W ex na ctl_seen(1)[OF I] zz]) (use waker l in auto)
  moreover have "event_inv ?t"
  proof (cases "p = Gone")
    case True
    show ?thesis
      by (rule event_finish[OF I E act])
        (use True event ex l in \<open>auto simp: exchanged_def adv_def goto_def cas_success_def touch_def Let_def\<close>)
  next
    case False
    show ?thesis
      by (rule event_act[OF I E act, where p = p and V = "view ?t a"])
        (use False event ex l in \<open>auto simp: exchanged_def adv_def goto_def cas_success_def touch_def Let_def\<close>)
  qed
  moreover have "faults ?t = []"
    using F ctl_live[OF I act] by (simp add: adv_def goto_def cas_success_def touch_def uaf_def Let_def)
  ultimately show ?thesis by (simp add: own_inv_def)
qed

lemma own_cas_ok:
  assumes I: "ctl_inv f s" and O: "own_inv s" and ins: "instr f (pc s a) = ICas op (latest s)"
  shows "own_inv (adv f a CasOk (cas_success a op (latest s) s))"
proof -
  have as: "latest s = 20 \<Longrightarrow> f_async f" using ctl_latest[OF I] by (auto simp: words_def split: if_splits)
  note oc = own_cas[OF I O ins]
  note ev = word_state Let_def try_wake_after_ready_def
  from I ins show ?thesis
  proof (cases rule: cas_table)
    case (send l)
    show ?thesis by (rule oc[where l = l and p = "try_wake_after_ready f l"]) (use send as in \<open>auto simp: ev\<close>)
  next
    case ds_drop
    show ?thesis by (rule oc[where l = 2 and p = Gone]) (use ds_drop in \<open>auto simp: ev\<close>)
  next
    case ds_closed_drop
    show ?thesis by (rule oc[where l = 28 and p = Gone]) (use ds_closed_drop in \<open>auto simp: ev\<close>)
  next
    case ds_closed_acq
    show ?thesis by (rule oc[where l = 20 and p = "InDropS (DsWake 2)"]) (use ds_closed_acq in \<open>auto simp: ev\<close>)
  next
    case ds_closed_wake
    show ?thesis by (rule oc[where l = 4 and p = "if f_wait f then InDropS (DsWakeAll 2) else InDropS (DsSetDropping 2)"])
        (use ds_closed_wake in \<open>auto simp: ev\<close>)
  next
    case (ds_set l)
    show ?thesis by (rule oc[where l = l and w = "cas_new op l" and p = Gone]) (use ds_set in \<open>auto simp: ev\<close>)
  next
    case (rc_take i l)
    show ?thesis by (rule oc[where l = l and p = "InRecv RcRead"]) (use rc_take in \<open>auto simp: ev\<close>)
  next
    case (rc_unpend i)
    show ?thesis by (rule oc[where l = 20 and p = "InRecv (RcDropWaker 20)"]) (use rc_unpend in \<open>auto simp: ev\<close>)
  next
    case (rc_wait i)
    show ?thesis by (rule oc[where l = 0 and p = "InRecv (RcWait 4)"]) (use rc_wait in \<open>auto simp: ev\<close>)
  next
    case (po_take i w l)
    show ?thesis by (rule oc[where l = l and p = "InPoll PoRead"]) (use po_take in \<open>auto simp: ev\<close>)
  next
    case (po_wakeless i w)
    show ?thesis by (rule oc[where l = 20 and p = "InPoll (PoUpdate w 28)"]) (use po_wakeless in \<open>auto simp: ev\<close>)
  next
    case (po_set i w)
    have "pc s (Rcv j) \<noteq> InDropR q" for j q
      using ctl_excl[OF I, of i j] po_set by (cases "j = i") auto
    then show ?thesis by (intro oc[where l = 0 and p = "InPoll (PoWrite w 28)"]) (use po_set in \<open>auto simp: ev\<close>)
  next
    case (po_unset i w)
    show ?thesis by (rule oc[where l = 28 and p = "Ret PollPending"]) (use po_unset in \<open>auto simp: ev\<close>)
  next
    case (dr_unset i l)
    show ?thesis by (rule oc[where l = l and p = "InDropR (DrRead (cas_new op l))"]) (use dr_unset in \<open>auto simp: ev\<close>)
  next
    case (dr_drop i)
    show ?thesis by (rule oc[where l = 2 and p = Gone]) (use dr_drop in \<open>auto simp: ev\<close>)
  next
    case (dr_closed_acq i)
    show ?thesis by (rule oc[where l = 20 and p = "InDropR (DrDropWaker 2)"]) (use dr_closed_acq in \<open>auto simp: ev\<close>)
  next
    case (dr_set i l)
    show ?thesis by (rule oc[where l = l and w = 10 and p = Gone]) (use dr_set in \<open>auto simp: ev\<close>)
  qed
qed


section \<open>Loads\<close>

text \<open>
  A move of \<open>a\<close> that keeps every cell and message: its view grows to \<open>V\<close>, the event
  counter by at most the one event in \<open>V\<close>.
\<close>

definition observed :: "agent \<Rightarrow> nat set \<Rightarrow> ('v, 'w) pc \<Rightarrow> ('v, 'w) chan \<Rightarrow> ('v, 'w) chan \<Rightarrow> bool" where
  "observed a V p s t \<longleftrightarrow> mval t = mval s \<and> mview t = mview s \<and> top t = top s \<and> accs t = accs s
     \<and> data t = data s \<and> waker t = waker s \<and> view t = (view s)(a := V) \<and> clock t = Suc (clock s)
     \<and> insert (clock s) (view s a) \<subseteq> V \<and> own_view t = own_view s \<and> pc t = (pc s)(a := p)
     \<and> (\<forall>b. b \<noteq> a \<longrightarrow> seen t b = seen s b) \<and> faults t = faults s @ uaf s"

lemma observed_load:
  "observed a (insert (clock s) (view s a)) (nxt f (pc s a) r) s (adv f a r (load_relaxed a k s))"
  "observed a (insert (clock s) (view s a)) (nxt f (pc s a) r) s (adv f a r (touch a s))"
  "observed a (insert (clock s) (view s a)) p s (goto a p (touch a s))"
  "observed a (insert (clock s) (view s a) \<union> mview s k) (nxt f (pc s a) r) s (adv f a r (load_acquire a k s))"
  by (auto simp: observed_def adv_def goto_def load_relaxed_def load_acquire_def touch_def)

text \<open>The points \<open>p\<close> and \<open>q\<close> own the same cells.\<close>

definition keeps :: "('v, 'w) pc \<Rightarrow> ('v, 'w) pc \<Rightarrow> bool" where
  "keeps p q \<longleftrightarrow> (holds_data q \<longleftrightarrow> holds_data p) \<and> (prewrite q \<longrightarrow> prewrite p)
     \<and> (holds_waker q \<longleftrightarrow> holds_waker p) \<and> (writes_waker q \<longleftrightarrow> writes_waker p)
     \<and> q \<noteq> InSend SendAcq \<and> q \<noteq> Idle \<and> q \<noteq> Gone
     \<and> ((\<exists>x. q = InDropR x) \<longleftrightarrow> (\<exists>x. p = InDropR x))"

lemma own_observed:
  assumes I: "ctl_inv f s" and O: "own_inv s" and act: "instr f (pc s a) \<noteq> INone"
    and t: "observed a V p s t" and kp: "keeps (pc s a) p"
    and acq: "pc s a = InSend SendAcq \<Longrightarrow> waker_known a s \<Longrightarrow> accs s Waker \<subseteq> V"
    and dl: "p \<in> {InDropS DsDealloc, InDropR DrDealloc} \<Longrightarrow> {..<Suc (clock s)} \<subseteq> V"
  shows "own_inv t"
proof -
  have D: "data_inv s" and W: "waker_inv s" and E: "event_inv s" and F: "faults s = []"
    using O by (simp_all add: own_inv_def)
  have p: "holds_data p \<longleftrightarrow> holds_data (pc s a)" "prewrite p \<Longrightarrow> prewrite (pc s a)"
      "holds_waker p \<longleftrightarrow> holds_waker (pc s a)" "writes_waker p \<longleftrightarrow> writes_waker (pc s a)"
      "p \<noteq> InSend SendAcq" "p \<noteq> Idle" "p \<noteq> Gone" "(\<exists>q. p = InDropR q) \<longleftrightarrow> (\<exists>q'. pc s a = InDropR q')"
    using kp unfolding keeps_def by blast+
  have q: "quiet s t" using t by (auto simp: observed_def quiet_def)
  have pc: "pc t b = (if b = a then p else pc s b)" for b using t by (simp add: observed_def)
  have vw: "view t b = (if b = a then V else view s b)" for b using t by (simp add: observed_def)
  have "data_inv t"
  proof (rule data_quiet[OF D q])
    show "prewrite (pc s Snd)" if "prewrite (pc t Snd)"
      using that p(2) pc[of Snd] by (cases "a = Snd") auto
  qed (use t p(1) in \<open>simp_all add: observed_def\<close>)
  moreover have "waker_inv t"
  proof (rule waker_quiet[OF W q])
    show "waker_known b t" if "holds_waker (pc s b)" "waker_known b s" for b
    proof (cases "b = a \<and> pc s a = InSend SendAcq")
      case True
      then show ?thesis using acq that p(5) t by (simp add: waker_known_def pc vw observed_def)
    next
      case False
      then show ?thesis
        by (intro waker_known_quiet[OF that(2) q]) (use t p(5) in \<open>auto simp: observed_def\<close>)
    qed
    show "\<exists>q'. pc t (Rcv i) = InDropR q'" if "pc s (Rcv i) = InDropR q" for i q
      using that p(8) pc[of "Rcv i"] by (cases "Rcv i = a") auto
  qed (use t p(3,4) in \<open>simp_all add: observed_def\<close>)
  moreover have "event_inv t"
  proof (rule event_act[OF I E act, where p = p and V = V])
    show "\<exists>q'. pc s a = InDropR q'" if "p = InDropR q" for q using that p(8) by auto
  qed (use t p(6,7) dl in \<open>simp_all add: observed_def\<close>)
  moreover have "faults t = []" using F ctl_live[OF I act] t by (simp add: observed_def uaf_def)
  ultimately show ?thesis by (simp add: own_inv_def)
qed

lemma own_load:
  assumes I: "ctl_inv f s" and O: "own_inv s" and ins: "instr f (pc s a) = ILoad"
  shows "own_inv (adv f a (Loaded v) (load_relaxed a k s))"
proof -
  have act: "instr f (pc s a) \<noteq> INone" using ins by simp
  note ob = own_observed[OF I O act observed_load(1)]
  from ins show ?thesis
    by (cases rule: instr_ILoad; intro ob) (simp_all add: keeps_def loop_defs split: if_splits)
qed

lemma own_cas_fail:
  assumes I: "ctl_inv f s" and O: "own_inv s" and ins: "instr f (pc s a) = ICas op cur"
  shows "own_inv (adv f a (CasFail v) (load_relaxed a k s))"
proof -
  have act: "instr f (pc s a) \<noteq> INone" using ins by simp
  note ob = own_observed[OF I O act observed_load(1)]
  from ins show ?thesis
    by (cases rule: instr_ICas; intro ob) (simp_all add: keeps_def loop_defs split: if_splits)
qed

text \<open>
  The acquire load before the deallocation reads the final message: it learns every event
  of the side that is gone, and the other events are its own.
\<close>

lemma final_view:
  assumes I: "ctl_inv f s" and E: "event_inv s" and p: "pc s a \<in> {InDropS DsAcq, InDropR DrAcq}"
  shows "{..<clock s} \<subseteq> view s a \<union> mview s (top s)"
proof -
  have l: "latest s = 10" using ctl_know[OF I, of a] p by auto
  show ?thesis
  proof (cases a)
    case Snd
    then have "pc s Snd \<noteq> Gone" using p by auto
    moreover from this obtain i where "pc s (Rcv i) = Gone" using ctl_fin(2)[OF I] l by auto
    ultimately show ?thesis using E Snd unfolding event_inv_def by blast
  next
    case (Rcv i)
    then have q: "pc s (Rcv i) = InDropR DrAcq" using p ctl_side(2)[OF I, of a] by auto
    then have g: "pc s Snd = Gone" using ctl_fin_rcv[OF I l, of i] by simp
    have "pc s (Rcv j) \<noteq> Gone" for j using ctl_Gone_excl[OF I, of j i] q by (cases "i = j") auto
    then have "{..<clock s} \<subseteq> mview s (top s) \<union> rcv_view s" "rcv_view s \<subseteq> view s (Rcv i)"
      using E g q unfolding event_inv_def by blast+
    then show ?thesis using Rcv by blast
  qed
qed

lemma own_acquire:
  assumes I: "ctl_inv f s" and O: "own_inv s" and ins: "instr f (pc s a) = IAcquire" and r: "can_read a k s"
  shows "own_inv (adv f a (Loaded v) (load_acquire a k s))"
proof -
  have act: "instr f (pc s a) \<noteq> INone" using ins by simp
  have E: "event_inv s" using O by (simp add: own_inv_def)
  note ob = own_observed[OF I O act observed_load(4)]
  have fin: "{..<Suc (clock s)} \<subseteq> insert (clock s) (view s a) \<union> mview s k"
    if d: "pc s a \<in> {InDropS DsAcq, InDropR DrAcq}"
  proof -
    have "k = top s" using ctl_know[OF I, of a] d r by (auto simp: can_read_def)
    then show ?thesis using final_view[OF I E d] by (auto simp: less_Suc_eq)
  qed
  from ins show ?thesis
  proof (cases rule: instr_IAcquire)
    case 1
    show ?thesis by (rule ob) (use 1 r in \<open>auto simp: keeps_def waker_known_def can_read_def\<close>)
  next
    case 2
    show ?thesis by (rule ob) (use 2 fin in \<open>auto simp: keeps_def\<close>)
  next
    case 3
    show ?thesis by (rule ob) (use 3 fin in \<open>auto simp: keeps_def\<close>)
  qed
qed

lemma own_wait:
  assumes I: "ctl_inv f s" and O: "own_inv s" and ins: "instr f (pc s a) = IWait cur"
  shows "own_inv (adv f a (Loaded v) (load_relaxed a k s))"
    and "own_inv (adv f a Done (touch a s))"
    and "own_inv (goto a (InRecv RcParked) (touch a s))"
proof -
  have act: "instr f (pc s a) \<noteq> INone" using ins by simp
  note ob = own_observed[OF I O act] and p = instr_block(1)[OF ins]
  show "own_inv (adv f a (Loaded v) (load_relaxed a k s))"
    by (rule ob[OF observed_load(1)]) (use p in \<open>simp_all add: keeps_def loop_defs split: if_splits\<close>)
  show "own_inv (adv f a Done (touch a s))"
    by (rule ob[OF observed_load(2)]) (use p in \<open>simp_all add: keeps_def\<close>)
  show "own_inv (goto a (InRecv RcParked) (touch a s))"
    by (rule ob[OF observed_load(3)]) (use p in \<open>simp_all add: keeps_def\<close>)
qed

section \<open>Cells\<close>

text \<open>An access of \<open>a\<close> to cell \<open>x\<close> on its way to \<open>p\<close>.\<close>

definition accessed :: "agent \<Rightarrow> cell \<Rightarrow> ('v, 'w) pc \<Rightarrow> ('v, 'w) chan \<Rightarrow> ('v, 'w) chan \<Rightarrow> bool" where
  "accessed a x p s t \<longleftrightarrow> mval t = mval s \<and> mview t = mview s \<and> top t = top s
     \<and> accs t = (accs s)(x := insert (clock s) (accs s x)) \<and> clock t = Suc (clock s)
     \<and> view t = (view s)(a := insert (clock s) (view s a)) \<and> own_view t = own_view s
     \<and> pc t = (pc s)(a := p) \<and> seen t = seen s"

lemma accessed_cells:
  "accessed a Data (nxt f (pc s a) r) s (adv f a r (write_data a v s))"
  "accessed a Data (nxt f (pc s a) r) s (adv f a r (read_data a (log_lost a s)))"
  "accessed a Waker (nxt f (pc s a) r) s (adv f a r (take_waker a (log_woken s)))"
  "accessed a Waker (nxt f (pc s a) r) s (adv f a r (take_waker a s))"
  "accessed a Waker (nxt f (pc s a) r) s (adv f a r (write_waker a w s))"
  "accessed a Waker (nxt f (pc s a) r) s (adv f a r (update_waker ww a w s))"
  by (simp_all add: accessed_def adv_def goto_def mem_op_defs log_lost_def log_woken_def Let_def
      split: pc.split option.split)

lemma accessed_event:
  assumes I: "ctl_inv f s" and E: "event_inv s" and act: "instr f (pc s a) \<noteq> INone"
    and t: "accessed a x p s t" and p: "p \<notin> {Idle, Gone, InDropS DsDealloc, InDropR DrDealloc}"
      "\<And>q. p = InDropR q \<Longrightarrow> \<exists>q'. pc s a = InDropR q'"
  shows "event_inv t"
  by (rule event_act[OF I E act, where p = p and V = "insert (clock s) (view s a)"])
    (use t p in \<open>auto simp: accessed_def\<close>)

lemma accessed_quiet: "accessed a x p s t \<Longrightarrow> quiet s t"
  by (auto simp: accessed_def quiet_def)

lemma accessed_data:
  assumes W: "waker_inv s" and t: "accessed a Data p s t" and w: "waker t = waker s"
    and p: "holds_waker p \<longleftrightarrow> holds_waker (pc s a)" "writes_waker p \<longleftrightarrow> writes_waker (pc s a)"
      "p \<noteq> InSend SendAcq" "pc s a \<noteq> InSend SendAcq" "\<And>q. pc s a = InDropR q \<Longrightarrow> \<exists>q'. p = InDropR q'"
  shows "waker_inv t"
proof (rule waker_quiet[OF W accessed_quiet[OF t] _ w])
  have pc: "pc t b = (if b = a then p else pc s b)" for b using t by (simp add: accessed_def)
  show "\<exists>q'. pc t (Rcv i) = InDropR q'" if "pc s (Rcv i) = InDropR q" for i q
    using p(5) that pc[of "Rcv i"] by (cases "Rcv i = a") auto
  show "waker_known b t" if "waker_known b s" for b
    by (rule waker_known_quiet[OF that accessed_quiet[OF t]]) (use t p in \<open>auto simp: accessed_def\<close>)
  show "holds_waker (pc t b) \<longleftrightarrow> holds_waker (pc s b)" "writes_waker (pc t b) \<longleftrightarrow> writes_waker (pc s b)" for b
    using p(1,2) by (simp_all add: pc)
qed (use t in \<open>simp add: accessed_def\<close>)

lemma accessed_waker:
  assumes D: "data_inv s" and t: "accessed a Waker p s t" and d: "data t = data s"
    and p: "\<not> holds_data p" "\<not> holds_data (pc s a)" "\<not> prewrite p"
  shows "data_inv t"
proof (rule data_quiet[OF D accessed_quiet[OF t] _ d])
  have pc: "pc t b = (if b = a then p else pc s b)" for b using t by (simp add: accessed_def)
  show "prewrite (pc s Snd)" if "prewrite (pc t Snd)"
    using that p pc[of Snd] by (auto split: if_splits)
  show "holds_data (pc t b) \<longleftrightarrow> holds_data (pc s b)" for b
    using p(1,2) by (simp add: pc)
qed (use t in \<open>simp add: accessed_def\<close>)

lemma own_write_data:
  assumes I: "ctl_inv f s" and O: "own_inv s" and ins: "instr f (pc s a) = IWriteData v"
  shows "own_inv (adv f a Done (write_data a v s))" (is "own_inv ?t")
proof -
  have D: "data_inv s" and W: "waker_inv s" and E: "event_inv s" and F: "faults s = []"
    using O by (simp_all add: own_inv_def)
  have act: "instr f (pc s a) \<noteq> INone" using ins by simp
  obtain c where p: "pc s a = InSend (SendWrite v c)" using instr_data(1)[OF ins] by blast
  then have a: "a = Snd" using side_snd[OF I, of a] by simp
  note ac = accessed_cells(1)[of a f s Done v]
  note fr = data_fresh[OF D, unfolded p[unfolded a], simplified]
  have pc: "pc ?t b = (if b = Snd then InSend (SendCas c) else pc s b)" for b
    using ac p a by (simp add: accessed_def)
  have h: "holds_data (pc ?t b) \<longleftrightarrow> b = Snd" for b using fr(3) by (simp add: pc)
  have dt: "data ?t = Some v" "accs ?t Data = {clock s}" "clock s \<in> view ?t Snd" "latest ?t = latest s"
    using fr(2) a by (simp_all add: adv_def goto_def mem_op_defs Let_def)
  have "data_inv ?t"
    by (rule data_invI) (use h dt fr(4) pc[of Snd] in auto)
  moreover have "waker_inv ?t"
    by (rule accessed_data[OF W ac]) (use p in \<open>auto simp: adv_def goto_def mem_op_defs Let_def\<close>)
  moreover have "event_inv ?t"
    by (rule accessed_event[OF I E act ac]) (use p in auto)
  moreover have "faults ?t = []"
    using F fr(1,2) ctl_live[OF I act] by (simp add: adv_def goto_def mem_op_defs uaf_def Let_def)
  ultimately show ?thesis by (simp add: own_inv_def)
qed

lemma own_read_data:
  assumes I: "ctl_inv f s" and O: "own_inv s" and ins: "instr f (pc s a) = IReadData"
  shows "own_inv (adv f a (Got (data s)) (read_data a (log_lost a s)))" (is "own_inv ?t")
proof -
  have D: "data_inv s" and W: "waker_inv s" and E: "event_inv s" and F: "faults s = []"
    using O by (simp_all add: own_inv_def)
  have act: "instr f (pc s a) \<noteq> INone" using ins by simp
  have hd: "holds_data (pc s a)" using instr_data(2)[OF ins] by auto
  note held = data_held[OF D hd] and ac = accessed_cells(2)[of a f s "Got (data s)"]
  let ?p = "nxt f (pc s a) (Got (data s))"
  have np: "\<not> holds_data ?p" "\<not> prewrite ?p" "\<not> holds_waker ?p" "\<not> writes_waker ?p"
    "?p \<notin> {Idle, Gone, InSend SendAcq, InDropS DsDealloc, InDropR DrDealloc}"
    "(\<exists>q. ?p = InDropR q) \<longleftrightarrow> (\<exists>q. pc s a = InDropR q)"
    using instr_data(2)[OF ins] by (auto simp: loop_defs split: if_splits)
  have sp: "\<not> holds_waker (pc s a)" "\<not> writes_waker (pc s a)" "pc s a \<noteq> InSend SendAcq"
    using instr_data(2)[OF ins] by auto
  have pc: "pc ?t b = (if b = a then ?p else pc s b)" for b using ac by (simp add: accessed_def)
  have h: "\<not> holds_data (pc ?t b)" for b using np(1) held(3)[of b] by (auto simp: pc)
  have pw: "\<not> prewrite (pc ?t Snd)"
    using np(2) data_fresh(1)[OF D] held(1) by (auto simp: pc)
  have dt: "data ?t = None" "latest ?t = latest s"
    by (simp_all add: adv_def goto_def mem_op_defs log_lost_def Let_def split: pc.split)
  have "data_inv ?t"
    by (rule data_invI) (use h pw dt held(4) in auto)
  moreover have "waker_inv ?t"
    by (rule accessed_data[OF W ac])
      (use np sp in \<open>auto simp: adv_def goto_def mem_op_defs log_lost_def Let_def split: pc.split\<close>)
  moreover have "event_inv ?t"
    by (rule accessed_event[OF I E act ac]) (use np in auto)
  moreover have "faults ?t = []"
    using F held(1,2) ctl_live[OF I act]
    by (simp add: adv_def goto_def mem_op_defs log_lost_def uaf_def Let_def split: pc.split)
  ultimately show ?thesis by (simp add: own_inv_def)
qed

lemma holds_writes: "writes_waker p \<Longrightarrow> holds_waker p"
  by (cases p rule: writes_waker.cases) auto

text \<open>The owner of the waker takes it out, or leaves one in the cell and keeps it.\<close>

lemma waker_accessed:
  assumes W: "waker_inv s" and t: "accessed a Waker p s t" and hw: "holds_waker (pc s a)"
    and na: "pc s a \<noteq> InSend SendAcq" "p \<noteq> InSend SendAcq"
    and c: "waker t = None \<and> \<not> holds_waker p \<or> waker t \<noteq> None \<and> holds_waker p \<and> \<not> writes_waker p"
    and dr: "\<And>q. pc s a = InDropR q \<Longrightarrow> \<exists>q'. p = InDropR q'"
  shows "waker_inv t"
proof (rule waker_invI)
  have pc: "pc t b = (if b = a then p else pc s b)" for b using t by (simp add: accessed_def)
  have l: "latest t = latest s" using t by (simp add: accessed_def)
  note held = waker_held[OF W hw]
  have h: "holds_waker (pc t b) \<longleftrightarrow> b = a \<and> holds_waker p" for b using held(3)[of b] by (auto simp: pc)
  show "(waker t = None \<longleftrightarrow> writes_waker (pc t b)) \<and> waker_known b t" if hb: "holds_waker (pc t b)" for b
  proof -
    have b: "b = a" "holds_waker p" using hb h by blast+
    have "waker_known a t" using held(5)[OF na(1)] na(2) t by (auto simp: waker_known_def accessed_def)
    then show ?thesis using b c by (auto simp: pc)
  qed
  show "holds_waker (pc t b) \<Longrightarrow> holds_waker (pc t b') \<Longrightarrow> b' = b" for b b' by (simp add: h)
  show "latest t = 20 \<Longrightarrow> waker t \<noteq> None \<and> accs t Waker \<subseteq> mview t (top t) \<and> (\<forall>b. \<not> holds_waker (pc t b))"
    using held(4) l by simp
  show "waker t \<noteq> None \<Longrightarrow> latest t = 20 \<or> (\<exists>b. holds_waker (pc t b))" using c by (auto simp: h)
  show "latest t = 0 \<Longrightarrow> (\<exists>i q. pc t (Rcv i) = InDropR q)
        \<or> accs t Waker = {} \<and> waker t = None \<and> (\<forall>b. \<not> holds_waker (pc t b))"
  proof -
    assume "latest t = 0"
    then obtain i q where iq: "pc s (Rcv i) = InDropR q" using waker_untouched(3)[OF W] hw l by metis
    then have "\<exists>q'. pc t (Rcv i) = InDropR q'" using dr pc[of "Rcv i"] by (cases "Rcv i = a") auto
    then show ?thesis by blast
  qed
qed

lemma own_waker:
  assumes I: "ctl_inv f s" and O: "own_inv s" and act: "instr f (pc s a) \<noteq> INone"
    and t: "accessed a Waker p s t" and hw: "holds_waker (pc s a)" and keep: "data t = data s"
    and na: "pc s a \<noteq> InSend SendAcq" "\<not> holds_data (pc s a)"
      "p \<notin> {Idle, Gone, InSend SendAcq, InDropS DsDealloc, InDropR DrDealloc}"
      "\<not> holds_data p" "\<not> prewrite p" "(\<exists>q. p = InDropR q) \<longleftrightarrow> (\<exists>q. pc s a = InDropR q)"
    and c: "waker t = None \<and> \<not> holds_waker p \<or> waker t \<noteq> None \<and> holds_waker p \<and> \<not> writes_waker p"
    and f: "faults t = []"
  shows "own_inv t"
proof -
  have D: "data_inv s" and W: "waker_inv s" and E: "event_inv s" using O by (simp_all add: own_inv_def)
  have "data_inv t" by (rule accessed_waker[OF D t keep]) (use na in auto)
  moreover have "waker_inv t" by (rule waker_accessed[OF W t hw]) (use na c in auto)
  moreover have "event_inv t" by (rule accessed_event[OF I E act t]) (use na in auto)
  ultimately show ?thesis using f by (simp add: own_inv_def)
qed

lemma own_waker_cells:
  assumes I: "ctl_inv f s" and O: "own_inv s"
  shows "instr f (pc s a) = IWakeWaker \<Longrightarrow> own_inv (adv f a Done (take_waker a (log_woken s)))"
    and "instr f (pc s a) = IDropWaker \<Longrightarrow> own_inv (adv f a Done (take_waker a s))"
    and "instr f (pc s a) = IWriteWaker w \<Longrightarrow> own_inv (adv f a Done (write_waker a w s))"
    and "instr f (pc s a) = IUpdateWaker w \<Longrightarrow> own_inv (adv f a Done (update_waker ww a w s))"
proof -
  have W: "waker_inv s" and F: "faults s = []" using O by (simp_all add: own_inv_def)
  note ow = own_waker[OF I O] and ac = accessed_cells(3-)[of a f s Done]
  note ev = adv_def goto_def mem_op_defs log_woken_def uaf_def Let_def
  have facts: "waker s = None \<longleftrightarrow> writes_waker (pc s a)" "accs s Waker \<subseteq> view s a"
    if "holds_waker (pc s a)" "pc s a \<noteq> InSend SendAcq"
    using waker_held[OF W that(1)] that(2) by blast+
  show "own_inv (adv f a Done (take_waker a (log_woken s)))" if ins: "instr f (pc s a) = IWakeWaker"
  proof -
    have act: "instr f (pc s a) \<noteq> INone" using ins by simp
    have h: "holds_waker (pc s a)" "\<not> writes_waker (pc s a)" "pc s a \<noteq> InSend SendAcq"
      using instr_waker(1)[OF ins] by auto
    show ?thesis
      by (rule ow[OF act ac(1) h(1)])
        (use instr_waker(1)[OF ins] facts[OF h(1,3)] h F ctl_live[OF I act] in \<open>auto simp: ev\<close>)
  qed
  show "own_inv (adv f a Done (take_waker a s))" if ins: "instr f (pc s a) = IDropWaker"
  proof -
    have act: "instr f (pc s a) \<noteq> INone" using ins by simp
    have h: "holds_waker (pc s a)" "\<not> writes_waker (pc s a)" "pc s a \<noteq> InSend SendAcq"
      using instr_waker(2)[OF ins] by auto
    show ?thesis
      by (rule ow[OF act ac(2) h(1)])
        (use instr_waker(2)[OF ins] facts[OF h(1,3)] h F ctl_live[OF I act] in
          \<open>auto simp: ev loop_defs split: if_splits\<close>)
  qed
  show "own_inv (adv f a Done (write_waker a w s))" if ins: "instr f (pc s a) = IWriteWaker w"
  proof -
    have act: "instr f (pc s a) \<noteq> INone" using ins by simp
    have h: "holds_waker (pc s a)" "writes_waker (pc s a)" "pc s a \<noteq> InSend SendAcq"
      using instr_waker(3)[OF ins] by auto
    show ?thesis
      by (rule ow[OF act ac(3) h(1)])
        (use instr_waker(3)[OF ins] facts[OF h(1,3)] h F ctl_live[OF I act] in \<open>auto simp: ev\<close>)
  qed
  show "own_inv (adv f a Done (update_waker ww a w s))" if ins: "instr f (pc s a) = IUpdateWaker w"
  proof -
    have act: "instr f (pc s a) \<noteq> INone" using ins by simp
    have h: "holds_waker (pc s a)" "\<not> writes_waker (pc s a)" "pc s a \<noteq> InSend SendAcq"
      using instr_waker(4)[OF ins] by auto
    then have "waker s \<noteq> None" using facts(1) by simp
    then show ?thesis
      by (intro ow[OF act ac(4) h(1)])
        (use instr_waker(4)[OF ins] facts[OF h(1,3)] h F ctl_live[OF I act] in
          \<open>auto simp: ev split: option.split\<close>)
  qed
qed

section \<open>Calls, returns, wake-ups and the deallocation\<close>

text \<open>A move without an event.\<close>

definition stepped :: "agent \<Rightarrow> ('v, 'w) pc \<Rightarrow> ('v, 'w) chan \<Rightarrow> ('v, 'w) chan \<Rightarrow> bool" where
  "stepped a p s t \<longleftrightarrow> mval t = mval s \<and> mview t = mview s \<and> top t = top s \<and> accs t = accs s
     \<and> data t = data s \<and> waker t = waker s \<and> clock t = clock s \<and> pc t = (pc s)(a := p)
     \<and> faults t = faults s \<and> (\<forall>b. b \<noteq> a \<longrightarrow> view t b = view s b \<and> seen t b = seen s b)
     \<and> view s a \<subseteq> view t a \<and> own_view s \<subseteq> own_view t"

lemma own_stepped:
  assumes O: "own_inv s" and t: "stepped a p s t"
    and p: "\<not> holds_data p" "\<not> holds_data (pc s a)" "\<not> holds_waker p" "\<not> holds_waker (pc s a)"
      "a = Snd \<Longrightarrow> prewrite p \<Longrightarrow> prewrite (pc s a)" "p \<noteq> Gone" "pc s a \<noteq> Gone" "\<And>q. pc s a \<noteq> InDropR q"
      "p \<notin> {InDropS DsDealloc, InDropR DrDealloc}"
    and idle: "a \<noteq> Snd \<Longrightarrow> p = Idle \<Longrightarrow> view t a \<subseteq> own_view t"
    and drop: "\<And>q. p = InDropR q \<Longrightarrow> rcv_view t \<subseteq> view t a"
    and grow: "view t a = view s a \<or> (\<forall>b. b \<noteq> a \<longrightarrow> (\<forall>q. pc s b \<noteq> InDropR q))"
  shows "own_inv t"
proof -
  have D: "data_inv s" and W: "waker_inv s" and E: "event_inv s" and F: "faults s = []"
    using O by (simp_all add: own_inv_def)
  have vv: "view s b \<subseteq> view t b" for b using t by (cases "b = a") (auto simp: stepped_def)
  have q: "quiet s t" using t vv by (simp add: stepped_def quiet_def)
  have pc: "pc t b = (if b = a then p else pc s b)" for b using t by (simp add: stepped_def)
  have "data_inv t"
  proof (rule data_quiet[OF D q])
    show "prewrite (pc s Snd)" if "prewrite (pc t Snd)"
      using that p(5) pc[of Snd] by (cases "a = Snd") auto
  qed (use t p(1,2) in \<open>simp_all add: stepped_def\<close>)
  moreover have "waker_inv t"
  proof (rule waker_quiet[OF W q])
    have nw: "\<not> writes_waker p" "\<not> writes_waker (pc s a)" "p \<noteq> InSend SendAcq" "pc s a \<noteq> InSend SendAcq"
      using p(3,4) holds_writes by auto
    show "waker_known b t" if "waker_known b s" for b
      by (rule waker_known_quiet[OF that q]) (use t nw in \<open>auto simp: stepped_def\<close>)
    show "\<exists>q'. pc t (Rcv i) = InDropR q'" if "pc s (Rcv i) = InDropR q" for i q
      using that p(8) pc[of "Rcv i"] by (cases "Rcv i = a") auto
    show "writes_waker (pc t b) \<longleftrightarrow> writes_waker (pc s b)" "holds_waker (pc t b) \<longleftrightarrow> holds_waker (pc s b)" for b
      using nw p(3,4) by (simp_all add: pc)
  qed (use t in \<open>simp_all add: stepped_def\<close>)
  moreover have "event_inv t"
  proof -
    have rv: "rcv_view s \<subseteq> rcv_view t" using vv by (auto simp: rcv_view_def)
    have g: "pc t b = Gone \<longleftrightarrow> pc s b = Gone" for b using p(6,7) by (simp add: pc)
    have e: "clock t = clock s" "mview t (top t) = mview s (top s)" using t by (simp_all add: stepped_def)
    have 1: "{..<clock t} \<subseteq> view t Snd \<union> rcv_view t"
      unfolding e(1) by (rule subset_trans[OF event_known(1)[OF E] Un_mono[OF vv rv]])
    have 2: "{..<clock t} \<subseteq> view t Snd \<union> mview t (top t)" if "pc t (Rcv i) = Gone" "pc t Snd \<noteq> Gone" for i
      unfolding e by (rule subset_trans[OF event_known(2)[OF E] Un_mono[OF vv subset_refl]]) (use that g in auto)
    have 3: "{..<clock t} \<subseteq> mview t (top t) \<union> rcv_view t" if "pc t Snd = Gone" "\<forall>i. pc t (Rcv i) \<noteq> Gone"
      unfolding e by (rule subset_trans[OF event_known(3)[OF E] Un_mono[OF subset_refl rv]]) (use that g in auto)
    have 4: "view t (Rcv i) \<subseteq> own_view t" if d: "pc t (Rcv i) = Idle" for i
    proof (cases "Rcv i = a")
      case True
      then show ?thesis using d idle pc[of a] by auto
    next
      case False
      then have "view t (Rcv i) = view s (Rcv i)" "pc s (Rcv i) = Idle" "own_view s \<subseteq> own_view t"
        using d t pc by (simp_all add: stepped_def)
      then show ?thesis using event_known(4)[OF E, of i] by simp
    qed
    have 5: "rcv_view t \<subseteq> view t (Rcv i)" if d: "pc t (Rcv i) = InDropR q" for i q
    proof (cases "Rcv i = a")
      case True
      then have "p = InDropR q" using d pc[of "Rcv i"] by simp
      then show ?thesis using drop True by simp
    next
      case False
      then have ds: "pc s (Rcv i) = InDropR q" using d pc by simp
      then have "view t a = view s a" using grow False by metis
      then have "view t b = view s b" for b using t by (cases "b = a") (auto simp: stepped_def)
      then show ?thesis using event_known(5)[OF E ds] by (simp add: rcv_view_def)
    qed
    have 6: "{..<clock t} \<subseteq> view t b" if "pc t b \<in> {InDropS DsDealloc, InDropR DrDealloc}" for b
    proof -
      have "pc s b \<in> {InDropS DsDealloc, InDropR DrDealloc}"
        using that p(9) pc[of b] by (cases "b = a") simp_all
      then show ?thesis using subset_trans[OF event_known(6)[OF E] vv] unfolding e(1) by blast
    qed
    show ?thesis unfolding event_inv_def using 1 2 3 4 5 6 by blast
  qed
  moreover have "faults t = []" using t F by (simp add: stepped_def)
  ultimately show ?thesis by (simp add: own_inv_def)
qed

lemma idle_views:
  assumes "own_inv s" and "may_own s"
  shows "rcv_view s \<subseteq> own_view s"
  using assms event_known(4)[of s] by (auto simp: own_inv_def may_own_def rcv_view_def)

lemma own_calls:
  assumes I: "ctl_inv f s" and O: "own_inv s"
  shows "pc s Snd = Idle \<Longrightarrow> own_inv (goto Snd (InSend (SendLoad v)) (s\<lparr>sent := Some v\<rparr>))"
    and "pc s Snd = Idle \<Longrightarrow> own_inv (goto Snd (InDropS DsLoad) s)"
    and "pc s Snd = Ret r \<Longrightarrow> own_inv (goto Snd (InDropS DsLoad) (log_ret Snd r s))"
    and "pc s (Rcv i) = Idle \<Longrightarrow> own_inv (goto (Rcv i) (InRecv RcLoad) s)"
    and "may_own s \<Longrightarrow> own_inv (goto (Rcv i) (InPoll (PoLoad w)) (take_over (Rcv i) s))"
    and "may_own s \<Longrightarrow> own_inv (goto (Rcv i) (InDropR DrLoad) (take_over (Rcv i) s))"
    and "pc s (Rcv i) = Ret r \<Longrightarrow> own_inv (goto (Rcv i) Idle (hand_back (Rcv i) (log_ret (Rcv i) r s)))"
    and "instr f (pc s a) = IParked \<Longrightarrow> own_inv (adv f a Done s)"
proof -
  have id: "may_own s \<Longrightarrow> pc s (Rcv j) = Idle" for j by (simp add: may_own_def)
  have sd: "pc s Snd \<noteq> InDropR q" for q using ctl_side(1)[OF I, of Snd] by auto
  note ev = stepped_def goto_def log_ret_def take_over_def hand_back_def
  show "pc s Snd = Idle \<Longrightarrow> own_inv (goto Snd (InSend (SendLoad v)) (s\<lparr>sent := Some v\<rparr>))"
    by (rule own_stepped[OF O, where a = Snd and p = "InSend (SendLoad v)"]) (auto simp: ev)
  show "pc s Snd = Idle \<Longrightarrow> own_inv (goto Snd (InDropS DsLoad) s)"
    by (rule own_stepped[OF O, where a = Snd and p = "InDropS DsLoad"]) (auto simp: ev)
  show "pc s Snd = Ret r \<Longrightarrow> own_inv (goto Snd (InDropS DsLoad) (log_ret Snd r s))"
    by (rule own_stepped[OF O, where a = Snd and p = "InDropS DsLoad"]) (auto simp: ev)
  show "pc s (Rcv i) = Idle \<Longrightarrow> own_inv (goto (Rcv i) (InRecv RcLoad) s)"
    by (rule own_stepped[OF O, where a = "Rcv i" and p = "InRecv RcLoad"]) (auto simp: ev)
  have other: "pc s b \<noteq> InDropR q" if "may_own s" for b q using that id sd by (cases b) auto
  show "own_inv (goto (Rcv i) (InPoll (PoLoad w)) (take_over (Rcv i) s))" if m: "may_own s"
    by (rule own_stepped[OF O, where a = "Rcv i" and p = "InPoll (PoLoad w)"])
      (use id[OF m] other[OF m] in \<open>auto simp: ev\<close>)
  show "own_inv (goto (Rcv i) (InDropR DrLoad) (take_over (Rcv i) s))" if m: "may_own s"
  proof (rule own_stepped[OF O, where a = "Rcv i" and p = "InDropR DrLoad"])
    show "rcv_view (goto (Rcv i) (InDropR DrLoad) (take_over (Rcv i) s))
        \<subseteq> view (goto (Rcv i) (InDropR DrLoad) (take_over (Rcv i) s)) (Rcv i)"
      using idle_views[OF O m] by (auto simp: rcv_view_def goto_def take_over_def split: if_splits)
  qed (use id[OF m] other[OF m] in \<open>auto simp: ev\<close>)
  show "pc s (Rcv i) = Ret r \<Longrightarrow> own_inv (goto (Rcv i) Idle (hand_back (Rcv i) (log_ret (Rcv i) r s)))"
    by (rule own_stepped[OF O, where a = "Rcv i" and p = Idle]) (auto simp: ev)
  show "own_inv (adv f a Done s)" if "instr f (pc s a) = IParked"
    using instr_block(2)[OF that]
    by (intro own_stepped[OF O, where a = a and p = "InRecv RcReload"]) (auto simp: ev adv_def)
qed

lemma own_unpark:
  assumes O: "own_inv s"
  shows "own_inv (unpark_all s)"
proof -
  have D: "data_inv s" and W: "waker_inv s" and E: "event_inv s" and F: "faults s = []"
    using O by (simp_all add: own_inv_def)
  let ?t = "unpark_all s"
  have eq: "pc ?t a = (if pc s a = InRecv RcParked then InRecv RcReload else pc s a)" for a
    by (simp add: unpark_all_def)
  have fr: "mval ?t = mval s" "mview ?t = mview s" "top ?t = top s" "accs ?t = accs s" "data ?t = data s"
    "waker ?t = waker s" "view ?t = view s" "seen ?t = seen s" "clock ?t = clock s" "own_view ?t = own_view s"
    "faults ?t = faults s" "rcv_view ?t = rcv_view s"
    by (simp_all add: unpark_all_def rcv_view_def)
  have q: "quiet s ?t" by (simp add: quiet_def fr)
  have p: "holds_data (pc ?t a) \<longleftrightarrow> holds_data (pc s a)" "prewrite (pc ?t a) \<longleftrightarrow> prewrite (pc s a)"
    "holds_waker (pc ?t a) \<longleftrightarrow> holds_waker (pc s a)" "writes_waker (pc ?t a) \<longleftrightarrow> writes_waker (pc s a)"
    "pc ?t a = InSend SendAcq \<longleftrightarrow> pc s a = InSend SendAcq" "pc ?t a = Gone \<longleftrightarrow> pc s a = Gone"
    "pc ?t a = Idle \<longleftrightarrow> pc s a = Idle" "pc ?t a = InDropR x \<longleftrightarrow> pc s a = InDropR x"
    "pc ?t a \<in> {InDropS DsDealloc, InDropR DrDealloc} \<longleftrightarrow> pc s a \<in> {InDropS DsDealloc, InDropR DrDealloc}" for a x
    by (auto simp: eq)
  have "data_inv ?t" by (rule data_quiet[OF D q]) (simp_all add: fr p)
  moreover have "waker_inv ?t"
    by (rule waker_quiet[OF W q]) (auto simp: fr p intro: waker_known_quiet[OF _ q])
  moreover have "event_inv ?t" using E unfolding event_inv_def fr p .
  ultimately show ?thesis using F by (simp add: own_inv_def fr)
qed

lemma own_wake_all:
  assumes I: "ctl_inv f s" and O: "own_inv s" and ins: "instr f (pc s a) = IWakeAll"
  shows "own_inv (unpark_all (adv f a Done (touch a s)))"
proof (rule own_unpark)
  have act: "instr f (pc s a) \<noteq> INone" using ins by simp
  show "own_inv (adv f a Done (touch a s))"
    by (rule own_observed[OF I O act observed_load(2)])
      (use instr_block(3)[OF ins] in \<open>auto simp: keeps_def\<close>)
qed

text \<open>The deallocating thread knows every event, so freeing races with nothing.\<close>

lemma own_dealloc:
  assumes I: "ctl_inv f s" and O: "own_inv s" and ins: "instr f (pc s a) = IDealloc"
  shows "own_inv (adv f a Done (dealloc a s))" (is "own_inv ?t")
proof -
  have D: "data_inv s" and W: "waker_inv s" and E: "event_inv s" and F: "faults s = []"
    using O by (simp_all add: own_inv_def)
  have act: "instr f (pc s a) \<noteq> INone" using ins by simp
  have ps: "pc s a \<in> {InDropS DsDealloc, InDropR DrDealloc}" using instr_block(4)[OF ins] by auto
  note all = event_known(6)[OF E ps] and og = dealloc_other_gone[OF I ins] and ac = acting[OF I act]
  have nx: "nxt f (pc s a) Done = Gone" using ps by auto
  have fr: "mval ?t = mval s" "mview ?t = mview s" "top ?t = top s" "accs ?t = accs s" "data ?t = data s"
    "waker ?t = waker s" "seen ?t = seen s" "own_view ?t = own_view s" "clock ?t = Suc (clock s)"
    "view ?t = (view s)(a := insert (clock s) (view s a))" "faults ?t = []"
    using all F ctl_live[OF I act] by (simp_all add: adv_def goto_def dealloc_def touch_def uaf_def)
  have pc: "pc ?t b = (if b = a then Gone else pc s b)" for b
    using nx by (simp add: adv_def goto_def dealloc_def touch_def)
  have q: "quiet s ?t" by (auto simp: quiet_def fr)
  have "data_inv ?t"
    by (rule data_quiet[OF D q]) (use ps in \<open>auto simp: fr pc split: if_splits\<close>)
  moreover have "waker_inv ?t"
  proof (rule waker_quiet[OF W q])
    show "waker_known b ?t" if "waker_known b s" for b
      by (rule waker_known_quiet[OF that q]) (use ps in \<open>auto simp: fr pc\<close>)
  qed (use ps og(3) in \<open>auto simp: fr pc\<close>)
  moreover have "event_inv ?t"
  proof -
    have gone: "pc ?t Snd = Gone" "\<exists>i. pc ?t (Rcv i) = Gone"
      using og(1,2) pc by (cases a; auto)+
    have "{..<clock ?t} \<subseteq> view ?t a" using all by (auto simp: fr less_Suc_eq)
    moreover have "view ?t a \<subseteq> view ?t Snd \<union> rcv_view ?t" by (cases a) (auto simp: rcv_view_def)
    ultimately have 1: "{..<clock ?t} \<subseteq> view ?t Snd \<union> rcv_view ?t" by (rule subset_trans)
    have 4: "view ?t (Rcv i) \<subseteq> own_view ?t" if "pc ?t (Rcv i) = Idle" for i
      using that event_known(4)[OF E, of i] pc[of "Rcv i"] by (simp add: fr split: if_splits)
    have 5: "pc ?t (Rcv i) \<noteq> InDropR x" for i x
    proof
      assume d: "pc ?t (Rcv i) = InDropR x"
      then have ds: "pc s (Rcv i) = InDropR x" "Rcv i \<noteq> a" using pc by (auto split: if_splits)
      then have "a = Snd" using ac(3)[of "Rcv i" x] by auto
      then obtain j where "pc s (Rcv j) = Gone" using og(1) by auto
      then show False using ctl_Gone_excl[OF I, of j i] ds by (cases "i = j") auto
    qed
    have 6: "pc ?t b \<notin> {InDropS DsDealloc, InDropR DrDealloc}" for b
      using ac(2)[of b] pc[of b] by (cases "b = a") auto
    show ?thesis unfolding event_inv_def using 1 4 5 6 gone by blast
  qed
  ultimately show ?thesis by (simp add: own_inv_def fr)
qed

section \<open>Every step\<close>

lemma own_step:
  assumes "ctl_inv f s" and "own_inv s" and "chan_step f mb ww s t"
  shows "own_inv t"
  using assms(3,1,2)
proof cases
  case (cas_ok a op cur)
  then show ?thesis using own_cas_ok[OF assms(1,2)] by simp
qed (auto intro: own_calls own_load own_acquire own_cas_fail own_write_data own_read_data own_waker_cells
    own_wait own_wake_all own_dealloc assms(1,2))

end
