(* ===== verification/OneshotFate.thy ===== *)
theory OneshotFate
  imports OneshotRace
begin

text \<open>
  What happens to the value given to \<^verbatim>\<open>send\<close>: an abstract machine with one token, the
  function that reads its state off the channel, and the proof that every step of the
  channel is a step of the machine or leaves it alone. The value is never duplicated and
  never lost.
\<close>

section \<open>The abstract machine\<close>

text \<open>
  Not sent; carried by a thread (in an argument or a result); stored in the cell; returned
  to the caller of a completed call; dropped by \<^verbatim>\<open>drop_receiver\<close>.
\<close>

datatype 'v fate = Unsent | Carried agent 'v | InCell 'v | Returned agent 'v | Discarded 'v

inductive fate_step :: "'v fate \<Rightarrow> 'v fate \<Rightarrow> bool" where
  give: "fate_step Unsent (Carried Snd v)"
| store: "fate_step (Carried Snd v) (InCell v)"
| take_out: "fate_step (InCell v) (Carried a v)"
| hand_over: "fate_step (Carried a v) (Returned a v)"
| discard: "fate_step (InCell v) (Discarded v)"

section \<open>The machine's state in the channel\<close>

fun ret_value :: "'v ret \<Rightarrow> 'v option" where
  "ret_value (SendErr x) = x"
| "ret_value (RecvRet x) = x"
| "ret_value (PollReady x) = x"
| "ret_value _ = None"

fun carries :: "('v, 'w) pc \<Rightarrow> 'v option" where
  "carries (InSend (SendLoad v)) = Some v"
| "carries (InSend (SendWrite v _)) = Some v"
| "carries (Ret r) = ret_value r"
| "carries _ = None"

definition returned :: "('v, 'w) chan \<Rightarrow> (agent \<times> 'v) list" where
  "returned s = concat (map (\<lambda>(a, r). case ret_value r of None \<Rightarrow> [] | Some v \<Rightarrow> [(a, v)]) (rets s))"

definition carrying :: "('v, 'w) chan \<Rightarrow> agent \<Rightarrow> 'v option" where
  "carrying s = (\<lambda>a. carries (pc s a))"

lemma carrying_upd: "pc t = (pc s)(a := p) \<Longrightarrow> carrying t = (carrying s)(a := carries p)"
  by (auto simp: carrying_def)

lemma carrying_at: "carries (pc s a) = carrying s a"
  by (simp add: carrying_def)

text \<open>The value is at the place \<open>\<phi>\<close> and nowhere else.\<close>

definition fate_of :: "('v, 'w) chan \<Rightarrow> 'v fate \<Rightarrow> bool" where
  "fate_of s \<phi> \<longleftrightarrow>
     carrying s = (case \<phi> of Carried a v \<Rightarrow> [a \<mapsto> v] | _ \<Rightarrow> Map.empty)
     \<and> data s = (case \<phi> of InCell v \<Rightarrow> Some v | _ \<Rightarrow> None)
     \<and> returned s = (case \<phi> of Returned a v \<Rightarrow> [(a, v)] | _ \<Rightarrow> [])
     \<and> lost s = (case \<phi> of Discarded v \<Rightarrow> [v] | _ \<Rightarrow> [])
     \<and> sent s = (case \<phi> of Unsent \<Rightarrow> None | Carried a v \<Rightarrow> Some v | InCell v \<Rightarrow> Some v
                 | Returned a v \<Rightarrow> Some v | Discarded v \<Rightarrow> Some v)"

lemma fate_unique: "fate_of s \<phi> \<Longrightarrow> fate_of s \<psi> \<Longrightarrow> \<phi> = \<psi>"
  by (cases \<phi>; cases \<psi>; simp add: fate_of_def) (metis fun_upd_apply option.distinct(1) option.inject)

lemma fate_carried: "fate_of s \<phi> \<Longrightarrow> carries (pc s a) = Some v \<Longrightarrow> \<phi> = Carried a v"
  by (cases \<phi>) (auto simp: fate_of_def carrying_at split: if_splits)

text \<open>The sender is idle only before \<^verbatim>\<open>send\<close>, which consumes it.\<close>

definition fate_inv :: "('v, 'w) chan \<Rightarrow> bool" where
  "fate_inv s \<longleftrightarrow> (\<exists>\<phi>. fate_of s \<phi>) \<and> (pc s Snd = Idle \<longrightarrow> sent s = None)"

lemma fate_channel: "fate_of channel Unsent"
  by (simp add: fate_of_def carrying_def channel_def mem_new_def mem.defs returned_def)

section \<open>Steps\<close>

text \<open>A step that moves no value.\<close>

lemma fate_same:
  assumes "fate_of s \<phi>" and "carrying t = carrying s" and "data t = data s"
    and "returned t = returned s" and "lost t = lost s" and "sent t = sent s"
  shows "fate_of t \<phi>"
  using assms by (simp add: fate_of_def)

definition fate_move :: "('v, 'w) chan \<Rightarrow> ('v, 'w) chan \<Rightarrow> bool" where
  "fate_move s t \<longleftrightarrow> (\<forall>\<phi>. fate_of s \<phi> \<longrightarrow> (\<exists>\<psi>. fate_of t \<psi> \<and> (\<psi> = \<phi> \<or> fate_step \<phi> \<psi>)))"

lemma fate_moveI:
  assumes "\<And>\<phi>. fate_of s \<phi> \<Longrightarrow> \<phi> = \<phi>0" and "fate_of s \<phi>0 \<Longrightarrow> fate_of t \<psi>" and "fate_step \<phi>0 \<psi>"
  shows "fate_move s t"
  unfolding fate_move_def
proof (intro allI impI)
  fix \<phi> assume F: "fate_of s \<phi>"
  then have "\<phi> = \<phi>0" by (rule assms(1))
  with F assms(2,3) show "\<exists>\<psi>. fate_of t \<psi> \<and> (\<psi> = \<phi> \<or> fate_step \<phi> \<psi>)" by auto
qed

lemma fate_move_same: "(\<And>\<phi>. fate_of s \<phi> \<Longrightarrow> fate_of t \<phi>) \<Longrightarrow> fate_move s t"
  by (auto simp: fate_move_def)

lemma fate_keep:
  assumes "carries (nxt f (pc s a) r) = carries (pc s a)" and "data m = data s"
    and "pc m = pc s" "rets m = rets s" "lost m = lost s" "sent m = sent s"
  shows "fate_move s (adv f a r m)"
proof -
  have "fate_of (adv f a r m) \<phi>" if "fate_of s \<phi>" for \<phi>
    by (rule fate_same[OF that]) (use assms in \<open>auto simp: adv_def goto_def returned_def carrying_def\<close>)
  then show ?thesis by (auto simp: fate_move_def)
qed

lemma carries_loops [simp]:
  "carries (recv_loop f c) = None" "carries (poll_loop w c) = None"
  "carries (drop_sender_loop f c) = None" "carries (drop_receiver_loop f c) = None"
  "carries (drop_receiver_tail f c) = None" "carries (try_wake_after_ready f c) = None"
  by (simp_all add: loop_defs)

lemma data_frame [step_simps]:
  "data (touch a s) = data s" "data (load_relaxed a k s) = data s" "data (load_acquire a k s) = data s"
  "data (cas_success a op c s) = data s" "data (take_waker a s) = data s" "data (write_waker a w s) = data s"
  "data (update_waker ww a w s) = data s" "data (dealloc a s) = data s" "data (log_woken s) = data s"
  by (simp_all add: mem_op_defs log_woken_def Let_def split: option.split)

lemma chan_frame [step_simps]:
  fixes s :: "('v, 'w) chan"
  shows "pc (load_relaxed a k s) = pc s" "pc (load_acquire a k s) = pc s" "pc (cas_success a op c s) = pc s"
    "pc (dealloc a s) = pc s"
    "rets (touch a s) = rets s" "rets (load_relaxed a k s) = rets s" "rets (load_acquire a k s) = rets s"
    "rets (cas_success a op c s) = rets s" "rets (take_waker a s) = rets s" "rets (write_waker a w s) = rets s"
    "rets (update_waker ww a w s) = rets s" "rets (dealloc a s) = rets s" "rets (log_woken s) = rets s"
    "rets (write_data a v s) = rets s" "rets (read_data a s) = rets s" "rets (log_lost a s) = rets s"
    "lost (touch a s) = lost s" "lost (load_relaxed a k s) = lost s" "lost (load_acquire a k s) = lost s"
    "lost (cas_success a op c s) = lost s" "lost (take_waker a s) = lost s" "lost (write_waker a w s) = lost s"
    "lost (update_waker ww a w s) = lost s" "lost (dealloc a s) = lost s" "lost (log_woken s) = lost s"
    "lost (write_data a v s) = lost s" "lost (read_data a s) = lost s"
    "sent (touch a s) = sent s" "sent (load_relaxed a k s) = sent s" "sent (load_acquire a k s) = sent s"
    "sent (cas_success a op c s) = sent s" "sent (take_waker a s) = sent s" "sent (write_waker a w s) = sent s"
    "sent (update_waker ww a w s) = sent s" "sent (dealloc a s) = sent s" "sent (log_woken s) = sent s"
    "sent (write_data a v s) = sent s" "sent (read_data a s) = sent s" "sent (log_lost a s) = sent s"
  by (simp_all add: mem_op_defs log_woken_def log_lost_def Let_def split: option.split pc.split)

lemma fate_loads:
  shows "instr f (pc s a) = ILoad \<Longrightarrow> fate_move s (adv f a (Loaded v) (load_relaxed a k s))"
    and "instr f (pc s a) = IAcquire \<Longrightarrow> fate_move s (adv f a (Loaded v) (load_acquire a k s))"
    and "instr f (pc s a) = ICas op c \<Longrightarrow> fate_move s (adv f a CasOk (cas_success a op c s))"
    and "instr f (pc s a) = ICas op c \<Longrightarrow> fate_move s (adv f a (CasFail v) (load_relaxed a k s))"
proof -
  show "fate_move s (adv f a (Loaded v) (load_relaxed a k s))" if "instr f (pc s a) = ILoad"
    by (rule fate_keep; use that in \<open>cases rule: instr_ILoad\<close>) (simp_all add: step_simps)
  show "fate_move s (adv f a (Loaded v) (load_acquire a k s))" if "instr f (pc s a) = IAcquire"
    by (rule fate_keep; use that in \<open>cases rule: instr_IAcquire\<close>) (simp_all add: step_simps)
  show "fate_move s (adv f a CasOk (cas_success a op c s))" if "instr f (pc s a) = ICas op c"
    by (rule fate_keep; use that in \<open>cases rule: instr_ICas\<close>)
      (simp_all add: step_simps Let_def)
  show "fate_move s (adv f a (CasFail v) (load_relaxed a k s))" if "instr f (pc s a) = ICas op c"
    by (rule fate_keep; use that in \<open>cases rule: instr_ICas\<close>)
      (simp_all add: step_simps)
qed

lemma fate_cells:
  shows "instr f (pc s a) = IWakeWaker \<Longrightarrow> fate_move s (adv f a Done (take_waker a (log_woken s)))"
    and "instr f (pc s a) = IDropWaker \<Longrightarrow> fate_move s (adv f a Done (take_waker a s))"
    and "instr f (pc s a) = IWriteWaker w \<Longrightarrow> fate_move s (adv f a Done (write_waker a w s))"
    and "instr f (pc s a) = IUpdateWaker w \<Longrightarrow> fate_move s (adv f a Done (update_waker ww a w s))"
    and "instr f (pc s a) = IDealloc \<Longrightarrow> fate_move s (adv f a Done (dealloc a s))"
    and "instr f (pc s a) = IWait c \<Longrightarrow> fate_move s (adv f a Done (touch a s))"
    and "instr f (pc s a) = IWait c \<Longrightarrow> fate_move s (adv f a (Loaded v) (load_relaxed a k s))"
    and "instr f (pc s a) = IParked \<Longrightarrow> fate_move s (adv f a Done s)"
    and "instr f (pc s a) = IWakeAll \<Longrightarrow> fate_move s (adv f a Done (touch a s))"
proof -
  note fk = fate_keep and ev = step_simps
  show "fate_move s (adv f a Done (take_waker a (log_woken s)))" if "instr f (pc s a) = IWakeWaker"
    by (rule fk) (use instr_waker(1)[OF that] in \<open>auto simp: ev\<close>)
  show "fate_move s (adv f a Done (take_waker a s))" if "instr f (pc s a) = IDropWaker"
    by (rule fk) (use instr_waker(2)[OF that] in \<open>auto simp: ev\<close>)
  show "fate_move s (adv f a Done (write_waker a w s))" if "instr f (pc s a) = IWriteWaker w"
    by (rule fk) (use instr_waker(3)[OF that] in \<open>auto simp: ev\<close>)
  show "fate_move s (adv f a Done (update_waker ww a w s))" if "instr f (pc s a) = IUpdateWaker w"
    by (rule fk) (use instr_waker(4)[OF that] in \<open>auto simp: ev\<close>)
  show "fate_move s (adv f a Done (dealloc a s))" if "instr f (pc s a) = IDealloc"
    by (rule fk) (use instr_block(4)[OF that] in \<open>auto simp: ev\<close>)
  show "fate_move s (adv f a Done (touch a s))" if "instr f (pc s a) = IWait c"
    by (rule fk) (use instr_block(1)[OF that] in \<open>auto simp: ev\<close>)
  show "fate_move s (adv f a (Loaded v) (load_relaxed a k s))" if "instr f (pc s a) = IWait c"
    by (rule fk) (use instr_block(1)[OF that] in \<open>auto simp: ev\<close>)
  show "fate_move s (adv f a Done s)" if "instr f (pc s a) = IParked"
    by (rule fk) (use instr_block(2)[OF that] in \<open>auto simp: ev\<close>)
  show "fate_move s (adv f a Done (touch a s))" if "instr f (pc s a) = IWakeAll"
    by (rule fk) (use instr_block(3)[OF that] in \<open>auto simp: ev\<close>)
qed

text \<open>The two instructions that move the value.\<close>

lemma fate_write:
  assumes I: "ctl_inv f s" and ins: "instr f (pc s a) = IWriteData v"
  shows "fate_move s (adv f a Done (write_data a v s))" (is "fate_move s ?t")
proof -
  obtain c where p: "pc s a = InSend (SendWrite v c)" using instr_data(1)[OF ins] by blast
  then have a: "a = Snd" using side_snd[OF I, of a] by simp
  have fr: "data ?t = Some v" "returned ?t = returned s" "sent ?t = sent s" "lost ?t = lost s"
    "pc ?t = (pc s)(Snd := InSend (SendCas c))"
    using p a by (simp_all add: adv_def goto_def step_simps returned_def) (simp_all add: write_data_def Let_def)
  show ?thesis
  proof (rule fate_moveI[OF _ _ fate_step.store])
    show "\<phi> = Carried Snd v" if "fate_of s \<phi>" for \<phi> using fate_carried[OF that, of Snd v] p a by simp
    show "fate_of ?t (InCell v)" if "fate_of s (Carried Snd v)"
      using that by (simp add: fate_of_def fr(1-4) carrying_upd[OF fr(5)])
  qed
qed

lemma fate_read:
  assumes O: "own_inv s" and ins: "instr f (pc s a) = IReadData"
  shows "fate_move s (adv f a (Got (data s)) (read_data a (log_lost a s)))"
proof -
  have "holds_data (pc s a)" using instr_data(2)[OF ins] by auto
  then obtain v where v: "data s = Some v" using O data_held(1) by (auto simp: own_inv_def)
  have cell: "fate_of s \<phi> \<Longrightarrow> \<phi> = InCell v" for \<phi> using v by (cases \<phi>) (auto simp: fate_of_def)
  define t where "t = adv f a (Got (data s)) (read_data a (log_lost a s))"
  define p where "p = nxt f (pc s a) (Got (data s))"
  have fr: "data t = None" "returned t = returned s" "sent t = sent s" "lost t = lost (log_lost a s)"
    "pc t = (pc s)(a := p)"
    unfolding t_def p_def
    by (simp_all add: adv_def goto_def step_simps returned_def) (simp_all add: read_data_def Let_def)
  have "fate_move s t"
  proof (cases "\<exists>c. pc s a = InDropR (DrRead c)")
    case True
    then have 1: "carries p = None" "lost (log_lost a s) = lost s @ [v]"
      using v by (auto simp: log_lost_def p_def)
    show ?thesis
      by (rule fate_moveI[OF cell _ fate_step.discard])
        (simp_all add: fate_of_def fr(1-4) carrying_upd[OF fr(5)] 1)
  next
    case False
    then have 1: "carries p = Some v" "lost (log_lost a s) = lost s"
      using v instr_data(2)[OF ins] by (auto simp: log_lost_def p_def)
    show ?thesis
      by (rule fate_moveI[OF cell _ fate_step.take_out])
        (simp_all add: fate_of_def fr(1-4) carrying_upd[OF fr(5)] 1)
  qed
  then show ?thesis by (simp add: t_def)
qed

lemma fate_return:
  assumes p: "pc s a = Ret r" and t: "pc t = (pc s)(a := p)" "carries p = None" "data t = data s"
    "rets t = rets s @ [(a, r)]" "lost t = lost s" "sent t = sent s"
  shows "fate_move s t"
proof -
  show ?thesis
  proof (cases "ret_value r")
    case None
    then have "returned t = returned s" "carrying t = carrying s"
      using t p by (auto simp: returned_def carrying_def)
    then show ?thesis using t by (intro fate_move_same) (auto intro: fate_same)
  next
    case (Some v)
    have r: "returned t = returned s @ [(a, v)]" using t Some by (simp add: returned_def)
    show ?thesis
    proof (rule fate_moveI[OF _ _ fate_step.hand_over])
      show "\<phi> = Carried a v" if "fate_of s \<phi>" for \<phi> using fate_carried[OF that] p Some by simp
      show "fate_of t (Returned a v)" if "fate_of s (Carried a v)"
        using that t(2-) r by (simp add: fate_of_def carrying_upd[OF t(1)])
    qed
  qed
qed

lemma fate_calls:
  assumes "fate_inv s"
  shows "pc s Snd = Idle \<Longrightarrow> fate_move s (goto Snd (InSend (SendLoad v)) (s\<lparr>sent := Some v\<rparr>))"
    and "pc s Snd = Idle \<Longrightarrow> fate_move s (goto Snd (InDropS DsLoad) s)"
    and "pc s Snd = Ret r \<Longrightarrow> fate_move s (goto Snd (InDropS DsLoad) (log_ret Snd r s))"
    and "pc s (Rcv i) = Idle \<Longrightarrow> fate_move s (goto (Rcv i) (InRecv RcLoad) s)"
    and "may_own s \<Longrightarrow> fate_move s (goto (Rcv i) (InPoll (PoLoad w)) (take_over (Rcv i) s))"
    and "may_own s \<Longrightarrow> fate_move s (goto (Rcv i) (InDropR DrLoad) (take_over (Rcv i) s))"
    and "pc s (Rcv i) = Ret r \<Longrightarrow> fate_move s (goto (Rcv i) Idle (hand_back (Rcv i) (log_ret (Rcv i) r s)))"
proof -
  have st: "fate_move s t" if "pc t = (pc s)(a := p)" "carries p = None" "pc s a = Idle" "data t = data s"
    "rets t = rets s" "lost t = lost s" "sent t = sent s" for t a p
  proof -
    have "carrying t = carrying s" using that(1-3) by (auto simp: carrying_def)
    moreover have "returned t = returned s" using that(5) by (simp add: returned_def)
    ultimately show ?thesis using that(4,6,7) by (intro fate_move_same) (auto intro: fate_same)
  qed
  have id: "may_own s \<Longrightarrow> pc s (Rcv i) = Idle" by (simp add: may_own_def)
  show "fate_move s (goto Snd (InSend (SendLoad v)) (s\<lparr>sent := Some v\<rparr>))" (is "fate_move s ?t") if "pc s Snd = Idle"
  proof -
    have "sent s = None" using assms that by (simp add: fate_inv_def)
    then have u: "fate_of s \<phi> \<Longrightarrow> \<phi> = Unsent" for \<phi> by (cases \<phi>) (auto simp: fate_of_def)
    have "pc ?t = (pc s)(Snd := InSend (SendLoad v))" by (simp add: goto_def)
    note c = carrying_upd[OF this]
    show ?thesis
      by (rule fate_moveI[OF u _ fate_step.give[of v]]) (simp_all add: fate_of_def c, simp_all add: goto_def returned_def)
  qed
  show "pc s Snd = Idle \<Longrightarrow> fate_move s (goto Snd (InDropS DsLoad) s)"
    by (rule st[where a = Snd and p = "InDropS DsLoad"]) (auto simp: goto_def)
  show "pc s (Rcv i) = Idle \<Longrightarrow> fate_move s (goto (Rcv i) (InRecv RcLoad) s)"
    by (rule st[where a = "Rcv i" and p = "InRecv RcLoad"]) (auto simp: goto_def)
  show "may_own s \<Longrightarrow> fate_move s (goto (Rcv i) (InPoll (PoLoad w)) (take_over (Rcv i) s))"
    by (rule st[where a = "Rcv i" and p = "InPoll (PoLoad w)"]) (auto simp: goto_def take_over_def id)
  show "may_own s \<Longrightarrow> fate_move s (goto (Rcv i) (InDropR DrLoad) (take_over (Rcv i) s))"
    by (rule st[where a = "Rcv i" and p = "InDropR DrLoad"]) (auto simp: goto_def take_over_def id)
  show "pc s Snd = Ret r \<Longrightarrow> fate_move s (goto Snd (InDropS DsLoad) (log_ret Snd r s))"
    by (rule fate_return[where a = Snd and r = r and p = "InDropS DsLoad"]) (auto simp: goto_def log_ret_def)
  show "pc s (Rcv i) = Ret r \<Longrightarrow> fate_move s (goto (Rcv i) Idle (hand_back (Rcv i) (log_ret (Rcv i) r s)))"
    by (rule fate_return[where a = "Rcv i" and r = r and p = Idle]) (auto simp: goto_def log_ret_def hand_back_def)
qed

lemma fate_unpark:
  assumes F: "fate_of s \<phi>"
  shows "fate_of (unpark_all s) \<phi>"
proof -
  have "carrying (unpark_all s) = carrying s" by (auto simp: carrying_def unpark_all_def)
  then show ?thesis
    by (intro fate_same[OF F]) (simp_all add: unpark_all_def returned_def)
qed

lemma fate_wake_all:
  assumes ins: "instr f (pc s a) = IWakeAll"
  shows "fate_move s (unpark_all (adv f a Done (touch a s)))"
proof (rule fate_move_same)
  let ?m = "adv f a Done (touch a s)"
  have nc: "carries (pc s a) = None" using instr_block(3)[OF ins] by auto
  fix \<phi> assume F: "fate_of s \<phi>"
  have "carrying ?m = carrying s"
    using instr_block(3)[OF ins] by (auto simp: carrying_def adv_def goto_def step_simps)
  then have "fate_of ?m \<phi>"
    by (intro fate_same[OF F]) (simp_all add: adv_def goto_def step_simps returned_def)
  then show "fate_of (unpark_all ?m) \<phi>"
    by (rule fate_unpark)
qed

section \<open>Every step\<close>

lemma nxt_Idle:
  assumes "instr f p \<noteq> INone"
  shows "nxt f p r \<noteq> Idle"
proof -
  have "send_next f q r \<noteq> Idle" for q
    by (cases "(f, q, r)" rule: send_next.cases) (auto simp: loop_defs)
  moreover have "drops_next f q r \<noteq> Idle" for q
    by (cases "(f, q, r)" rule: drops_next.cases) (auto simp: loop_defs Let_def)
  moreover have "recv_next f q r \<noteq> Idle" for q
    by (cases "(f, q, r)" rule: recv_next.cases) (auto simp: loop_defs)
  moreover have "poll_next q r \<noteq> Idle" for q
    by (cases "(q, r)" rule: poll_next.cases) (auto simp: loop_defs)
  moreover have "dropr_next f q r \<noteq> Idle" for q
    by (cases "(f, q, r)" rule: dropr_next.cases) (auto simp: loop_defs)
  ultimately show ?thesis using assms by (cases p) simp_all
qed

definition unsent :: "('v, 'w) chan \<Rightarrow> bool" where
  "unsent s \<longleftrightarrow> (pc s Snd = Idle \<longrightarrow> sent s = None)"

lemma adv_unsent:
  assumes "unsent s" and "pc m = pc s" and "sent m = sent s" and "instr f (pc s a) \<noteq> INone"
  shows "unsent (adv f a r m)"
  using assms nxt_Idle[OF assms(4)] by (auto simp: unsent_def adv_def goto_def)

lemma goto_unsent:
  assumes "unsent s" and "pc m = pc s" and "sent m = sent s" and "a \<noteq> Snd \<or> p \<noteq> Idle"
  shows "unsent (goto a p m)"
  using assms by (auto simp: unsent_def goto_def)

lemma unsent_unpark: "unsent s \<Longrightarrow> unsent (unpark_all s)"
  by (simp add: unsent_def unpark_all_def)

lemma unsent_step:
  assumes st: "chan_step f mb ww s t" and u: "unsent s"
  shows "unsent t"
  using st u
proof (induction rule: chan_step.induct)
  case (call_send s v)
  then show ?case by (simp add: unsent_def goto_def)
qed (simp_all add: adv_unsent goto_unsent unsent_unpark step_simps take_over_def hand_back_def log_ret_def)

text \<open>The refinement: each step of the channel is a step of the value's machine, or none.\<close>

lemma fate_step_move:
  assumes st: "chan_step f mb ww s t" and "ctl_inv f s" and "own_inv s" and "fate_inv s"
  shows "fate_move s t"
  using assms
proof (induction rule: chan_step.induct)
  case (wait_block s a c)
  have "carrying (goto a (InRecv RcParked) (touch a s)) = carrying s"
    using instr_block(1)[OF wait_block(2)] by (auto simp: carrying_def goto_def step_simps)
  then show ?case
    by (intro fate_move_same) (rule fate_same, simp_all add: goto_def step_simps returned_def)
qed (rule fate_calls fate_loads fate_cells fate_write fate_read fate_wake_all; assumption)+

lemma fate_inv_step:
  assumes I: "ctl_inv f s" and O: "own_inv s" and F: "fate_inv s" and st: "chan_step f mb ww s t"
  shows "fate_inv t"
proof -
  from F obtain \<phi> where "fate_of s \<phi>" by (auto simp: fate_inv_def)
  then have "\<exists>\<phi>. fate_of t \<phi>" using fate_step_move[OF st I O F] by (auto simp: fate_move_def)
  moreover have "unsent t" by (rule unsent_step[OF st]) (use F in \<open>simp add: fate_inv_def unsent_def\<close>)
  ultimately show ?thesis by (simp add: fate_inv_def unsent_def)
qed

lemma fate_inv_channel: "fate_inv channel"
  using fate_channel by (auto simp: fate_inv_def channel_def mem_new_def mem.defs)

text \<open>The channel with all its invariants, as an instance of the invariant rule.\<close>

definition chan_inv :: "features \<Rightarrow> ('v, 'w) chan \<Rightarrow> bool" where
  "chan_inv f s \<longleftrightarrow> ctl_inv f s \<and> own_inv s \<and> fate_inv s"

interpretation chan: inv_system "\<lambda>s. s = channel" "chan_step f mb ww" "chan_inv f"
  by unfold_locales
    (auto simp: chan_inv_def ctl_channel own_channel fate_inv_channel intro: ctl_step own_step fate_inv_step)

lemma chan_inv_reach: "chan_reach f mb ww s \<Longrightarrow> chan_inv f s"
  by (rule chan.reach_inv)

end
