(* ===== verification/OneshotLive.thy ===== *)
theory OneshotLive
  imports OneshotFate
begin

text \<open>
  Further invariants of the channel: who closes it, when a call may give up, and that no
  parked thread is forgotten.
\<close>

section \<open>The word under the steps that do not write it\<close>

lemma word_frame [step_simps]:
  fixes s :: "('v, 'w) chan"
  shows "mval (adv f a r s) = mval s" "top (adv f a r s) = top s"
    "mval (goto a p s) = mval s" "top (goto a p s) = top s"
    "mval (load_relaxed a k s) = mval s" "top (load_relaxed a k s) = top s"
    "mval (load_acquire a k s) = mval s" "top (load_acquire a k s) = top s"
    "mval (dealloc a s) = mval s" "top (dealloc a s) = top s"
    "mval (take_over a s) = mval s" "top (take_over a s) = top s"
    "mval (hand_back a s) = mval s" "top (hand_back a s) = top s"
    "mval (log_ret a x s) = mval s" "top (log_ret a x s) = top s"
    "mval (unpark_all s) = mval s" "top (unpark_all s) = top s"
  by (simp_all add: adv_def goto_def mem_op_defs take_over_def hand_back_def log_ret_def unpark_all_def)

lemma word_cas [step_simps]:
  "top (cas_success a op c s) = Suc (top s)"
  "mval (cas_success a op c s) = (mval s)(Suc (top s) := cas_new op c)"
  by (simp_all add: cas_success_def touch_def Let_def)

section \<open>Where the next point comes from\<close>

lemma pc_adv: "pc (adv f a r m) = (pc m)(a := nxt f (pc m a) r)"
  by (simp add: adv_def goto_def)

lemma nxt_parked:
  fixes p :: "('v, 'w) pc"
  assumes "nxt f p r = InRecv RcParked"
  shows "p = InRecv RcParked"
proof -
  have "(send_next f q r :: ('v, 'w) pc) \<noteq> InRecv RcParked" for q
    by (cases "(f, q, r)" rule: send_next.cases) (auto simp: loop_defs)
  moreover have "(drops_next f q r :: ('v, 'w) pc) \<noteq> InRecv RcParked" for q
    by (cases "(f, q, r)" rule: drops_next.cases) (auto simp: loop_defs Let_def)
  moreover have "(recv_next f q r :: ('v, 'w) pc) = InRecv RcParked \<Longrightarrow> q = RcParked" for q
    by (cases "(f, q, r)" rule: recv_next.cases) (auto simp: loop_defs split: if_splits)
  moreover have "poll_next q r \<noteq> InRecv RcParked" for q
    by (cases "(q, r)" rule: poll_next.cases) (auto simp: loop_defs)
  moreover have "(dropr_next f q r :: ('v, 'w) pc) \<noteq> InRecv RcParked" for q
    by (cases "(f, q, r)" rule: dropr_next.cases) (auto simp: loop_defs)
  ultimately show ?thesis using assms by (cases p) auto
qed

text \<open>A handle that is being destroyed stays so.\<close>

fun leaving :: "('v, 'w) pc \<Rightarrow> bool" where
  "leaving (InDropS _) = True"
| "leaving (InDropR _) = True"
| "leaving Gone = True"
| "leaving _ = False"

lemma nxt_leaving:
  fixes p :: "('v, 'w) pc"
  assumes "leaving p"
  shows "leaving (nxt f p r)"
proof -
  have "leaving (drops_next f q r :: ('v, 'w) pc)" for q
    by (cases "(f, q, r)" rule: drops_next.cases) (auto simp: loop_defs Let_def)
  moreover have "leaving (dropr_next f q r :: ('v, 'w) pc)" for q
    by (cases "(f, q, r)" rule: dropr_next.cases) (auto simp: loop_defs)
  ultimately show ?thesis using assms by (cases p) auto
qed

lemma adv_leaving: "leaving (pc s b) \<Longrightarrow> pc m = pc s \<Longrightarrow> leaving (pc (adv f a r m) b)"
  using nxt_leaving[of "pc s a" f r] by (auto simp: pc_adv)

lemma unpark_leaving: "leaving (pc s b) \<Longrightarrow> leaving (pc (unpark_all s) b)"
  by (auto simp: unpark_all_def)

lemma leaving_step:
  assumes "chan_step f mb ww s t" and "leaving (pc s b)"
  shows "leaving (pc t b)"
  using assms
proof (induction rule: chan_step.induct)
  case (wait_block s a c)
  then show ?case using instr_block(1)[OF wait_block(2)] by (auto simp: goto_def step_simps)
qed (auto simp: adv_leaving step_simps goto_def may_own_def take_over_def hand_back_def log_ret_def unpark_leaving)

lemma latest_evolves:
  assumes "ctl_inv f s" and "chan_step f mb ww s t"
  shows "evolves (latest s) (latest t)"
proof -
  have "ctl_inv f t" by (rule ctl_step[OF assms])
  moreover have "mval t (top s) = latest s \<and> top s \<le> top t"
    using assms(2) by (induction rule: chan_step.induct)
      (simp_all add: step_simps)
  ultimately show ?thesis unfolding ctl_inv_def hist_inv_def by metis
qed

section \<open>Who closes the channel\<close>

definition closed_inv :: "('v, 'w) chan \<Rightarrow> bool" where
  "closed_inv s \<longleftrightarrow> (is_closed (latest s) \<longrightarrow> (\<exists>a. leaving (pc s a)))"

lemma cas_closes:
  assumes I: "ctl_inv f s" and ins: "instr f (pc s a) = ICas op (latest s)"
    and "is_closed (cas_new op (latest s))" and "\<not> is_closed (latest s)"
  shows "leaving (pc s a)"
  using I ins by (cases rule: cas_table) (use assms(3,4) in \<open>auto simp: word_state\<close>)

lemma latest_same:
  assumes "chan_step f mb ww s t" and "top t = top s"
  shows "latest t = latest s"
  using assms by (induction rule: chan_step.induct)
    (simp_all add: step_simps)

lemma top_changes:
  assumes "chan_step f mb ww s t" and "top t \<noteq> top s"
  obtains a op where "instr f (pc s a) = ICas op (latest s)"
    and "t = adv f a CasOk (cas_success a op (latest s) s)"
  using assms by (induction rule: chan_step.induct)
    (simp_all add: step_simps)

lemma latest_cas: "latest (adv f a r (cas_success a op c s)) = cas_new op c"
  by (simp add: step_simps)

lemma closed_step:
  assumes I: "ctl_inv f s" and C: "closed_inv s" and st: "chan_step f mb ww s t"
  shows "closed_inv t"
  unfolding closed_inv_def
proof
  assume c: "is_closed (latest t)"
  have "\<exists>a. leaving (pc s a)"
  proof (cases "is_closed (latest s)")
    case True
    then show ?thesis using C by (simp add: closed_inv_def)
  next
    case False
    then have "top t \<noteq> top s" using latest_same[OF st] c by auto
    then obtain a op where "instr f (pc s a) = ICas op (latest s)"
      "t = adv f a CasOk (cas_success a op (latest s) s)" using top_changes[OF st] by blast
    then show ?thesis using cas_closes[OF I] c False by (auto simp: latest_cas)
  qed
  then show "\<exists>a. leaving (pc t a)" using leaving_step[OF st] by blast
qed

section \<open>When a call gives up\<close>

fun gives_up :: "('v, 'w) pc \<Rightarrow> bool" where
  "gives_up (Ret (RecvRet None)) = True"
| "gives_up (Ret (PollReady None)) = True"
| "gives_up _ = False"

fun lost_error :: "('v, 'w) pc \<Rightarrow> bool" where
  "lost_error (Ret (SendErr None)) = True"
| "lost_error _ = False"

lemma give_up_simps [simp]:
  "gives_up (Ret (RecvRet x)) \<longleftrightarrow> x = None" "gives_up (Ret (PollReady x)) \<longleftrightarrow> x = None"
  "lost_error (Ret (SendErr x)) \<longleftrightarrow> x = None"
  by (cases x; simp)+

text \<open>What an instruction learnt from the word.\<close>

fun word_of :: "'v outcome \<Rightarrow> u32 option" where
  "word_of (Loaded c) = Some c"
| "word_of (CasFail c) = Some c"
| "word_of _ = None"

lemma loops_give_up:
  assumes "c \<in> words f"
  shows "gives_up (recv_loop f' c) \<Longrightarrow> c \<in> {2, 8, 10}" and "gives_up (poll_loop w c) \<Longrightarrow> c \<in> {2, 8, 10}"
  using assms by (auto elim!: words_cases simp: loop_defs word_state split: if_splits)

lemma nxt_gives_up:
  fixes p :: "('v, 'w) pc"
  assumes "gives_up (nxt f p r)" and "\<And>c. word_of r = Some c \<Longrightarrow> c \<in> words f"
    and "\<And>w c. p = InPoll (PoDropWaker w c) \<Longrightarrow> c \<in> words f"
  shows "gives_up p \<or> r = Got None \<or> (\<exists>c \<in> {2, 8, 10}. word_of r = Some c \<or> (\<exists>w. p = InPoll (PoDropWaker w c)))"
proof -
  have 1: "\<not> gives_up (send_next f q r :: ('v, 'w) pc)" for q
    by (cases "(f, q, r)" rule: send_next.cases) (auto simp: loop_defs)
  have 2: "\<not> gives_up (drops_next f q r :: ('v, 'w) pc)" for q
    by (cases "(f, q, r)" rule: drops_next.cases) (auto simp: loop_defs Let_def)
  have 3: "\<not> gives_up (dropr_next f q r :: ('v, 'w) pc)" for q
    by (cases "(f, q, r)" rule: dropr_next.cases) (auto simp: loop_defs)
  have 4: "r = Got None \<or> (\<exists>c \<in> {2, 8, 10}. word_of r = Some c)" if "gives_up (recv_next f q r :: ('v, 'w) pc)" for q
    using that assms(2) loops_give_up(1)[of _ f f]
    by (cases "(f, q, r)" rule: recv_next.cases) (auto split: if_splits)
  have 5: "r = Got None \<or> (\<exists>c \<in> {2, 8, 10}. word_of r = Some c \<or> (\<exists>w. p = InPoll (PoDropWaker w c)))"
    if "gives_up (poll_next q r)" "p = InPoll q" for q
    using that assms(2,3)
    by (cases "(q, r)" rule: poll_next.cases) (auto split: if_splits dest: loops_give_up(2)[rotated])
  show ?thesis using assms(1) 1 2 3 4 5 by (cases p) auto
qed

lemma nxt_lost_error:
  fixes p :: "('v, 'w) pc"
  assumes "lost_error (nxt f p r)"
  shows "lost_error p \<or> r = Got None"
proof -
  have "r = Got None" if "lost_error (send_next f q r :: ('v, 'w) pc)" for q
    using that by (cases "(f, q, r)" rule: send_next.cases) (auto simp: loop_defs split: if_splits)
  moreover have "\<not> lost_error (drops_next f q r :: ('v, 'w) pc)" for q
    by (cases "(f, q, r)" rule: drops_next.cases) (auto simp: loop_defs Let_def)
  moreover have "\<not> lost_error (recv_next f q r :: ('v, 'w) pc)" for q
    by (cases "(f, q, r)" rule: recv_next.cases) (auto simp: loop_defs)
  moreover have "\<not> lost_error (poll_next q r)" for q :: "'w poll_pc"
    by (cases "(q, r)" rule: poll_next.cases) (auto simp: loop_defs)
  moreover have "\<not> lost_error (dropr_next f q r :: ('v, 'w) pc)" for q
    by (cases "(f, q, r)" rule: dropr_next.cases) (auto simp: loop_defs)
  ultimately show ?thesis using assms by (cases p) auto
qed

definition result_inv :: "('v, 'w) chan \<Rightarrow> bool" where
  "result_inv s \<longleftrightarrow> (\<forall>a. \<not> lost_error (pc s a)) \<and> (\<forall>a. gives_up (pc s a) \<longrightarrow> latest s \<in> {2, 8, 10})"

lemma gave_up_latest:
  assumes "evolves c l" and "c \<in> {2, 8, 10}"
  shows "l \<in> {2, 8, (10::u32)}"
  using assms by (auto simp: evolves_def)

lemma result_adv:
  assumes I: "ctl_inv f s" and R: "result_inv s" and fr: "pc m = pc s" "evolves (latest s) (latest m)"
    and r: "r \<noteq> Got None" "\<And>c. word_of r = Some c \<Longrightarrow> c \<in> words f \<and> evolves c (latest s)"
  shows "result_inv (adv f a r m)"
proof -
  have po: "c \<in> words f \<and> evolves c (latest s)" if "pc s a = InPoll (PoDropWaker w c)" for w c
    using ctl_know[OF I, of a] ctl_read(1,2)[OF I, of a "seen s a"] ctl_seen(1)[OF I, of a] that
    by (auto simp: can_read_def)
  have "\<not> lost_error (pc (adv f a r m) b)" for b
    using R nxt_lost_error[of f "pc s a" r] r(1) by (auto simp: pc_adv fr result_inv_def)
  moreover have "latest (adv f a r m) \<in> {2, 8, 10}" if g: "gives_up (pc (adv f a r m) b)" for b
  proof -
    have "latest s \<in> {2, 8, 10}"
    proof (cases "gives_up (pc s b)")
      case True
      then show ?thesis using R by (auto simp: result_inv_def)
    next
      case False
      then have ab: "a = b" "gives_up (nxt f (pc s a) r)" using g by (auto simp: pc_adv fr split: if_splits)
      obtain c where c: "c \<in> {2, 8, 10}" "evolves c (latest s)"
        using nxt_gives_up[OF ab(2)] False ab(1) r po by blast
      show ?thesis by (rule gave_up_latest[OF c(2,1)])
    qed
    then show ?thesis using gave_up_latest[OF fr(2)] by (simp add: step_simps)
  qed
  ultimately show ?thesis by (simp add: result_inv_def)
qed

lemma result_quiet:
  assumes "ctl_inv f s" and "result_inv s" and "pc m = pc s" "mval m = mval s" "top m = top s"
    and "r = Done"
  shows "result_inv (adv f a r m)"
  by (rule result_adv[OF assms(1-3)]) (use assms in \<open>simp_all add: evolves_def\<close>)

lemma result_read:
  assumes "ctl_inv f s" and "result_inv s" and "pc m = pc s" "mval m = mval s" "top m = top s"
    and "can_read a k s"
  shows "result_inv (adv f a (Loaded (mval s k)) m)" and "result_inv (adv f a (CasFail (mval s k)) m)"
  using assms(4,5) ctl_read(1,2)[OF assms(1,6)]
  by (auto intro!: result_adv[OF assms(1-3)] simp: evolves_def)

lemma result_goto:
  assumes R: "result_inv s" and "mval t = mval s" "top t = top s" and "pc t = (pc s)(a := p)"
    and "\<not> gives_up p" "\<not> lost_error p"
  shows "result_inv t"
  using assms by (auto simp: result_inv_def)

lemma result_unpark: "result_inv s \<Longrightarrow> result_inv (unpark_all s)"
  by (auto simp: result_inv_def unpark_all_def)

lemma result_step:
  assumes "chan_step f mb ww s t" and "ctl_inv f s" and "own_inv s" and "result_inv s"
  shows "result_inv t"
  using assms
proof (induction rule: chan_step.induct)
  case (cas_ok s a op cur)
  have "evolves (latest s) (cas_new op cur)"
    using latest_evolves[OF cas_ok(3) chan_step.cas_ok[OF cas_ok(1,2)]] by (simp add: latest_cas)
  then show ?case by (intro result_adv[OF cas_ok(3,5)]) (simp_all add: step_simps)
next
  case (read_data s a)
  have "holds_data (pc s a)" using instr_data(2)[OF read_data(1)] by auto
  then have "data s \<noteq> None" using read_data(3) data_held(1) by (auto simp: own_inv_def)
  then show ?case
    by (intro result_adv[OF read_data(2,4)]) (simp_all add: step_simps evolves_def)
next
  case (wake_all s a)
  then show ?case
    by (intro result_unpark result_adv[OF wake_all(2,4)]) (simp_all add: step_simps evolves_def)
next
  case (wait_block s a c)
  then show ?case
    by (intro result_goto[OF wait_block(6), where a = a and p = "InRecv RcParked"])
      (simp_all add: goto_def step_simps)
next
  case (call_poll s i w)
  then show ?case by (intro result_goto[OF call_poll(5), where a = "Rcv i" and p = "InPoll (PoLoad w)"])
      (simp_all add: goto_def take_over_def)
next
  case (call_drop_receiver s i)
  then show ?case by (intro result_goto[OF call_drop_receiver(4), where a = "Rcv i" and p = "InDropR DrLoad"])
      (simp_all add: goto_def take_over_def)
next
  case (ret_receiver s i r)
  then show ?case by (intro result_goto[OF ret_receiver(4), where a = "Rcv i" and p = Idle])
      (simp_all add: goto_def hand_back_def log_ret_def)
next
  case (ret_send s r)
  then show ?case by (intro result_goto[OF ret_send(4), where a = Snd and p = "InDropS DsLoad"])
      (simp_all add: goto_def log_ret_def)
next
  case (call_send s v)
  then show ?case by (intro result_goto[OF call_send(4), where a = Snd and p = "InSend (SendLoad v)"])
      (simp_all add: goto_def)
next
  case (call_drop_sender s)
  then show ?case by (intro result_goto[OF call_drop_sender(4), where a = Snd and p = "InDropS DsLoad"])
      (simp_all add: goto_def)
next
  case (call_recv s i)
  then show ?case by (intro result_goto[OF call_recv(6), where a = "Rcv i" and p = "InRecv RcLoad"])
      (simp_all add: goto_def)
qed (simp_all add: result_quiet result_read step_simps)

section \<open>No parked thread is forgotten\<close>

fun waking :: "('v, 'w) pc \<Rightarrow> bool" where
  "waking (InSend SendWakeAll) = True"
| "waking (InDropS (DsWakeAll _)) = True"
| "waking _ = False"

definition park_inv :: "features \<Rightarrow> ('v, 'w) chan \<Rightarrow> bool" where
  "park_inv f s \<longleftrightarrow> (\<forall>a. pc s a = InRecv RcParked \<longrightarrow> f_wait f \<and> (latest s = 4 \<or> waking (pc s Snd)))"

lemma waking_instr: "waking p \<Longrightarrow> instr f p = IWakeAll"
  by (cases p rule: waking.cases) auto

lemma park_keep:
  assumes P: "park_inv f s" and e: "latest t = latest s" "pc t = (pc s)(a := p)"
    and p: "p \<noteq> InRecv RcParked" "\<not> waking (pc s a)"
  shows "park_inv f t"
  using P unfolding park_inv_def e fun_upd_apply by (metis p)

lemma park_adv:
  assumes P: "park_inv f s" and i: "instr f (pc s a) \<notin> {IParked, IWakeAll}" and fr: "pc m = pc s" "latest m = latest s"
  shows "park_inv f (adv f a r m)"
proof (rule park_keep[OF P, where a = a and p = "nxt f (pc s a) r"])
  show "nxt f (pc s a) r \<noteq> InRecv RcParked" using nxt_parked[of f "pc s a" r] i by auto
  show "\<not> waking (pc s a)" using waking_instr[of "pc s a" f] i by auto
qed (simp_all add: step_simps fr pc_adv)

lemma park_cas:
  assumes I: "ctl_inv f s" and P: "park_inv f s" and ins: "instr f (pc s a) = ICas op (latest s)"
  shows "park_inv f (adv f a CasOk (cas_success a op (latest s) s))" (is "park_inv f ?t")
  unfolding park_inv_def
proof (intro allI impI)
  fix b assume b: "pc ?t b = InRecv RcParked"
  have "nxt f (pc s a) CasOk \<noteq> InRecv RcParked" using nxt_parked[of f "pc s a" CasOk] ins by auto
  then have s: "pc s b = InRecv RcParked" "b \<noteq> a" using b by (auto simp: pc_adv step_simps split: if_splits)
  then have w: "f_wait f" "latest s = 4 \<or> waking (pc s Snd)" using P by (auto simp: park_inv_def)
  have nw: "\<not> waking (pc s a)" using waking_instr[of "pc s a" f] ins by auto
  obtain j where j: "b = Rcv j" using ctl_side(1)[OF I, of b] s by auto
  from I ins have "latest ?t = 4 \<or> waking (pc ?t Snd)"
  proof (cases rule: cas_table)
    case (send l)
    then show ?thesis using w nw by (auto simp: pc_adv step_simps try_wake_after_ready_def word_state)
  next
    case ds_closed_wake
    then show ?thesis using w nw by (auto simp: pc_adv step_simps word_state Let_def)
  next
    case (dr_drop i)
    then show ?thesis using w nw ctl_excl[OF I, of i j] s j by (auto simp: pc_adv step_simps)
  qed (use w nw in \<open>auto simp: pc_adv step_simps\<close>)
  then show "f_wait f \<and> (latest ?t = 4 \<or> waking (pc ?t Snd))" using w by simp
qed

lemma park_goto:
  assumes P: "park_inv f s" and e: "mval t = mval s" "top t = top s" "pc t = (pc s)(a := p)"
    and p: "p \<noteq> InRecv RcParked" "\<not> waking (pc s a)"
  shows "park_inv f t"
  by (rule park_keep[OF P _ e(3) p]) (simp add: e)

lemma park_block:
  assumes I: "ctl_inv f s" and P: "park_inv f s" and w: "f_wait f" and ins: "instr f (pc s a) = IWait cur"
    and l: "latest s = cur"
  shows "park_inv f (goto a (InRecv RcParked) (touch a s))"
proof -
  have p: "pc s a = InRecv (RcWait cur)" by (rule instr_block(1)[OF ins])
  then obtain i where i: "a = Rcv i" using ctl_side(1)[OF I, of a] by auto
  have "latest s \<noteq> 28" using ctl_excl_28[OF I, of i] p i by auto
  then have "latest s = 4" using ctl_know[OF I, of a] p l by auto
  then show ?thesis using w by (simp add: park_inv_def step_simps)
qed

lemma park_wake_all:
  assumes P: "park_inv f s"
  shows "park_inv f (unpark_all s)"
  by (auto simp: park_inv_def unpark_all_def)

text \<open>
  This is where blocking must be exact: a wait may only block when the word has the
  expected value.
\<close>

lemma park_step:
  assumes mb: "\<And>v e. mb v e \<Longrightarrow> v = e"
  assumes "chan_step f mb ww s t" and "ctl_inv f s" and "park_inv f s"
  shows "park_inv f t"
  using assms(2-)
proof (induction rule: chan_step.induct)
  case (cas_ok s a op cur)
  then show ?case using park_cas by metis
next
  case (wait_block s a c)
  then show ?case using park_block mb by metis
next
  case (wake_all s a)
  then show ?case by (simp add: park_inv_def unpark_all_def)
next
  case (wait_wakeup s a)
  then show ?case using instr_block(2)[OF wait_wakeup(1)]
    by (intro park_goto[OF wait_wakeup(3), where a = a and p = "InRecv RcReload"]) (simp_all add: step_simps pc_adv)
next
  case (call_poll s i w)
  then show ?case by (intro park_goto[OF call_poll(4), where a = "Rcv i" and p = "InPoll (PoLoad w)"])
      (simp_all add: goto_def take_over_def may_own_def)
next
  case (call_drop_receiver s i)
  then show ?case by (intro park_goto[OF call_drop_receiver(3), where a = "Rcv i" and p = "InDropR DrLoad"])
      (simp_all add: goto_def take_over_def may_own_def)
next
  case (ret_receiver s i r)
  then show ?case by (intro park_goto[OF ret_receiver(3), where a = "Rcv i" and p = Idle])
      (simp_all add: goto_def hand_back_def log_ret_def)
next
  case (ret_send s r)
  then show ?case by (intro park_goto[OF ret_send(3), where a = Snd and p = "InDropS DsLoad"])
      (simp_all add: goto_def log_ret_def)
next
  case (call_send s v)
  then show ?case by (intro park_goto[OF call_send(3), where a = Snd and p = "InSend (SendLoad v)"])
      (simp_all add: goto_def)
next
  case (call_drop_sender s)
  then show ?case by (intro park_goto[OF call_drop_sender(3), where a = Snd and p = "InDropS DsLoad"])
      (simp_all add: goto_def)
next
  case (call_recv s i)
  then show ?case by (intro park_goto[OF call_recv(5), where a = "Rcv i" and p = "InRecv RcLoad"])
      (simp_all add: goto_def)
qed (simp_all add: park_adv step_simps)

end
