(* ===== verification/OneshotRun.thy ===== *)
theory OneshotRun
  imports OneshotLive
begin

text \<open>
  Concrete runs: a scheduler that fires one labelled step at a time, proved to stay
  inside the step relation, and complete runs of the channel evaluated with it.
\<close>

section \<open>Labelled steps\<close>

text \<open>
  \<open>LStep a k\<close> lets thread \<open>a\<close> execute its next instruction; a load returns message \<open>k\<close>,
  and an exchange succeeds if it can. \<open>LFail a k\<close> makes the exchange fail on message \<open>k\<close>,
  \<open>LBlock a\<close> parks a waiting thread.
\<close>

datatype ('v, 'w) label =
    LSend 'v
  | LDropSender
  | LRecv nat
  | LPoll nat 'w
  | LDropReceiver nat
  | LReturn agent
  | LStep agent nat
  | LFail agent nat
  | LBlock agent

fun fire_insn ::
  "features \<Rightarrow> ('w \<Rightarrow> 'w \<Rightarrow> bool) \<Rightarrow> agent \<Rightarrow> nat \<Rightarrow> ('v, 'w) insn \<Rightarrow> ('v, 'w) chan \<Rightarrow> ('v, 'w) chan option" where
  "fire_insn f ww a k ILoad s =
     (if can_read a k s then Some (adv f a (Loaded (mval s k)) (load_relaxed a k s)) else None)"
| "fire_insn f ww a k IAcquire s =
     (if can_read a k s then Some (adv f a (Loaded (mval s k)) (load_acquire a k s)) else None)"
| "fire_insn f ww a k (ICas op c) s =
     (if mval s (top s) = c then Some (adv f a CasOk (cas_success a op c s)) else None)"
| "fire_insn f ww a k (IWriteData v) s = Some (adv f a Done (write_data a v s))"
| "fire_insn f ww a k IReadData s = Some (adv f a (Got (data s)) (read_data a (log_lost a s)))"
| "fire_insn f ww a k IWakeWaker s = Some (adv f a Done (take_waker a (log_woken s)))"
| "fire_insn f ww a k IDropWaker s = Some (adv f a Done (take_waker a s))"
| "fire_insn f ww a k (IWriteWaker w) s = Some (adv f a Done (write_waker a w s))"
| "fire_insn f ww a k (IUpdateWaker w) s = Some (adv f a Done (update_waker ww a w s))"
| "fire_insn f ww a k (IWait c) s =
     (if f_wait f then Some (adv f a Done (touch a s))
      else if can_read a k s then Some (adv f a (Loaded (mval s k)) (load_relaxed a k s)) else None)"
| "fire_insn f ww a k IParked s = Some (adv f a Done s)"
| "fire_insn f ww a k IWakeAll s = Some (unpark_all (adv f a Done (touch a s)))"
| "fire_insn f ww a k IDealloc s = Some (adv f a Done (dealloc a s))"
| "fire_insn f ww a k INone s = None"

fun fire ::
  "features \<Rightarrow> (u32 \<Rightarrow> u32 \<Rightarrow> bool) \<Rightarrow> ('w \<Rightarrow> 'w \<Rightarrow> bool) \<Rightarrow> ('v, 'w) label \<Rightarrow> ('v, 'w) chan \<Rightarrow> ('v, 'w) chan option" where
  "fire f mb ww (LSend v) s =
     (if pc s Snd = Idle then Some (goto Snd (InSend (SendLoad v)) (s\<lparr>sent := Some v\<rparr>)) else None)"
| "fire f mb ww LDropSender s = (if pc s Snd = Idle then Some (goto Snd (InDropS DsLoad) s) else None)"
| "fire f mb ww (LRecv i) s =
     (if f_sync f \<and> may_share s \<and> pc s (Rcv i) = Idle then Some (goto (Rcv i) (InRecv RcLoad) s) else None)"
| "fire f mb ww (LPoll i w) s =
     (if f_async f \<and> may_own s then Some (goto (Rcv i) (InPoll (PoLoad w)) (take_over (Rcv i) s)) else None)"
| "fire f mb ww (LDropReceiver i) s =
     (if may_own s then Some (goto (Rcv i) (InDropR DrLoad) (take_over (Rcv i) s)) else None)"
| "fire f mb ww (LReturn a) s =
     (case pc s a of
        Ret r \<Rightarrow> (case a of
            Snd \<Rightarrow> Some (goto Snd (InDropS DsLoad) (log_ret Snd r s))
          | Rcv i \<Rightarrow> Some (goto (Rcv i) Idle (hand_back (Rcv i) (log_ret (Rcv i) r s))))
      | _ \<Rightarrow> None)"
| "fire f mb ww (LStep a k) s = fire_insn f ww a k (instr f (pc s a)) s"
| "fire f mb ww (LFail a k) s =
     (case instr f (pc s a) of
        ICas op c \<Rightarrow> if can_read a k s \<and> (weak op \<or> mval s k \<noteq> c)
          then Some (adv f a (CasFail (mval s k)) (load_relaxed a k s)) else None
      | _ \<Rightarrow> None)"
| "fire f mb ww (LBlock a) s =
     (case instr f (pc s a) of
        IWait c \<Rightarrow> if f_wait f \<and> mb (mval s (top s)) c
          then Some (goto a (InRecv RcParked) (touch a s)) else None
      | _ \<Rightarrow> None)"

fun run ::
  "features \<Rightarrow> (u32 \<Rightarrow> u32 \<Rightarrow> bool) \<Rightarrow> ('w \<Rightarrow> 'w \<Rightarrow> bool) \<Rightarrow> ('v, 'w) label list \<Rightarrow> ('v, 'w) chan \<Rightarrow> ('v, 'w) chan option" where
  "run f mb ww [] s = Some s"
| "run f mb ww (l # ls) s = Option.bind (fire f mb ww l s) (run f mb ww ls)"

lemma fire_insn_step:
  assumes "fire_insn f ww a k (instr f (pc s a)) s = Some t"
  shows "chan_step f mb ww s t"
  using assms
  by (cases "instr f (pc s a)")
    (auto intro: load acquire cas_ok write_data read_data wake_waker drop_waker write_waker update_waker
      wait_return spin wait_wakeup wake_all chan_step.dealloc split: if_splits)

lemma fire_step: "fire f mb ww l s = Some t \<Longrightarrow> chan_step f mb ww s t"
  by (cases l)
    (auto intro: chan_step.intros fire_insn_step split: if_splits pc.splits agent.splits insn.splits)

lemma run_reach: "run f mb ww ls s = Some t \<Longrightarrow> chan_reach f mb ww s \<Longrightarrow> chan_reach f mb ww t"
proof (induction ls arbitrary: s)
  case (Cons l ls)
  then obtain u where "fire f mb ww l s = Some u" "run f mb ww ls u = Some t"
    by (auto simp: bind_eq_Some_conv)
  then show ?case using Cons fire_step reach_step by metis
qed simp

lemma run_channel: "run f mb ww ls channel = Some t \<Longrightarrow> chan_reach f mb ww t"
  by (rule run_reach) (auto intro: reach_init)

section \<open>A value sent, received and freed\<close>

definition all_features :: features where
  "all_features = \<lparr>f_sync = True, f_wait = True, f_async = True\<rparr>"

text \<open>
  Receiver 0 blocks in \<^verbatim>\<open>recv\<close>, the sender sends 7 and wakes it, the receiver takes the
  value, both handles are dropped.
\<close>

definition run_recv :: "(nat, nat) label list" where
  "run_recv =
     [LRecv 0, LStep (Rcv 0) 0, LStep (Rcv 0) 0, LBlock (Rcv 0),
      LSend 7, LStep Snd 1, LStep Snd 0, LStep Snd 0, LStep Snd 0, LReturn Snd,
      LStep (Rcv 0) 2, LStep (Rcv 0) 0, LStep (Rcv 0) 0, LReturn (Rcv 0)]"

definition run_drops :: "(nat, nat) label list" where
  "run_drops =
     [LStep Snd 3, LStep Snd 0,
      LDropReceiver 0, LStep (Rcv 0) 4, LStep (Rcv 0) 4, LStep (Rcv 0) 0]"

lemmas run_simps = channel_def mem_new_def mem.defs goto_def adv_def mem_op_defs may_share_def may_own_def
  take_over_def hand_back_def log_ret_def log_lost_def log_woken_def unpark_all_def can_read_def uaf_def
  Let_def word_state loop_defs fun_upd_def

lemma run_recv_ok:
  "\<exists>s. run all_features (=) (=) run_recv channel = Some s \<and> rets s = [(Snd, SendOk), (Rcv 0, RecvRet (Some 7))]"
  by (simp add: run_recv_def all_features_def run_simps)

end
