(* ===== verification/OneshotSpec.thy ===== *)
theory OneshotSpec
  imports OneshotRun
begin

text \<open>
  What the one-shot channel promises, for every reachable state, every feature set, any
  number of receiving threads and every interleaving.
\<close>

section \<open>Shared facts\<close>

lemma reach_facts:
  assumes "chan_reach f mb ww s"
  shows "ctl_inv f s" and "own_inv s" and "fate_inv s"
  using chan_inv_reach[OF assms] by (simp_all add: chan_inv_def)

lemma reach_steps: "(chan_step f mb ww)\<^sup>*\<^sup>* s t \<Longrightarrow> chan_reach f mb ww s \<Longrightarrow> chan_reach f mb ww t"
  by (induction rule: rtranclp_induct) (auto intro: reach_step)

lemma reach_closed: "chan_reach f mb ww s \<Longrightarrow> closed_inv s"
proof (induction rule: reach.induct)
  case (reach_init s)
  then show ?case by (simp add: closed_inv_def channel_def mem_new_def mem.defs word_state)
next
  case (reach_step s t)
  then show ?case using closed_step reach_facts(1) by metis
qed

lemma reach_result: "chan_reach f mb ww s \<Longrightarrow> result_inv s"
proof (induction rule: reach.induct)
  case (reach_init s)
  then show ?case by (simp add: result_inv_def channel_def mem_new_def mem.defs)
next
  case (reach_step s t)
  then show ?case using result_step reach_facts by metis
qed

lemma reach_park:
  assumes "chan_reach f mb ww s" and "\<And>v e. mb v e \<Longrightarrow> v = e"
  shows "park_inv f s"
  using assms(1)
proof (induction rule: reach.induct)
  case (reach_init s)
  then show ?case by (simp add: park_inv_def channel_def mem_new_def mem.defs)
next
  case (reach_step s t)
  then show ?case using park_step[OF assms(2)] reach_facts(1) by metis
qed

lemma leaving_excl:
  assumes "ctl_inv f s" and "leaving (pc s (Rcv i))"
  shows "excl (pc s (Rcv i))"
  using assms ctl_side(2)[of f s "Rcv i"] by (cases "pc s (Rcv i)") auto

lemma holds_excl: "holds_data (pc s a) \<Longrightarrow> instr f (pc s a) \<noteq> INone" "holds_waker (pc s a) \<Longrightarrow> instr f (pc s a) \<noteq> INone"
  by (cases "pc s a" rule: holds_data.cases; simp) (cases "pc s a" rule: holds_waker.cases; simp)

text \<open>A complete run: value 7 is sent, waited for, received, both handles dropped.\<close>

definition full_run :: "(nat, nat) label list" where
  "full_run = run_recv @ run_drops"

lemma full_run_ok:
  "\<exists>s. run all_features (=) (=) full_run channel = Some s \<and> freed s
     \<and> rets s = [(Snd, SendOk), (Rcv 0, RecvRet (Some 7))]"
  by (simp add: full_run_def run_recv_def run_drops_def all_features_def run_simps)

text \<open>A run in which the receiver is dropped while the sender writes.\<close>

definition refused_run :: "(nat, nat) label list" where
  "refused_run =
     [LSend 7, LStep Snd 0, LStep Snd 0, LDropReceiver 0, LStep (Rcv 0) 0, LStep (Rcv 0) 0,
      LFail Snd 1, LStep Snd 0]"

lemma refused_run_ok:
  "\<exists>s. run all_features (=) (=) refused_run channel = Some s \<and> pc s Snd = Ret (SendErr (Some 7))"
  by (simp add: refused_run_def all_features_def run_simps)

text \<open>A receiver parked with nobody to wake it yet, and a late receiver that gets nothing.\<close>

definition parked_run :: "(nat, nat) label list" where
  "parked_run = [LRecv 0, LStep (Rcv 0) 0, LStep (Rcv 0) 0, LBlock (Rcv 0)]"

lemma parked_run_ok:
  "\<exists>s. run all_features (=) (=) parked_run channel = Some s \<and> pc s (Rcv 0) = InRecv RcParked"
  by (simp add: parked_run_def all_features_def run_simps)

definition late_run :: "(nat, nat) label list" where
  "late_run = run_recv @ [LRecv 1, LStep (Rcv 1) 3]"

lemma late_run_ok:
  "\<exists>s. run all_features (=) (=) late_run channel = Some s \<and> pc s (Rcv 1) = Ret (RecvRet None)"
  by (simp add: late_run_def run_recv_def all_features_def run_simps)

section \<open>The table of transitions\<close>

text \<open>
  The transition table of \<^verbatim>\<open>conlock/README.md\<close>, row by row, as it stands there: the word before, then for each
  of the columns \<^verbatim>\<open>send\<close>, \<^verbatim>\<open>recv\<close>, \<^verbatim>\<open>await\<close>, \<^verbatim>\<open>pre del s\<close>, \<^verbatim>\<open>dropped\<close>, \<^verbatim>\<open>pre del r\<close>, \<^verbatim>\<open>dropped\<close> the words it
  goes to (\<^verbatim>\<open>001X1\<close> is two words; a crossed or empty cell is none). The bits are read in
  the order of \<^verbatim>\<open>BitStatus\<close>, so \<^verbatim>\<open>10000\<close> is 1 and \<^verbatim>\<open>01010\<close> is 10.
\<close>

definition readme_table :: "(u32 \<times> u32 list list) list" where
  "readme_table =
    [(0,  [[1], [4], [20, 28], [],  [10], [],   [10]]),
     (1,  [[],  [8], [8],      [],  [11], [2],  [10]]),
     (4,  [[1], [],  [],       [2], [10], [],   []]),
     (28, [[1], [],  [20],     [],  [10], [],   []]),
     (20, [[1], [4], [28],     [2], [10], [2],  [10]]),
     (2,  [[],  [],  [],       [],  [10], [],   [10]]),
     (10, [[],  [],  [],       [],  [],   [],   []]),
     (8,  [[],  [],  [],       [],  [10], [],   [10]]),
     (11, [[],  [10], [10],    [],  [],   [10], []])]"

text \<open>The columns of a call: both drops have one for the announcement and one for the drop.\<close>

fun columns :: "('v, 'w) pc \<Rightarrow> nat list" where
  "columns (InSend _) = [0]"
| "columns (InRecv _) = [1]"
| "columns (InPoll _) = [2]"
| "columns (InDropS _) = [3, 4]"
| "columns (InDropR _) = [5, 6]"
| "columns _ = []"

definition documented :: "('v, 'w) pc \<Rightarrow> (u32 \<times> u32) set" where
  "documented p = set (concat (map (\<lambda>(w, cells). concat (map (\<lambda>i. map (Pair w) (cells ! i)) (columns p))) readme_table))"

lemma documented_eval [simp]:
  "documented (InSend p) = {(0, 1), (4, 1), (28, 1), (20, 1)}"
  "documented (InRecv q) = {(0, 4), (1, 8), (20, 4), (11, 10)}"
  "documented (InPoll r) = {(0, 20), (0, 28), (1, 8), (28, 20), (20, 28), (11, 10)}"
  "documented (InDropS x) = {(0, 10), (1, 11), (4, 2), (4, 10), (28, 10), (20, 2), (20, 10), (2, 10), (8, 10)}"
  "documented (InDropR y) = {(0, 10), (1, 2), (1, 10), (20, 2), (20, 10), (2, 10), (8, 10), (11, 10)}"
  by (auto simp: documented_def readme_table_def)

section \<open>Properties\<close>

text \<open>
  C1. Memory safety. In every reachable state no access has raced with another one on
  \<^verbatim>\<open>data\<close> or \<^verbatim>\<open>waker\<close>, no uninitialised cell was read or dropped, no initialised cell was
  overwritten (leaked), nothing was accessed after the deallocation, which happens after
  every other access and only once.
\<close>

theorem chan_no_fault:
  assumes "chan_reach f mb ww s"
  shows "faults s = []"
  using reach_facts(2)[OF assms] by (simp add: own_inv_def)

lemma chan_no_fault_witness:
  "\<exists>s. run all_features (=) (=) full_run channel = Some s \<and> freed s \<and> faults s = []"
  using full_run_ok chan_no_fault[OF run_channel] by blast

text \<open>
  C2. Refinement and conservation. In every reachable state the value given to \<^verbatim>\<open>send\<close> is in exactly one place,
  never duplicated and never lost, and every step of the channel moves it by one step of the one-token
  machine \<^verbatim>\<open>Unsent -> Carried -> InCell -> Carried | Discarded -> Returned\<close>, or leaves it where it is.
\<close>

theorem chan_value_step:
  assumes "chan_reach f mb ww s"
  shows "(\<exists>!\<phi>. fate_of s \<phi>)
    \<and> (chan_step f mb ww s t \<longrightarrow> fate_of s \<phi> \<longrightarrow> (\<exists>\<psi>. fate_of t \<psi> \<and> (\<psi> = \<phi> \<or> fate_step \<phi> \<psi>)))"
proof -
  have "\<exists>!\<phi>. fate_of s \<phi>" using reach_facts(3)[OF assms] fate_unique by (auto simp: fate_inv_def)
  then show ?thesis using fate_step_move[OF _ reach_facts[OF assms]] by (auto simp: fate_move_def)
qed

lemma chan_value_step_witness:
  "(\<exists>!\<phi>. fate_of (channel :: (nat, nat) chan) \<phi>)
   \<and> (\<exists>\<psi>. fate_of (goto Snd (InSend (SendLoad (7::nat))) ((channel :: (nat, nat) chan)\<lparr>sent := Some 7\<rparr>)) \<psi>
     \<and> (\<psi> = Unsent \<or> fate_step Unsent \<psi>))"
proof -
  let ?s = "channel :: (nat, nat) chan"
  have r: "chan_reach all_features (=) (=) ?s" by (rule reach_init) simp
  have i: "pc ?s Snd = Idle" by (simp add: channel_def mem_new_def mem.defs)
  show ?thesis using chan_value_step[OF r, of _ Unsent] call_send[OF i, of all_features "(=)" "(=)" 7] fate_channel by blast
qed

text \<open>A call of a receiving thread that returned a value returned the one that was sent, alone.\<close>

lemma received_sent:
  assumes "chan_reach f mb ww s" and "(Rcv i, r) \<in> set (rets s)" and "ret_value r = Some v"
  shows "sent s = Some v \<and> returned s = [(Rcv i, v)] \<and> data s = None \<and> lost s = []"
proof -
  obtain \<phi> where \<phi>: "fate_of s \<phi>" using reach_facts(3)[OF assms(1)] by (auto simp: fate_inv_def)
  have "(Rcv i, v) \<in> set (returned s)" using assms(2,3) by (force simp: returned_def)
  with \<phi> have "\<phi> = Returned (Rcv i) v" by (cases \<phi>) (auto simp: fate_of_def)
  with \<phi> show ?thesis by (simp_all add: fate_of_def)
qed

text \<open>A refused \<^verbatim>\<open>send\<close> has its value in hand, and the receiver is being dropped or gone.\<close>

lemma send_refused:
  assumes "chan_reach f mb ww s" and "pc s Snd = Ret (SendErr x)"
  shows "x = sent s" and "x \<noteq> None" and "\<exists>i. leaving (pc s (Rcv i))"
proof -
  note I = reach_facts(1)[OF assms(1)]
  obtain \<phi> where \<phi>: "fate_of s \<phi>" using reach_facts(3)[OF assms(1)] by (auto simp: fate_inv_def)
  have "\<not> lost_error (pc s Snd)" using reach_result[OF assms(1)] by (simp add: result_inv_def)
  then obtain v where v: "x = Some v" using assms(2) by auto
  then have "\<phi> = Carried Snd v" using fate_carried[OF \<phi>, of Snd v] assms(2) by simp
  then show "x = sent s" using \<phi> v by (simp add: fate_of_def)
  show "x \<noteq> None" using v by simp
  have "latest s \<in> {2, 10}" using ctl_know[OF I, of Snd] assms(2) by simp
  then have "is_closed (latest s)" by (auto simp: word_state)
  then obtain a where a: "leaving (pc s a)" using reach_closed[OF assms(1)] by (auto simp: closed_inv_def)
  with assms(2) show "\<exists>i. leaving (pc s (Rcv i))" by (cases a) auto
qed

text \<open>
  C4. What the calls return. A completed call of a receiving thread that returned a value returned the value given
  to \<^verbatim>\<open>send\<close>, and is the only call that ever returned one; the cell is empty. A \<^verbatim>\<open>send\<close> fails only when the
  receiver has been dropped (or is being dropped), and its error carries the value back.
\<close>

theorem call_results:
  assumes "chan_reach f mb ww s"
  shows "((Rcv i, r) \<in> set (rets s) \<and> ret_value r = Some v \<longrightarrow>
      sent s = Some v \<and> returned s = [(Rcv i, v)] \<and> data s = None \<and> lost s = [])
    \<and> (pc s Snd = Ret (SendErr x) \<longrightarrow> x = sent s \<and> x \<noteq> None \<and> (\<exists>i. leaving (pc s (Rcv i))))"
  using received_sent[OF assms] send_refused[OF assms] by blast

lemma call_results_witness:
  "(\<exists>s. run all_features (=) (=) full_run channel = Some s \<and> (Rcv 0, RecvRet (Some 7)) \<in> set (rets s)
     \<and> sent s = Some 7 \<and> returned s = [(Rcv 0, 7)] \<and> data s = None \<and> lost s = [])
   \<and> (\<exists>s. run all_features (=) (=) refused_run channel = Some s \<and> pc s Snd = Ret (SendErr (Some 7))
     \<and> sent s = Some 7 \<and> (\<exists>i. leaving (pc s (Rcv i))))"
proof
  obtain s where s: "run all_features (=) (=) full_run channel = Some s"
    "rets s = [(Snd, SendOk), (Rcv 0, RecvRet (Some 7))]" using full_run_ok by blast
  have "(Rcv 0, RecvRet (Some 7)) \<in> set (rets s)" "ret_value (RecvRet (Some 7)) = Some (7::nat)"
    using s(2) by simp_all
  with call_results[OF run_channel[OF s(1)], of 0 "RecvRet (Some 7)" 7] s(1)
  show "\<exists>s. run all_features (=) (=) full_run channel = Some s \<and> (Rcv 0, RecvRet (Some 7)) \<in> set (rets s)
     \<and> sent s = Some 7 \<and> returned s = [(Rcv 0, 7)] \<and> data s = None \<and> lost s = []" by blast
next
  obtain s where s: "run all_features (=) (=) refused_run channel = Some s" "pc s Snd = Ret (SendErr (Some 7))"
    using refused_run_ok by blast
  then have "Some 7 = sent s \<and> (\<exists>i. leaving (pc s (Rcv i)))"
    using call_results[OF run_channel[OF s(1)], where x = "Some 7"] by blast
  with s show "\<exists>s. run all_features (=) (=) refused_run channel = Some s \<and> pc s Snd = Ret (SendErr (Some 7))
     \<and> sent s = Some 7 \<and> (\<exists>i. leaving (pc s (Rcv i)))" by auto
qed

text \<open>A call that gives up finds a word that no later step turns into one that offers a value.\<close>

lemma gave_up_final:
  assumes "chan_reach f mb ww s" and "gives_up (pc s (Rcv i))" and "(chan_step f mb ww)\<^sup>*\<^sup>* s t"
  shows "(leaving (pc s Snd) \<or> latest s = 8) \<and> \<not> is_ready (latest t)"
proof -
  note I = reach_facts(1)[OF assms(1)]
  have l: "latest s \<in> {2, 8, 10}" using reach_result[OF assms(1)] assms(2) by (auto simp: result_inv_def)
  have 1: "leaving (pc s Snd) \<or> latest s = 8"
  proof (cases "latest s = 8")
    case False
    then have "is_closed (latest s)" using l by (auto simp: word_state)
    then obtain a where a: "leaving (pc s a)" using reach_closed[OF assms(1)] by (auto simp: closed_inv_def)
    show ?thesis
    proof (cases a)
      case (Rcv j)
      then have "excl (pc s (Rcv j))" using leaving_excl[OF I] a by simp
      then have "j = i \<or> pc s (Rcv i) = Idle" using ctl_excl[OF I] by metis
      then show ?thesis using a Rcv assms(2) by (cases "pc s (Rcv i)") auto
    qed (use a in simp)
  qed simp
  have "latest t \<in> {2, 8, 10} \<and> chan_reach f mb ww t"
    using assms(3)
  proof (induction rule: rtranclp_induct)
    case (step u w)
    then show ?case
      using gave_up_latest[OF latest_evolves[OF reach_facts(1) step(2)]] reach_step by metis
  qed (use l assms(1) in simp)
  then have "\<not> is_ready (latest t)" by (auto simp: word_state)
  with 1 show ?thesis by blast
qed

text \<open>
  C8. The status word always holds one of the nine states of the README (seven without the \<^verbatim>\<open>async\<close> feature), every
  exchange that succeeds leads to another of them, and it is an entry of the README's transition table in a
  column of the call that performs it, with exactly one exception: \<^verbatim>\<open>drop_receiver\<close>, which
  takes a value that is ready out of the channel, goes from \<^verbatim>\<open>10000\<close> to \<^verbatim>\<open>00000\<close>, where the table (and the
  state diagram) say \<^verbatim>\<open>01000\<close>.
\<close>

theorem chan_transition:
  assumes "chan_reach f mb ww s"
  shows "latest s \<in> words f \<and> (instr f (pc s a) = ICas op (latest s) \<longrightarrow>
    cas_new op (latest s) \<in> words f
    \<and> ((latest s, cas_new op (latest s)) \<in> documented (pc s a) \<longleftrightarrow> pc s a \<noteq> InDropR (DrUnset 1))
    \<and> (pc s a = InDropR (DrUnset 1) \<longrightarrow> latest s = 1 \<and> cas_new op (latest s) = 0 \<and> (1, 2) \<in> documented (pc s a)))"
proof (intro conjI impI)
  note I = reach_facts(1)[OF assms]
  show "latest s \<in> words f" by (rule ctl_latest[OF I])
  assume cas: "instr f (pc s a) = ICas op (latest s)"
  from I cas show "(latest s, cas_new op (latest s)) \<in> documented (pc s a) \<longleftrightarrow> pc s a \<noteq> InDropR (DrUnset 1)"
    by (cases rule: cas_table) auto
  have "chan_reach f mb ww (adv f a CasOk (cas_success a op (latest s) s))"
    using assms by (rule reach_step) (rule cas_ok[OF cas refl])
  from ctl_latest[OF reach_facts(1)[OF this]] show "cas_new op (latest s) \<in> words f" by (simp only: latest_cas)
  assume "pc s a = InDropR (DrUnset 1)"
  with cas show "latest s = 1" "cas_new op (latest s) = 0" "(1, 2) \<in> documented (pc s a)" by (auto simp: word_state)
qed

text \<open>An exchange of the table, and the one that is not in it.\<close>

definition unset_run :: "(nat, nat) label list" where
  "unset_run = [LSend 7, LStep Snd 0, LStep Snd 0, LStep Snd 0, LDropReceiver 0, LStep (Rcv 0) 1]"

lemma chan_transition_witness:
  "(0, 10) \<in> documented (InDropS (DsSetClosedDropping 0) :: (nat, nat) pc)
   \<and> (1, 0) \<notin> documented (InDropR (DrUnset 1) :: (nat, nat) pc)"
proof
  obtain s :: "(nat, nat) chan" where s: "run all_features (=) (=) [LDropSender, LStep Snd 0] channel = Some s"
      "pc s Snd = InDropS (DsSetClosedDropping 0)" "latest s = 0"
    by (simp add: all_features_def run_simps)
  show "(0, 10) \<in> documented (InDropS (DsSetClosedDropping 0) :: (nat, nat) pc)"
    using chan_transition[OF run_channel[OF s(1)], of Snd try_set_closed_dropping_release] s(2,3)
    by (simp add: word_state)
next
  obtain s :: "(nat, nat) chan" where s: "run all_features (=) (=) unset_run channel = Some s"
      "pc s (Rcv 0) = InDropR (DrUnset 1)" "latest s = 1"
    by (simp add: unset_run_def all_features_def run_simps)
  show "(1, 0) \<notin> documented (InDropR (DrUnset 1) :: (nat, nat) pc)"
    using chan_transition[OF run_channel[OF s(1)], of "Rcv 0" try_sync_unset_ready_acquire] s(2,3)
    by (simp add: word_state)
qed

text \<open>When the memory is freed, no thread is at a point that holds the value or a waker.\<close>

lemma freed_empty:
  assumes "chan_reach f mb ww s" and "freed s"
  shows "data s = None \<and> waker s = None
    \<and> (sent s = None \<or> (\<exists>a v. sent s = Some v \<and> (returned s = [(a, v)] \<or> lost s = [v])))"
proof -
  note I = reach_facts(1)[OF assms(1)] and O = reach_facts(2)[OF assms(1)]
  obtain i where g: "pc s Snd = Gone" "pc s (Rcv i) = Gone" using ctl_fin(1)[OF I] assms(2) by blast
  have l: "latest s = 10" by (rule ctl_fin(3)[OF I g(2)])
  have p: "pc s a \<in> {Gone, Idle}" for a
    using g ctl_Gone_excl[OF I g(2)] by (cases a) (auto, metis)
  have none: "\<not> holds_data (pc s a)" "\<not> holds_waker (pc s a)" "carries (pc s a) = None" for a
    using p[of a] by auto
  have d: "data s = None"
  proof (rule ccontr)
    assume "data s \<noteq> None"
    then have "is_ready (latest s)" using data_owned[of s] O none by (auto simp: own_inv_def)
    then show False using l by (simp add: word_state)
  qed
  have w: "waker s = None"
  proof (rule ccontr)
    assume "waker s \<noteq> None"
    then have "latest s = 20" using waker_owned[of s] O none by (auto simp: own_inv_def)
    then show False using l by simp
  qed
  obtain \<phi> where "fate_of s \<phi>" using reach_facts(3)[OF assms(1)] by (auto simp: fate_inv_def)
  then show ?thesis
  proof (cases \<phi>)
    case (Carried a v)
    then have "carrying s a = Some v" using \<open>fate_of s \<phi>\<close> by (simp add: fate_of_def)
    then show ?thesis using none(3)[of a] by (simp add: carrying_def)
  qed (use \<open>fate_of s \<phi>\<close> d w in \<open>auto simp: fate_of_def\<close>)
qed

text \<open>
  C9. No leak. The memory is freed exactly when both handles are gone: not earlier, and never forgotten. When it is
  freed, no value and no waker is left in it: the value was never sent, was returned to a caller or was
  dropped by \<^verbatim>\<open>drop_receiver\<close>.
\<close>

theorem chan_no_leak:
  assumes "chan_reach f mb ww s"
  shows "(freed s \<longleftrightarrow> pc s Snd = Gone \<and> (\<exists>i. pc s (Rcv i) = Gone))
    \<and> (freed s \<longrightarrow> data s = None \<and> waker s = None
      \<and> (sent s = None \<or> (\<exists>a v. sent s = Some v \<and> (returned s = [(a, v)] \<or> lost s = [v]))))"
  using ctl_fin(1)[OF reach_facts(1)[OF assms]] freed_empty[OF assms] by blast

lemma chan_no_leak_witness:
  "\<exists>s. run all_features (=) (=) full_run channel = Some s \<and> freed s \<and> pc s Snd = Gone
     \<and> (\<exists>i. pc s (Rcv i) = Gone) \<and> data s = None \<and> waker s = None"
proof -
  obtain s where s: "run all_features (=) (=) full_run channel = Some s" "freed s" using full_run_ok by blast
  with chan_no_leak[OF run_channel[OF s(1)]] show ?thesis by blast
qed

text \<open>
  C11. No lost wake-up. If waiting blocks only on the expected value, then while a thread is
  parked either the word still says that it waits (so the sender will wake it), or the
  sender is about to execute \<^verbatim>\<open>wake_all\<close>. In particular nobody is parked once the sender is gone.
\<close>

theorem no_lost_wakeup:
  assumes "chan_reach f mb ww s" and "\<And>v e. mb v e \<Longrightarrow> v = e" and "pc s a = InRecv RcParked"
  shows "(latest s = 4 \<or> instr f (pc s Snd) = IWakeAll) \<and> pc s Snd \<noteq> Gone"
proof -
  have w: "latest s = 4 \<or> waking (pc s Snd)" using reach_park[OF assms(1,2)] assms(3) by (auto simp: park_inv_def)
  moreover have "pc s Snd \<noteq> Gone" using w ctl_fin(4)[OF reach_facts(1)[OF assms(1)]] by auto
  ultimately show ?thesis using waking_instr by blast
qed

lemma no_lost_wakeup_witness:
  "\<exists>s. run all_features (=) (=) parked_run channel = Some s \<and> pc s (Rcv 0) = InRecv RcParked
     \<and> (latest s = 4 \<or> instr all_features (pc s Snd) = IWakeAll)"
proof -
  obtain s where s: "run all_features (=) (=) parked_run channel = Some s" "pc s (Rcv 0) = InRecv RcParked"
    using parked_run_ok by blast
  with no_lost_wakeup[OF run_channel[OF s(1)] _ s(2)] show ?thesis by blast
qed

end
