(* ===== verification/OneshotLog.thy ===== *)
theory OneshotLog
  imports OneshotSpec
begin

text \<open>
  What the completed calls of the channel tell, as invariants of the log \<open>rets\<close>: the one result of the
  sender, why a receiving call got \<^verbatim>\<open>None\<close>, and that a \<^verbatim>\<open>send\<close> to a receiver that is gone fails.
\<close>

section \<open>The results of a thread\<close>

definition res :: "agent \<Rightarrow> (agent \<times> 'v ret) list \<Rightarrow> 'v ret list" where
  "res a rs = map snd (filter (\<lambda>(b, r). b = a) rs)"

lemma res_simps [simp]:
  "res a [] = []" "res a ((b, r) # rs) = (if b = a then [r] else []) @ res a rs" "res a (rs @ rs') = res a rs @ res a rs'"
  by (simp_all add: res_def)

lemma res_mem: "r \<in> set (res a rs) \<longleftrightarrow> (a, r) \<in> set rs"
  by (force simp: res_def)

text \<open>The points of each call, up to its return.\<close>

fun sends :: "('v, 'w) pc \<Rightarrow> bool" where
  "sends (InSend _) = True"
| "sends (Ret SendOk) = True"
| "sends (Ret (SendErr _)) = True"
| "sends _ = False"

fun receives :: "('v, 'w) pc \<Rightarrow> bool" where
  "receives (InRecv _) = True"
| "receives (Ret (RecvRet _)) = True"
| "receives _ = False"

fun polling_call :: "('v, 'w) pc \<Rightarrow> bool" where
  "polling_call (InPoll _) = True"
| "polling_call (Ret PollPending) = True"
| "polling_call (Ret (PollReady _)) = True"
| "polling_call _ = False"

lemma nxt_call:
  fixes p :: "('v, 'w) pc"
  shows "sends p \<Longrightarrow> sends (nxt f p r)" and "receives p \<Longrightarrow> receives (nxt f p r)"
    and "polling_call p \<Longrightarrow> polling_call (nxt f p r)"
proof -
  have "sends (send_next f q r :: ('v, 'w) pc)" for q
    by (cases "(f, q, r)" rule: send_next.cases) (auto simp: loop_defs)
  then show "sends p \<Longrightarrow> sends (nxt f p r)" by (cases p) auto
  have "receives (recv_next f q r :: ('v, 'w) pc)" for q
    by (cases "(f, q, r)" rule: recv_next.cases) (auto simp: loop_defs)
  then show "receives p \<Longrightarrow> receives (nxt f p r)" by (cases p) auto
  have "polling_call (poll_next q r)" for q :: "'w poll_pc"
    by (cases "(q, r)" rule: poll_next.cases) (auto simp: loop_defs)
  then show "polling_call p \<Longrightarrow> polling_call (nxt f p r)" by (cases p) auto
qed

text \<open>
  What a step does to a thread: it begins a call, it advances the thread inside its call, it logs the
  result of the call, or it leaves the thread alone (another thread may wake it up).
\<close>

definition same_call :: "('v, 'w) pc \<Rightarrow> ('v, 'w) pc \<Rightarrow> bool" where
  "same_call p q \<longleftrightarrow> (sends p \<longrightarrow> sends q) \<and> (receives p \<longrightarrow> receives q) \<and> (polling_call p \<longrightarrow> polling_call q)
     \<and> (leaving p \<longrightarrow> leaving q) \<and> (p = Idle \<longleftrightarrow> q = Idle) \<and> (p = Gone \<longrightarrow> q = Gone)"

lemma same_call_refl [simp]: "same_call p p"
  by (simp add: same_call_def)

lemma nxt_Idle_iff:
  fixes p :: "('a, 'b) pc"
  shows "nxt f p r = Idle \<longleftrightarrow> p = Idle"
proof
  assume n: "nxt f p r = Idle"
  show "p = Idle"
  proof (rule ccontr)
    assume "p \<noteq> Idle"
    moreover have "sends (Ret x :: ('a, 'b) pc) \<or> receives (Ret x :: ('a, 'b) pc) \<or> polling_call (Ret x :: ('a, 'b) pc)" for x
      by (cases x) simp_all
    ultimately have "sends p \<or> receives p \<or> polling_call p \<or> leaving p" by (cases p) auto
    then show False using nxt_call[of p f r] nxt_leaving[of p f r] n by auto
  qed
qed simp

lemma same_call_nxt: "same_call p (nxt f p r)"
  by (auto simp: same_call_def nxt_call nxt_leaving nxt_Idle_iff)

lemma same_call_parked [simp]: "same_call (InRecv q) (InRecv q')"
  by (simp add: same_call_def)

datatype 'v happening = Quiet | Begins | Logs "'v ret"

definition happens :: "agent \<Rightarrow> ('v, 'w) chan \<Rightarrow> ('v, 'w) chan \<Rightarrow> 'v happening \<Rightarrow> bool" where
  "happens a s t h = (case h of
      Quiet \<Rightarrow> same_call (pc s a) (pc t a) \<and> res a (rets t) = res a (rets s)
    | Begins \<Rightarrow> pc s a = Idle \<and> pc t a \<noteq> Idle \<and> res a (rets t) = res a (rets s)
    | Logs r \<Rightarrow> pc s a = Ret r \<and> pc t a = (if a = Snd then InDropS DsLoad else Idle) \<and> res a (rets t) = res a (rets s) @ [r])"

lemma happens_adv:
  assumes "pc m = pc s" and "rets m = rets s"
  shows "happens b s (adv f a r m) Quiet"
  using assms by (simp add: happens_def pc_adv same_call_nxt) (simp add: adv_def goto_def)

lemma happens_unpark: "happens b s t Quiet \<Longrightarrow> happens b s (unpark_all t) Quiet"
  by (auto simp: happens_def unpark_all_def same_call_def)

lemma happens_goto:
  assumes "t = goto a p m" and "rets m = rets s" "pc m = pc s" and "same_call (pc s a) p \<or> pc s a = Idle \<and> p \<noteq> Idle"
  shows "happens b s t Quiet \<or> happens b s t Begins"
  using assms by (cases "b = a") (auto simp: happens_def goto_def)

lemma happens_ret:
  assumes "pc s a = Ret r" and "pc t = (pc s)(a := if a = Snd then InDropS DsLoad else Idle)" and "rets t = rets s @ [(a, r)]"
  shows "happens b s t Quiet \<or> happens b s t (Logs r)"
  using assms by (cases "b = a") (auto simp: happens_def)

lemma step_happens:
  assumes "chan_step f mb ww s t"
  obtains h where "happens b s t h"
proof -
  have "happens b s t Quiet \<or> happens b s t Begins \<or> (\<exists>r. happens b s t (Logs r))"
    using assms
  proof (induction rule: chan_step.induct)
    case (call_send s v)
    then show ?case using happens_goto[OF refl, of "s\<lparr>sent := Some v\<rparr>" s Snd "InSend (SendLoad v)" b] by auto
  next
    case (call_drop_sender s)
    then show ?case using happens_goto[OF refl, of s s Snd "InDropS DsLoad" b] by auto
  next
    case (call_recv s i)
    then show ?case using happens_goto[OF refl, of s s "Rcv i" "InRecv RcLoad" b] by auto
  next
    case (call_poll s i w)
    then show ?case using happens_goto[OF refl, of "take_over (Rcv i) s" s "Rcv i" "InPoll (PoLoad w)" b]
      by (auto simp: may_own_def take_over_def)
  next
    case (call_drop_receiver s i)
    then show ?case using happens_goto[OF refl, of "take_over (Rcv i) s" s "Rcv i" "InDropR DrLoad" b]
      by (auto simp: may_own_def take_over_def)
  next
    case (ret_send s r)
    then show ?case using happens_ret[of s Snd r "goto Snd (InDropS DsLoad) (log_ret Snd r s)" b]
      by (auto simp: goto_def log_ret_def)
  next
    case (ret_receiver s i r)
    then show ?case using happens_ret[of s "Rcv i" r "goto (Rcv i) Idle (hand_back (Rcv i) (log_ret (Rcv i) r s))" b]
      by (auto simp: goto_def log_ret_def hand_back_def)
  next
    case (wake_all s a)
    have "happens b s (adv f a Done (touch a s)) Quiet" by (rule happens_adv) (simp_all add: step_simps)
    then show ?case using happens_unpark by blast
  next
    case (wait_block s a c)
    then have "same_call (pc s a) (InRecv RcParked)" using instr_block(1)[OF wait_block(2)] by auto
    then show ?case using happens_goto[OF refl, of "touch a s" s a "InRecv RcParked" b] by (auto simp: step_simps)
  qed (simp_all add: happens_adv step_simps)
  then show ?thesis using that by blast
qed

section \<open>The sender\<close>

lemma step_sent:
  assumes "chan_step f mb ww s t"
  shows "(sent t = sent s \<and> (pc s Snd = Idle \<and> pc t Snd \<noteq> Idle \<longrightarrow> pc t Snd = InDropS DsLoad))
    \<or> (\<exists>v. pc s Snd = Idle \<and> pc t Snd = InSend (SendLoad v) \<and> sent t = Some v)"
  using assms
proof (induction rule: chan_step.induct)
  case (call_poll s i w)
  then show ?case by (simp add: goto_def take_over_def)
next
  case (call_drop_receiver s i)
  then show ?case by (simp add: goto_def take_over_def)
next
  case (wake_all s a)
  then show ?case by (cases "a = Snd") (auto simp: pc_adv unpark_all_def adv_def goto_def step_simps)
next
  case (wait_block s a c)
  then show ?case using instr_block(1)[OF wait_block(2)] by (auto simp: goto_def step_simps)
qed (auto simp: adv_def goto_def step_simps hand_back_def log_ret_def)

text \<open>The sender has no result before its call returned, and one when its handle is being dropped.\<close>

definition snd_log :: "('v, 'w) chan \<Rightarrow> bool" where
  "snd_log s \<longleftrightarrow> (pc s Snd = Idle \<and> sent s = None \<and> res Snd (rets s) = [])
     \<or> (sends (pc s Snd) \<and> sent s \<noteq> None \<and> res Snd (rets s) = [])
     \<or> (leaving (pc s Snd) \<and> (if sent s = None then res Snd (rets s) = []
          else \<exists>r. res Snd (rets s) = [r] \<and> sends (Ret r :: ('v, 'w) pc)))"

lemma snd_log_step:
  fixes s :: "('a, 'b) chan"
  assumes "chan_step f mb ww s t" and "snd_log s"
  shows "snd_log t"
proof -
  obtain h where h: "happens Snd s t h" by (rule step_happens[OF assms(1)])
  note st = step_sent[OF assms(1)]
  have begun: "sent t = sent s" if "pc s Snd \<noteq> Idle" using st that by blast
  show ?thesis
  proof (cases h)
    case Quiet
    then have q: "same_call (pc s Snd) (pc t Snd)" "res Snd (rets t) = res Snd (rets s)" using h by (simp_all add: happens_def)
    from assms(2) consider "pc s Snd = Idle \<and> sent s = None \<and> res Snd (rets s) = []"
      | "sends (pc s Snd) \<and> sent s \<noteq> None \<and> res Snd (rets s) = []"
      | "leaving (pc s Snd)" "if sent s = None then res Snd (rets s) = []
          else \<exists>r. res Snd (rets s) = [r] \<and> sends (Ret r :: ('a, 'b) pc)" unfolding snd_log_def by blast
    then show ?thesis
    proof cases
      case 1
      then have i: "pc t Snd = Idle" using q(1) by (simp add: same_call_def)
      then have "sent t = sent s" using st by auto
      then show ?thesis using 1 q(2) i by (simp add: snd_log_def)
    next
      case 2
      then have "sends (pc t Snd)" "pc s Snd \<noteq> Idle" using q(1) by (auto simp: same_call_def)
      then show ?thesis using 2 q(2) begun by (simp add: snd_log_def)
    next
      case 3
      then have "leaving (pc t Snd)" "pc s Snd \<noteq> Idle" using q(1) by (auto simp: same_call_def)
      then show ?thesis using 3(2) q(2) begun by (simp add: snd_log_def)
    qed
  next
    case Begins
    then have q: "pc s Snd = Idle" "pc t Snd \<noteq> Idle" "res Snd (rets t) = res Snd (rets s)" using h by (simp_all add: happens_def)
    then have "sent s = None \<and> res Snd (rets s) = []" using assms(2) by (simp add: snd_log_def)
    then show ?thesis using st q by (auto simp: snd_log_def)
  next
    case (Logs r)
    then have r: "pc s Snd = Ret r" "pc t Snd = InDropS DsLoad" "res Snd (rets t) = res Snd (rets s) @ [r]"
      using h by (simp_all add: happens_def)
    then have "sends (Ret r :: ('a, 'b) pc)" "sent s \<noteq> None" "res Snd (rets s) = []" using assms(2) by (auto simp: snd_log_def)
    moreover have "sent t = sent s" using st r by auto
    ultimately show ?thesis using r by (auto simp: snd_log_def)
  qed
qed

lemma reach_snd_log: "chan_reach f mb ww s \<Longrightarrow> snd_log s"
proof (induction rule: reach.induct)
  case (reach_init s)
  then show ?case by (simp add: snd_log_def channel_def mem_new_def mem.defs)
qed (rule snd_log_step)

text \<open>A refused \<^verbatim>\<open>send\<close> and a value dropped unread are the doing of a receiver that leaves.\<close>

definition blame_inv :: "('v, 'w) chan \<Rightarrow> bool" where
  "blame_inv s \<longleftrightarrow> ((\<exists>x. (Snd, SendErr x) \<in> set (rets s)) \<or> lost s \<noteq> [] \<longrightarrow> (\<exists>i. leaving (pc s (Rcv i))))"

lemma rets_step: "chan_step f mb ww s t \<Longrightarrow> rets t = rets s \<or> (\<exists>a r. pc s a = Ret r \<and> rets t = rets s @ [(a, r)])"
  by (induction rule: chan_step.induct)
    (auto simp: adv_def goto_def step_simps hand_back_def log_ret_def take_over_def unpark_all_def)

lemma lost_step:
  assumes "chan_step f mb ww s t"
  shows "lost t = lost s \<or> (\<exists>a. \<exists>p. pc s a = InDropR p)"
  using assms
proof (induction rule: chan_step.induct)
  case (read_data s a)
  then show ?case by (cases "pc s a") (auto simp: adv_def goto_def step_simps log_lost_def)
qed (auto simp: adv_def goto_def step_simps hand_back_def log_ret_def take_over_def unpark_all_def)

lemma blame_step:
  assumes r: "chan_reach f mb ww s" and st: "chan_step f mb ww s t" and B: "blame_inv s"
  shows "blame_inv t"
  unfolding blame_inv_def
proof
  assume "(\<exists>x. (Snd, SendErr x) \<in> set (rets t)) \<or> lost t \<noteq> []"
  then consider "(\<exists>x. (Snd, SendErr x) \<in> set (rets s)) \<or> lost s \<noteq> []" | x where "pc s Snd = Ret (SendErr x)"
    | a p where "pc s a = InDropR p" using rets_step[OF st] lost_step[OF st] by fastforce
  then have "\<exists>i. leaving (pc s (Rcv i))"
  proof cases
    case 2
    then show ?thesis using send_refused(3)[OF r] by blast
  next
    case 3
    then show ?thesis using ctl_side(1)[OF reach_facts(1)[OF r], of a] by (metis leaving.simps(2) snd_pc.simps(3))
  qed (use B in \<open>simp add: blame_inv_def\<close>)
  then show "\<exists>i. leaving (pc t (Rcv i))" using leaving_step[OF st] by blast
qed

lemma reach_blame: "chan_reach f mb ww s \<Longrightarrow> blame_inv s"
proof (induction rule: reach.induct)
  case (reach_init s)
  then show ?case by (simp add: blame_inv_def channel_def mem_new_def mem.defs)
qed (rule blame_step)

lemma reach_err_value: "chan_reach f mb ww s \<Longrightarrow> (Snd, SendErr x) \<in> set (rets s) \<Longrightarrow> x \<noteq> None"
proof (induction rule: reach.induct)
  case (reach_init s)
  then show ?case by (simp add: channel_def mem_new_def mem.defs)
next
  case (reach_step s t)
  show ?case
  proof (cases "(Snd, SendErr x) \<in> set (rets s)")
    case False
    then have "pc s Snd = Ret (SendErr x)" using rets_step[OF reach_step(2)] reach_step(4) by auto
    moreover have "\<not> lost_error (pc s Snd)" using reach_result[OF reach_step(1)] by (simp add: result_inv_def)
    ultimately show ?thesis by simp
  qed (rule reach_step(3))
qed

section \<open>Why a receiving call gets nothing\<close>

text \<open>A receiving thread that has won the value keeps it.\<close>

definition takes :: "('v, 'w) pc \<Rightarrow> bool" where
  "takes p \<longleftrightarrow> p = InRecv RcRead \<or> p = InPoll PoRead \<or> (\<exists>r. p = Ret r \<and> ret_value r \<noteq> None)"

definition in_hand :: "('v, 'w) chan \<Rightarrow> nat \<Rightarrow> bool" where
  "in_hand s j \<longleftrightarrow> takes (pc s (Rcv j)) \<or> (\<exists>v. (Rcv j, v) \<in> set (returned s))"

lemma takes_instr: "takes p \<Longrightarrow> instr f p = INone \<or> instr f p = IReadData \<and> (p = InRecv RcRead \<or> p = InPoll PoRead)"
  by (auto simp: takes_def)

lemma returned_snoc: "rets t = rets s @ [(a, r)] \<Longrightarrow> returned t = returned s @ (case ret_value r of None \<Rightarrow> [] | Some v \<Rightarrow> [(a, v)])"
  by (simp add: returned_def)

lemma returned_mem: "(a, v) \<in> set (returned s) \<longleftrightarrow> (\<exists>r. (a, r) \<in> set (rets s) \<and> ret_value r = Some v)"
  by (force simp: returned_def split: option.splits)

lemma takes_adv:
  assumes "takes (pc s b)" and "pc m = pc s" and "instr f (pc s a) \<noteq> INone" and "instr f (pc s a) = IReadData \<Longrightarrow> \<exists>v. r = Got (Some v)"
  shows "takes (pc (adv f a r m) b)"
proof (cases "b = a")
  case True
  then have "pc s a = InRecv RcRead \<or> pc s a = InPoll PoRead" "instr f (pc s a) = IReadData"
    using takes_instr[OF assms(1), of f] assms(3) by auto
  then show ?thesis using assms(2,4) True by (auto simp: pc_adv takes_def)
qed (use assms(1,2) in \<open>simp add: pc_adv\<close>)

lemma takes_keep:
  "takes (pc m b) \<Longrightarrow> instr f (pc m a) \<noteq> INone \<Longrightarrow> instr f (pc m a) \<noteq> IReadData \<Longrightarrow> takes (pc (adv f a r m) b)"
  using takes_adv[of m b m f a r] by blast

lemma takes_not_gives_up: "takes p \<Longrightarrow> \<not> gives_up p"
  by (auto simp: takes_def elim: gives_up.elims)

lemma in_hand_step:
  assumes I: "own_inv s" and st: "chan_step f mb ww s t" and h: "in_hand s j"
  shows "in_hand t j"
proof (cases "takes (pc s (Rcv j))")
  case False
  then obtain v where "(Rcv j, v) \<in> set (returned s)" using h by (auto simp: in_hand_def)
  then have "(Rcv j, v) \<in> set (returned t)" using rets_step[OF st] by (auto simp: returned_mem)
  then show ?thesis by (auto simp: in_hand_def)
next
  case True
  have "takes (pc t (Rcv j)) \<or> (\<exists>r. pc s (Rcv j) = Ret r \<and> rets t = rets s @ [(Rcv j, r)])"
    using st I True
  proof (induction rule: chan_step.induct)
    case (read_data s a)
    have "holds_data (pc s a)" using instr_data(2)[OF read_data(1)] by auto
    then have "data s \<noteq> None" using read_data(2) data_held(1) by (auto simp: own_inv_def)
    then show ?case using read_data(1,3) takes_adv[of s "Rcv j" "read_data a (log_lost a s)" f a] by (auto simp: step_simps)
  next
    case (wake_all s a)
    have "takes (pc (adv f a Done (touch a s)) (Rcv j))"
      by (rule takes_adv[of s]) (use wake_all in \<open>simp_all add: step_simps\<close>)
    then show ?case by (auto simp: unpark_all_def takes_def)
  next
    case (wait_block s a c)
    then show ?case using instr_block(1)[OF wait_block(2)] by (auto simp: goto_def step_simps takes_def)
  next
    case (ret_receiver s i r)
    then show ?case by (auto simp: goto_def hand_back_def log_ret_def)
  next
    case (call_poll s i w)
    then show ?case by (auto simp: goto_def may_own_def takes_def)
  next
    case (call_drop_receiver s i)
    then show ?case by (auto simp: goto_def may_own_def takes_def)
  next
    case (call_recv s i)
    then show ?case by (auto simp: goto_def takes_def)
  next
    case (ret_send s r)
    then show ?case by (simp add: goto_def log_ret_def)
  next
    case (call_send s v)
    then show ?case by (simp add: goto_def)
  next
    case (call_drop_sender s)
    then show ?case by (simp add: goto_def)
  qed (simp_all add: takes_keep step_simps)
  then show ?thesis
  proof
    assume "\<exists>r. pc s (Rcv j) = Ret r \<and> rets t = rets s @ [(Rcv j, r)]"
    then obtain r where r: "pc s (Rcv j) = Ret r" "rets t = rets s @ [(Rcv j, r)]" by blast
    then obtain v where "ret_value r = Some v" using True by (auto simp: takes_def)
    then show ?thesis using r(2) by (auto simp: in_hand_def returned_mem)
  qed (simp add: in_hand_def)
qed

lemma gives_up_why:
  fixes s :: "('a, 'b) chan"
  assumes r: "chan_reach f mb ww s" and g: "gives_up (pc s (Rcv i))"
  shows "(sent s = None \<and> leaving (pc s Snd)) \<or> (\<exists>j v. (Rcv j, v) \<in> set (returned s)) \<or> (\<exists>j. j \<noteq> i \<and> in_hand s j)"
proof -
  note I = reach_facts(1)[OF r] and O = reach_facts(2)[OF r]
  have data: "data_inv s" using O by (simp add: own_inv_def)
  have w: "latest s \<in> {2, 8, 10}" using reach_result[OF r] g by (auto simp: result_inv_def)
  have l: "leaving (pc s Snd) \<or> latest s = 8" using gave_up_final[OF r g] by blast
  have pre: "leaving (pc s Snd) \<or> \<not> presend (pc s Snd)"
    using l ctl_presend[OF I, of "top s"] by auto
  have gi: "pc s (Rcv i) \<noteq> Idle" using g by auto
  have stay: "\<not> leaving (pc s (Rcv j))" for j
  proof
    assume "leaving (pc s (Rcv j))"
    then have e: "excl (pc s (Rcv j))" by (rule leaving_excl[OF I])
    have "j = i" using ctl_excl[OF I e, of i] gi by blast
    with \<open>leaving (pc s (Rcv j))\<close> g show False by (cases "pc s (Rcv i)") auto
  qed
  then have blame: "lost s = []" "(Snd, SendErr x) \<notin> set (rets s)" for x
    using reach_blame[OF r] by (auto simp: blame_inv_def)
  obtain \<phi> where \<phi>: "fate_of s \<phi>" using reach_facts(3)[OF r] by (auto simp: fate_inv_def)
  have log: "snd_log s" by (rule reach_snd_log[OF r])
  have hand: "j \<noteq> i" if "takes (pc s (Rcv j))" for j using that g takes_not_gives_up by auto
  show ?thesis
  proof (cases \<phi>)
    case Unsent
    then have "sent s = None" using \<phi> by (simp add: fate_of_def)
    then show ?thesis using log pre by (auto simp: snd_log_def)
  next
    case (Carried a v)
    then have c: "carries (pc s a) = Some v" using \<phi> by (simp add: fate_of_def carrying_at)
    show ?thesis
    proof (cases a)
      case Snd
      then have "\<exists>x. pc s Snd = Ret (SendErr x)" using c pre ctl_side(1)[OF I, of Snd] log
        by (cases "pc s Snd" rule: carries.cases) (auto simp: snd_log_def elim: sends.elims)
      then show ?thesis using send_refused(3)[OF r] stay by blast
    next
      case (Rcv j)
      then have "takes (pc s (Rcv j))" using c ctl_side(2)[OF I, of a]
        by (cases "pc s a" rule: carries.cases) (auto simp: takes_def)
      then show ?thesis using hand by (auto simp: in_hand_def)
    qed
  next
    case (InCell v)
    then have "data s \<noteq> None" using \<phi> by (simp add: fate_of_def)
    moreover have "\<not> is_ready (latest s)" using w by (auto simp: word_state)
    ultimately obtain a where a: "holds_data (pc s a)" using data_owned[OF data] by blast
    show ?thesis
    proof (cases a)
      case Snd
      then show ?thesis using a pre ctl_side(1)[OF I, of a] by (cases "pc s Snd" rule: holds_data.cases) auto
    next
      case (Rcv j)
      then have "takes (pc s (Rcv j))" using a stay[of j] ctl_side(2)[OF I, of a]
        by (cases "pc s a" rule: holds_data.cases) (auto simp: takes_def)
      then show ?thesis using hand by (auto simp: in_hand_def)
    qed
  next
    case (Returned a v)
    then have m: "(a, v) \<in> set (returned s)" using \<phi> by (simp add: fate_of_def)
    show ?thesis
    proof (cases a)
      case Snd
      then obtain q where q: "(Snd, q) \<in> set (rets s)" "ret_value q = Some v" using m by (auto simp: returned_mem)
      then have "q \<in> set (res Snd (rets s))" by (simp add: res_mem)
      then have "sends (Ret q :: ('a, 'b) pc)" using log by (auto simp: snd_log_def split: if_splits)
      then have "\<exists>x. q = SendErr x" using q(2) by (cases q) auto
      then show ?thesis using q(1) blame(2) by auto
    qed (use m in blast)
  next
    case (Discarded v)
    then show ?thesis using \<phi> blame(1) by (simp add: fate_of_def)
  qed
qed

text \<open>
  C6. A receiving call returns \<^verbatim>\<open>None\<close> only if the sender leaves without having sent, or another call returned the
  value or has it in hand; and no later state of the channel offers a value.
\<close>

theorem recv_none_final:
  assumes "chan_reach f mb ww s" and "gives_up (pc s (Rcv i))" and "(chan_step f mb ww)\<^sup>*\<^sup>* s t"
  shows "((sent s = None \<and> leaving (pc s Snd)) \<or> (\<exists>j v. (Rcv j, v) \<in> set (returned s)) \<or> (\<exists>j. j \<noteq> i \<and> in_hand s j))
    \<and> \<not> is_ready (latest t)"
  using gives_up_why[OF assms(1,2)] gave_up_final[OF assms] by blast

lemma recv_none_final_witness:
  "\<exists>s. run all_features (=) (=) late_run channel = Some s \<and> gives_up (pc s (Rcv 1))
     \<and> ((sent s = None \<and> leaving (pc s Snd)) \<or> (\<exists>j v. (Rcv j, v) \<in> set (returned s)) \<or> (\<exists>j. j \<noteq> 1 \<and> in_hand s j))"
proof -
  obtain s where s: "run all_features (=) (=) late_run channel = Some s" "pc s (Rcv 1) = Ret (RecvRet None)"
    using late_run_ok by blast
  then have g: "gives_up (pc s (Rcv 1))" by simp
  show ?thesis using recv_none_final[OF run_channel[OF s(1)] g rtranclp.rtrancl_refl] s(1) g by blast
qed

text \<open>
  A logged \<^verbatim>\<open>None\<close>: nothing was sent and the sender is gone, or a call that returned earlier got the
  value, or another thread has it.
\<close>

definition none_log :: "('v, 'w) chan \<Rightarrow> bool" where
  "none_log s \<longleftrightarrow> (\<forall>xs i r ys. rets s = xs @ (Rcv i, r) # ys \<longrightarrow> gives_up (Ret r :: ('v, 'w) pc) \<longrightarrow>
     (sent s = None \<and> leaving (pc s Snd)) \<or> (\<exists>j q v. (Rcv j, q) \<in> set xs \<and> ret_value q = Some v) \<or> (\<exists>j. j \<noteq> i \<and> in_hand s j))"

lemma none_log_step:
  fixes s :: "('v, 'w) chan"
  assumes r: "chan_reach f mb ww s" and st: "chan_step f mb ww s t" and N: "none_log s"
  shows "none_log t"
  unfolding none_log_def
proof (intro allI impI)
  fix xs i r ys
  assume e: "rets t = xs @ (Rcv i, r) # ys" and g: "gives_up (Ret r :: ('v, 'w) pc)"
  have O: "own_inv s" by (rule reach_facts(2)[OF r])
  have "(sent s = None \<and> leaving (pc s Snd)) \<or> (\<exists>j q v. (Rcv j, q) \<in> set xs \<and> ret_value q = Some v) \<or> (\<exists>j. j \<noteq> i \<and> in_hand s j)"
  proof (cases "rets t = rets s \<or> ys \<noteq> []")
    case True
    then obtain ys' where "rets s = xs @ (Rcv i, r) # ys'"
      using rets_step[OF st] e by (metis append_butlast_last_id butlast.simps(2) butlast_append butlast_snoc list.distinct(1))
    then show ?thesis using N g unfolding none_log_def by blast
  next
    case False
    then have "pc s (Rcv i) = Ret r" "xs = rets s" using rets_step[OF st] e by auto
    then show ?thesis using gives_up_why[OF \<open>chan_reach f mb ww s\<close>, of i] g by (auto simp: returned_mem)
  qed
  moreover have "sent t = None \<and> leaving (pc t Snd)" if "sent s = None \<and> leaving (pc s Snd)"
    using that step_sent[OF st] leaving_step[OF st] by auto
  ultimately show "(sent t = None \<and> leaving (pc t Snd)) \<or> (\<exists>j q v. (Rcv j, q) \<in> set xs \<and> ret_value q = Some v) \<or> (\<exists>j. j \<noteq> i \<and> in_hand t j)"
    using in_hand_step[OF O st] by blast
qed

lemma reach_none_log: "chan_reach f mb ww s \<Longrightarrow> none_log s"
proof (induction rule: reach.induct)
  case (reach_init s)
  then show ?case by (simp add: none_log_def channel_def mem_new_def mem.defs)
qed (rule none_log_step)

section \<open>Sending to nobody\<close>

text \<open>Once the word says that the receiver is gone, a \<^verbatim>\<open>send\<close> that has not succeeded will not.\<close>

fun succeeds :: "('v, 'w) pc \<Rightarrow> bool" where
  "succeeds (Ret SendOk) = True"
| "succeeds (InSend SendAcq) = True"
| "succeeds (InSend SendWake) = True"
| "succeeds (InSend SendWakeAll) = True"
| "succeeds _ = False"

definition doomed :: "('v, 'w) chan \<Rightarrow> bool" where
  "doomed s \<longleftrightarrow> latest s = 10 \<and> SendOk \<notin> set (res Snd (rets s)) \<and> \<not> succeeds (pc s Snd)"

lemma nxt_succeeds:
  fixes p :: "('v, 'w) pc"
  assumes "succeeds (nxt f p r)" and "\<not> succeeds p"
  shows "\<exists>c. p = InSend (SendCas c) \<and> r = CasOk"
proof -
  have "\<exists>c. q = SendCas c \<and> r = CasOk" if "succeeds (send_next f q r :: ('v, 'w) pc)" "\<not> succeeds (InSend q :: ('v, 'w) pc)" for q
    using that by (cases "(f, q, r)" rule: send_next.cases) (auto split: if_splits)
  moreover have "\<not> succeeds (drops_next f q r :: ('v, 'w) pc)" for q
    by (cases "(f, q, r)" rule: drops_next.cases) (auto simp: loop_defs Let_def)
  moreover have "\<not> succeeds (recv_next f q r :: ('v, 'w) pc)" for q
    by (cases "(f, q, r)" rule: recv_next.cases) (auto simp: loop_defs)
  moreover have "\<not> succeeds (poll_next q r)" for q :: "'w poll_pc"
    by (cases "(q, r)" rule: poll_next.cases) (auto simp: loop_defs)
  moreover have "\<not> succeeds (dropr_next f q r :: ('v, 'w) pc)" for q
    by (cases "(f, q, r)" rule: dropr_next.cases) (auto simp: loop_defs)
  ultimately show ?thesis using assms by (cases p) auto
qed

lemma succeeds_adv:
  assumes "succeeds (pc (adv f a r m) b)" and "\<not> succeeds (pc m b)"
  shows "a = b \<and> r = CasOk \<and> (\<exists>c. pc m b = InSend (SendCas c))"
  using assms nxt_succeeds[of f "pc m b" r] by (cases "a = b") (auto simp: pc_adv)

lemma step_succeeds:
  assumes "chan_step f mb ww s t" and "succeeds (pc t Snd)" and "\<not> succeeds (pc s Snd)"
  shows "pc s Snd = InSend (SendCas (latest s))"
  using assms
proof (induction rule: chan_step.induct)
  case (cas_ok s a op cur)
  then show ?case using succeeds_adv[OF cas_ok(3)] by (auto simp: step_simps)
next
  case (wake_all s a)
  then have "succeeds (pc (adv f a Done (touch a s)) Snd)" by (auto simp: unpark_all_def split: if_splits)
  then show ?case using succeeds_adv[of f a Done "touch a s" Snd] wake_all by (auto simp: step_simps)
qed (use succeeds_adv in \<open>fastforce simp: step_simps goto_def take_over_def hand_back_def log_ret_def split: if_splits\<close>)+

lemma doomed_step:
  assumes r: "chan_reach f mb ww s" and st: "chan_step f mb ww s t" and D: "doomed s"
  shows "doomed t"
proof -
  note I = reach_facts(1)[OF r]
  have w: "latest s = 10" using D by (simp add: doomed_def)
  have "latest t = 10" using latest_evolves[OF I st] w by (simp add: evolves_def)
  moreover have "\<not> succeeds (pc t Snd)"
  proof
    assume "succeeds (pc t Snd)"
    then have "pc s Snd = InSend (SendCas (latest s))" using step_succeeds[OF st] D by (simp add: doomed_def)
    then show False using ctl_know[OF I, of Snd] w by (simp add: word_state)
  qed
  moreover have "SendOk \<notin> set (res Snd (rets t))"
    using rets_step[OF st] D by (auto simp: doomed_def)
  ultimately show ?thesis by (simp add: doomed_def)
qed

end
