(* ===== verification/OneshotClient.thy ===== *)
theory OneshotClient
  imports OneshotLog OneshotRun
begin

text \<open>
  Programs that use the channel: threads with scripts of calls, joins and assertions, whose steps
  interleave with the instructions of the channel in every way. Thread \<open>t\<close> calls the receiver as
  \<open>Rcv t\<close>.
\<close>

section \<open>Scripts and their steps\<close>

text \<open>
  \<open>Assert\<close> tests the results of the calls that have returned so far and the values that the channel
  dropped unread; a thread whose assertion is false does not go on (it panics).
\<close>

datatype ('v, 'w) cmd =
    CSend 'v
  | CDropTx
  | CRecv
  | CPoll 'w
  | CDropRx
  | Join nat
  | Assert "(agent \<times> 'v ret) list \<Rightarrow> 'v list \<Rightarrow> bool"

type_synonym ('v, 'w) script = "nat \<Rightarrow> ('v, 'w) cmd list"

record ('v, 'w) client =
  chn :: "('v, 'w) chan"
  past :: "('v, 'w) script"
  code :: "('v, 'w) script"
  busy :: "nat \<Rightarrow> bool"

definition client_new :: "('v, 'w) script \<Rightarrow> ('v, 'w) client" where
  "client_new prog = \<lparr>chn = channel, past = (\<lambda>_. []), code = prog, busy = (\<lambda>_. False)\<rparr>"

fun call_label :: "nat \<Rightarrow> ('v, 'w) cmd \<Rightarrow> ('v, 'w) label option" where
  "call_label t (CSend v) = Some (LSend v)"
| "call_label t CDropTx = Some LDropSender"
| "call_label t CRecv = Some (LRecv t)"
| "call_label t (CPoll w) = Some (LPoll t w)"
| "call_label t CDropRx = Some (LDropReceiver t)"
| "call_label t _ = None"

text \<open>\<^verbatim>\<open>send\<close> consumes the sender, so it has returned when the sender is gone.\<close>

fun finished :: "nat \<Rightarrow> ('v, 'w) cmd \<Rightarrow> ('v, 'w) chan \<Rightarrow> bool" where
  "finished t (CSend v) s \<longleftrightarrow> pc s Snd = Gone"
| "finished t CDropTx s \<longleftrightarrow> pc s Snd = Gone"
| "finished t CRecv s \<longleftrightarrow> pc s (Rcv t) = Idle"
| "finished t (CPoll w) s \<longleftrightarrow> pc s (Rcv t) = Idle"
| "finished t CDropRx s \<longleftrightarrow> pc s (Rcv t) = Gone"
| "finished t _ s \<longleftrightarrow> False"

definition next_cmd :: "nat \<Rightarrow> ('v, 'w) client \<Rightarrow> ('v, 'w) client" where
  "next_cmd t c = c\<lparr>past := (past c)(t := past c t @ [hd (code c t)]), code := (code c)(t := tl (code c t)),
     busy := (busy c)(t := False)\<rparr>"

inductive client_step ::
  "features \<Rightarrow> (u32 \<Rightarrow> u32 \<Rightarrow> bool) \<Rightarrow> ('w \<Rightarrow> 'w \<Rightarrow> bool) \<Rightarrow> ('v, 'w) client \<Rightarrow> ('v, 'w) client \<Rightarrow> bool"
  for f mb ww where
  begin_call: "code c t = d # ds \<Longrightarrow> \<not> busy c t \<Longrightarrow> call_label t d = Some l \<Longrightarrow> fire f mb ww l (chn c) = Some s \<Longrightarrow>
     client_step f mb ww c (c\<lparr>chn := s, busy := (busy c)(t := True)\<rparr>)"
| in_call: "chan_step f mb ww (chn c) s \<Longrightarrow> (\<And>a. pc (chn c) a = Idle \<Longrightarrow> pc s a = Idle) \<Longrightarrow>
     client_step f mb ww c (c\<lparr>chn := s\<rparr>)"
| end_call: "code c t = d # ds \<Longrightarrow> busy c t \<Longrightarrow> finished t d (chn c) \<Longrightarrow> client_step f mb ww c (next_cmd t c)"
| join: "code c t = Join u # ds \<Longrightarrow> code c u = [] \<Longrightarrow> client_step f mb ww c (next_cmd t c)"
| check: "code c t = Assert P # ds \<Longrightarrow> P (rets (chn c)) (lost (chn c)) \<Longrightarrow> client_step f mb ww c (next_cmd t c)"

abbreviation client_reach ::
  "features \<Rightarrow> (u32 \<Rightarrow> u32 \<Rightarrow> bool) \<Rightarrow> ('w \<Rightarrow> 'w \<Rightarrow> bool) \<Rightarrow> ('v, 'w) script \<Rightarrow> ('v, 'w) client \<Rightarrow> bool" where
  "client_reach f mb ww prog \<equiv> reach (\<lambda>c. c = client_new prog) (client_step f mb ww)"

text \<open>A program passes if no interleaving makes an assertion fail.\<close>

definition passes ::
  "features \<Rightarrow> (u32 \<Rightarrow> u32 \<Rightarrow> bool) \<Rightarrow> ('w \<Rightarrow> 'w \<Rightarrow> bool) \<Rightarrow> ('v, 'w) script \<Rightarrow> bool" where
  "passes f mb ww prog \<longleftrightarrow> (\<forall>c t P ds. client_reach f mb ww prog c \<longrightarrow> code c t = Assert P # ds \<longrightarrow> P (rets (chn c)) (lost (chn c)))"

section \<open>What the scripts say of the channel\<close>

text \<open>The command of a thread that is in a call, and the commands it has begun.\<close>

definition doing :: "('v, 'w) client \<Rightarrow> nat \<Rightarrow> ('v, 'w) cmd option" where
  "doing c t = (if busy c t then Some (hd (code c t)) else None)"

definition begun :: "('v, 'w) client \<Rightarrow> nat \<Rightarrow> ('v, 'w) cmd \<Rightarrow> bool" where
  "begun c t d \<longleftrightarrow> d \<in> set (past c t) \<or> doing c t = Some d"

fun is_call :: "('v, 'w) cmd \<Rightarrow> bool" where
  "is_call CRecv = True"
| "is_call (CPoll w) = True"
| "is_call _ = False"

definition calls :: "('v, 'w) client \<Rightarrow> nat \<Rightarrow> nat" where
  "calls c t = length (filter is_call (past c t))"

definition script_inv :: "('v, 'w) script \<Rightarrow> ('v, 'w) client \<Rightarrow> bool" where
  "script_inv prog c \<longleftrightarrow> (\<forall>t. prog t = past c t @ code c t)
     \<and> (\<forall>t. busy c t \<longrightarrow> code c t \<noteq> [] \<and> call_label t (hd (code c t)) \<noteq> None)
     \<and> (\<forall>t u. Join u \<in> set (past c t) \<longrightarrow> code c u = [] \<and> \<not> busy c u)"

text \<open>The sender: the value is that of the one \<^verbatim>\<open>send\<close>.\<close>

definition tx_inv :: "('v, 'w) client \<Rightarrow> bool" where
  "tx_inv c \<longleftrightarrow> (\<forall>v. sent (chn c) = Some v \<longrightarrow> (\<exists>t. begun c t (CSend v)))
     \<and> (pc (chn c) Snd \<noteq> Idle \<longrightarrow> sent (chn c) = None \<longrightarrow> (\<exists>t. begun c t CDropTx))
     \<and> (\<forall>t v. begun c t (CSend v) \<longrightarrow> sent (chn c) = Some v \<and> pc (chn c) Snd \<noteq> Idle)
     \<and> (\<forall>t. begun c t CDropTx \<longrightarrow> pc (chn c) Snd \<noteq> Idle)
     \<and> (\<forall>t d. d \<in> set (past c t) \<longrightarrow> (\<exists>v. d = CSend v) \<or> d = CDropTx \<longrightarrow> pc (chn c) Snd = Gone)"

text \<open>The receiver, thread by thread.\<close>

fun rx_ok :: "('v, 'w) pc \<Rightarrow> nat \<Rightarrow> nat \<Rightarrow> bool \<Rightarrow> ('v, 'w) cmd option \<Rightarrow> bool" where
  "rx_ok p m n gone (Some CRecv) \<longleftrightarrow> (gone \<longrightarrow> p = Gone) \<and> (receives p \<and> m = n \<or> p = Idle \<and> m = Suc n)"
| "rx_ok p m n gone (Some (CPoll w)) \<longleftrightarrow> (gone \<longrightarrow> p = Gone) \<and> (polling_call p \<and> m = n \<or> p = Idle \<and> m = Suc n)"
| "rx_ok p m n gone (Some CDropRx) \<longleftrightarrow> (gone \<longrightarrow> p = Gone) \<and> leaving p \<and> m = n"
| "rx_ok p m n gone _ \<longleftrightarrow> (if gone then p = Gone else p = Idle) \<and> m = n"

definition rx_inv :: "('v, 'w) client \<Rightarrow> nat \<Rightarrow> bool" where
  "rx_inv c t \<longleftrightarrow> rx_ok (pc (chn c) (Rcv t)) (length (res (Rcv t) (rets (chn c)))) (calls c t) (CDropRx \<in> set (past c t)) (doing c t)"

definition kind_inv :: "('v, 'w) client \<Rightarrow> nat \<Rightarrow> bool" where
  "kind_inv c t \<longleftrightarrow> (\<forall>r \<in> set (res (Rcv t) (rets (chn c))).
     (receives (Ret r :: ('v, 'w) pc) \<and> begun c t CRecv) \<or> (polling_call (Ret r :: ('v, 'w) pc) \<and> (\<exists>w. begun c t (CPoll w))))"

definition client_inv ::
  "features \<Rightarrow> (u32 \<Rightarrow> u32 \<Rightarrow> bool) \<Rightarrow> ('w \<Rightarrow> 'w \<Rightarrow> bool) \<Rightarrow> ('v, 'w) script \<Rightarrow> ('v, 'w) client \<Rightarrow> bool" where
  "client_inv f mb ww prog c \<longleftrightarrow> chan_reach f mb ww (chn c) \<and> script_inv prog c \<and> tx_inv c
     \<and> (\<forall>t. rx_inv c t \<and> kind_inv c t)"

section \<open>The invariant is kept\<close>

lemma client_inv_new: "client_inv f mb ww prog (client_new prog)"
  by (simp add: client_inv_def script_inv_def tx_inv_def rx_inv_def kind_inv_def client_new_def doing_def calls_def
      begun_def channel_def mem_new_def mem.defs reach_init)

lemma doing_next [simp]:
  "doing (next_cmd t c) u = (if u = t then None else doing c u)"
  "past (next_cmd t c) u = (if u = t then past c t @ [hd (code c t)] else past c u)"
  "code (next_cmd t c) u = (if u = t then tl (code c t) else code c u)"
  "busy (next_cmd t c) u = (u \<noteq> t \<and> busy c u)" "chn (next_cmd t c) = chn c"
  by (simp_all add: next_cmd_def doing_def)

lemma begun_next: "begun (next_cmd t c) u d \<longleftrightarrow> begun c u d \<or> u = t \<and> d = hd (code c t)"
  by (auto simp: begun_def doing_def)

lemma begun_next_busy: "busy c t \<Longrightarrow> begun (next_cmd t c) u d \<longleftrightarrow> begun c u d"
  by (auto simp: begun_def doing_def)

lemma script_next:
  assumes S: "script_inv prog c" and ne: "code c t \<noteq> []"
    and jn: "\<And>u. hd (code c t) = Join u \<Longrightarrow> code c u = []"
  shows "script_inv prog (next_cmd t c)"
  unfolding script_inv_def
proof (intro conjI allI impI)
  show "prog u = past (next_cmd t c) u @ code (next_cmd t c) u" for u using S ne by (auto simp: script_inv_def)
  show "code (next_cmd t c) u \<noteq> []" "call_label u (hd (code (next_cmd t c) u)) \<noteq> None" if "busy (next_cmd t c) u" for u
    using that S by (auto simp: script_inv_def)
  fix v u assume j: "Join u \<in> set (past (next_cmd t c) v)"
  have "code c u = [] \<and> \<not> busy c u"
  proof (cases "Join u \<in> set (past c v)")
    case False
    then have "hd (code c t) = Join u" using j by (simp split: if_splits)
    then show ?thesis using jn S by (auto simp: script_inv_def)
  qed (use S in \<open>auto simp: script_inv_def\<close>)
  then show "code (next_cmd t c) u = []" "\<not> busy (next_cmd t c) u" using ne by auto
qed

lemma tx_next:
  assumes X: "tx_inv c" and "busy c t \<or> call_label t (hd (code c t)) = None"
    and "\<And>v. hd (code c t) = CSend v \<Longrightarrow> pc (chn c) Snd = Gone" "hd (code c t) = CDropTx \<Longrightarrow> pc (chn c) Snd = Gone"
  shows "tx_inv (next_cmd t c)"
proof -
  have b: "begun (next_cmd t c) u (CSend v) = begun c u (CSend v)" "begun (next_cmd t c) u CDropTx = begun c u CDropTx" for u v
    using assms(2) by (cases "hd (code c t)"; auto simp: begun_def doing_def)+
  show ?thesis using X assms(3,4) unfolding tx_inv_def b by auto
qed

lemma calls_next: "calls (next_cmd t c) u = calls c u + (if u = t \<and> is_call (hd (code c t)) then 1 else 0)"
  by (auto simp: calls_def)

lemma kind_next: "kind_inv c u \<Longrightarrow> kind_inv (next_cmd t c) u"
  by (fastforce simp: kind_inv_def begun_next)

lemma rx_next_call:
  assumes R: "rx_inv c u" and b: "busy c t" and fin: "finished t (hd (code c t)) (chn c)"
  shows "rx_inv (next_cmd t c) u"
proof (cases "u = t")
  case True
  have d: "doing c t = Some (hd (code c t))" using b by (simp add: doing_def)
  show ?thesis using R fin unfolding True rx_inv_def doing_next calls_next d by (cases "hd (code c t)") auto
qed (use R in \<open>simp add: rx_inv_def calls_next\<close>)

lemma rx_next_other:
  assumes R: "rx_inv c u" and b: "\<not> busy c t" and n: "call_label t (hd (code c t)) = None"
  shows "rx_inv (next_cmd t c) u"
proof (cases "u = t")
  case True
  have d: "doing c t = None" using b by (simp add: doing_def)
  show ?thesis using R n unfolding True rx_inv_def doing_next calls_next d by (cases "hd (code c t)") auto
qed (use R in \<open>simp add: rx_inv_def calls_next\<close>)

text \<open>A step of the channel inside the calls.\<close>

lemma begun_chn [simp]: "begun (c\<lparr>chn := s\<rparr>) = begun c" "doing (c\<lparr>chn := s\<rparr>) = doing c" "calls (c\<lparr>chn := s\<rparr>) = calls c"
  by (auto simp: begun_def doing_def calls_def fun_eq_iff)

lemma tx_in_call:
  assumes X: "tx_inv c" and st: "chan_step f mb ww (chn c) s" and idle: "\<And>a. pc (chn c) a = Idle \<Longrightarrow> pc s a = Idle"
  shows "tx_inv (c\<lparr>chn := s\<rparr>)"
proof -
  obtain h where h: "happens Snd (chn c) s h" by (rule step_happens[OF st])
  have "sent s = sent (chn c)" using step_sent[OF st] idle[of Snd] by auto
  moreover have "pc s Snd = Idle \<longleftrightarrow> pc (chn c) Snd = Idle" "pc (chn c) Snd = Gone \<Longrightarrow> pc s Snd = Gone"
    using h idle[of Snd] by (cases h; simp add: happens_def same_call_def)+
  ultimately show ?thesis using X unfolding tx_inv_def by simp
qed

lemma rx_in_call:
  assumes R: "rx_inv c t" and st: "chan_step f mb ww (chn c) s" and idle: "\<And>a. pc (chn c) a = Idle \<Longrightarrow> pc s a = Idle"
  shows "rx_inv (c\<lparr>chn := s\<rparr>) t"
proof -
  obtain h where h: "happens (Rcv t) (chn c) s h" by (rule step_happens[OF st])
  show ?thesis
  proof (cases h)
    case Quiet
    then have q: "same_call (pc (chn c) (Rcv t)) (pc s (Rcv t))" "res (Rcv t) (rets s) = res (Rcv t) (rets (chn c))"
      using h by (simp_all add: happens_def)
    show ?thesis using R q(1) unfolding rx_inv_def begun_chn q(2)
      by (cases "(pc (chn c) (Rcv t), length (res (Rcv t) (rets (chn c))), calls c t, CDropRx \<in> set (past c t), doing c t)"
          rule: rx_ok.cases) (auto simp: same_call_def q(2))
  next
    case Begins
    then show ?thesis using h idle[of "Rcv t"] by (simp add: happens_def)
  next
    case (Logs r)
    then have q: "pc (chn c) (Rcv t) = Ret r" "pc s (Rcv t) = Idle" "res (Rcv t) (rets s) = res (Rcv t) (rets (chn c)) @ [r]"
      using h by (simp_all add: happens_def)
    show ?thesis using R q unfolding rx_inv_def begun_chn
      by (cases "(pc (chn c) (Rcv t), length (res (Rcv t) (rets (chn c))), calls c t, CDropRx \<in> set (past c t), doing c t)"
          rule: rx_ok.cases) (auto split: if_splits)
  qed
qed

lemma kind_in_call:
  fixes c :: "('a, 'b) client"
  assumes K: "kind_inv c t" and R: "rx_inv c t" and st: "chan_step f mb ww (chn c) s" and idle: "\<And>a. pc (chn c) a = Idle \<Longrightarrow> pc s a = Idle"
  shows "kind_inv (c\<lparr>chn := s\<rparr>) t"
proof -
  obtain h where h: "happens (Rcv t) (chn c) s h" by (rule step_happens[OF st])
  show ?thesis
  proof (cases h)
    case Quiet
    then show ?thesis using K h by (simp add: happens_def kind_inv_def)
  next
    case Begins
    then show ?thesis using h idle[of "Rcv t"] by (simp add: happens_def)
  next
    case (Logs r)
    then have q: "pc (chn c) (Rcv t) = Ret r" "res (Rcv t) (rets s) = res (Rcv t) (rets (chn c)) @ [r]"
      using h by (simp_all add: happens_def)
    have "receives (Ret r :: ('a, 'b) pc) \<and> doing c t = Some CRecv \<or> polling_call (Ret r :: ('a, 'b) pc) \<and> (\<exists>w. doing c t = Some (CPoll w))"
      using R q unfolding rx_inv_def
      by (cases "(pc (chn c) (Rcv t), length (res (Rcv t) (rets (chn c))), calls c t, CDropRx \<in> set (past c t), doing c t)"
          rule: rx_ok.cases) (auto split: if_splits)
    then show ?thesis using K q(2) by (auto simp: kind_inv_def begun_def)
  qed
qed

text \<open>A call begins.\<close>

lemma call_effect:
  assumes "call_label t d = Some l" and "fire f mb ww l s0 = Some s"
  shows "rets s = rets s0" and "d = CSend v \<Longrightarrow> pc s0 Snd = Idle \<and> pc s = (pc s0)(Snd := InSend (SendLoad v)) \<and> sent s = Some v"
    and "d = CDropTx \<Longrightarrow> pc s0 Snd = Idle \<and> pc s = (pc s0)(Snd := InDropS DsLoad) \<and> sent s = sent s0"
    and "d = CRecv \<Longrightarrow> pc s0 (Rcv t) = Idle \<and> pc s = (pc s0)(Rcv t := InRecv RcLoad) \<and> sent s = sent s0"
    and "d = CPoll w \<Longrightarrow> pc s0 (Rcv t) = Idle \<and> pc s = (pc s0)(Rcv t := InPoll (PoLoad w)) \<and> sent s = sent s0"
    and "d = CDropRx \<Longrightarrow> pc s0 (Rcv t) = Idle \<and> pc s = (pc s0)(Rcv t := InDropR DrLoad) \<and> sent s = sent s0"
  using assms by (cases d; auto simp: goto_def take_over_def may_own_def split: if_splits)+

lemma call_other:
  assumes "call_label t d = Some l" and "fire f mb ww l s0 = Some s" and "u \<noteq> t"
  shows "pc s (Rcv u) = pc s0 (Rcv u)"
proof (cases d)
  case (CSend v) show ?thesis using call_effect(2)[OF assms(1,2) CSend] by simp
next
  case CDropTx show ?thesis using call_effect(3)[OF assms(1,2) CDropTx] by simp
next
  case CRecv show ?thesis using call_effect(4)[OF assms(1,2) CRecv] assms(3) by simp
next
  case (CPoll w) show ?thesis using call_effect(5)[OF assms(1,2) CPoll] assms(3) by simp
next
  case CDropRx show ?thesis using call_effect(6)[OF assms(1,2) CDropRx] assms(3) by simp
qed (use assms(1) in simp_all)

text \<open>A thread that is in no call, before and after the call begins.\<close>

lemma call_rx_ok:
  assumes l: "call_label t d = Some l" and fr: "fire f mb ww l s0 = Some s" and R: "rx_ok (pc s0 (Rcv t)) m n gone None"
  shows "rx_ok (pc s (Rcv t)) m n gone (Some d)"
proof -
  note E = call_effect[OF l fr]
  have o: "if gone then pc s0 (Rcv t) = Gone else pc s0 (Rcv t) = Idle" and n: "m = n" using R by simp_all
  have new: "\<not> gone" if "pc s0 (Rcv t) = Idle" using o that by auto
  show ?thesis
  proof (cases d)
    case (CSend v) show ?thesis using E(2)[OF CSend] o n by (simp add: CSend)
  next
    case CDropTx show ?thesis using E(3)[OF CDropTx] o n by (simp add: CDropTx)
  next
    case CRecv show ?thesis using E(4)[OF CRecv] n new by (simp add: CRecv)
  next
    case (CPoll w) show ?thesis using E(5)[OF CPoll] n new by (simp add: CPoll)
  next
    case CDropRx show ?thesis using E(6)[OF CDropRx] n new by (simp add: CDropRx)
  qed (use l in simp_all)
qed

lemma start_simps [simp]:
  "doing (c\<lparr>chn := s, busy := (busy c)(t := True)\<rparr>) u = (if u = t then Some (hd (code c t)) else doing c u)"
  "calls (c\<lparr>chn := s, busy := (busy c)(t := True)\<rparr>) u = calls c u"
  by (simp_all add: doing_def calls_def)

lemma begun_start: "\<not> busy c t \<Longrightarrow> begun (c\<lparr>chn := s, busy := (busy c)(t := True)\<rparr>) u d \<longleftrightarrow> begun c u d \<or> u = t \<and> d = hd (code c t)"
  by (auto simp: begun_def doing_def)

lemma tx_start:
  assumes X: "tx_inv c" and nb: "\<not> busy c t" and l: "call_label t (hd (code c t)) = Some l" and fr: "fire f mb ww l (chn c) = Some s"
  shows "tx_inv (c\<lparr>chn := s, busy := (busy c)(t := True)\<rparr>)"
proof -
  note E = call_effect[OF l fr]
  have none: "(\<nexists>u v. begun c u (CSend v)) \<and> (\<forall>u d. d \<in> set (past c u) \<longrightarrow> d \<noteq> CDropTx \<and> (\<forall>v. d \<noteq> CSend v))" if "pc (chn c) Snd = Idle"
    using X that unfolding tx_inv_def by (metis pc.distinct(13))
  show ?thesis
  proof (cases "hd (code c t)")
    case (CSend v)
    then show ?thesis using E(2)[OF CSend] none unfolding tx_inv_def begun_start[OF nb] by auto
  next
    case CDropTx
    then show ?thesis using E(3)[OF CDropTx] none X unfolding tx_inv_def begun_start[OF nb] by auto
  next
    case CRecv
    then show ?thesis using E(4)[OF CRecv] X unfolding tx_inv_def begun_start[OF nb] by auto
  next
    case (CPoll w)
    then show ?thesis using E(5)[OF CPoll] X unfolding tx_inv_def begun_start[OF nb] by auto
  next
    case CDropRx
    then show ?thesis using E(6)[OF CDropRx] X unfolding tx_inv_def begun_start[OF nb] by auto
  qed (use l in simp_all)
qed

lemma rx_start:
  assumes R: "rx_inv c u" and nb: "\<not> busy c t" and l: "call_label t (hd (code c t)) = Some l" and fr: "fire f mb ww l (chn c) = Some s"
  shows "rx_inv (c\<lparr>chn := s, busy := (busy c)(t := True)\<rparr>) u"
proof -
  have d: "doing c t = None" using nb by (simp add: doing_def)
  have rs: "res (Rcv u) (rets s) = res (Rcv u) (rets (chn c))" using call_effect(1)[OF l fr] by simp
  show ?thesis
  proof (cases "u = t")
    case False
    then show ?thesis using R rs call_other[OF l fr False] by (simp add: rx_inv_def)
  next
    case True
    show ?thesis using R rs call_rx_ok[OF l fr] d unfolding True rx_inv_def by simp
  qed
qed

lemma kind_start:
  assumes K: "kind_inv c u" and nb: "\<not> busy c t" and l: "call_label t (hd (code c t)) = Some l" and fr: "fire f mb ww l (chn c) = Some s"
  shows "kind_inv (c\<lparr>chn := s, busy := (busy c)(t := True)\<rparr>) u"
proof -
  have "res (Rcv u) (rets s) = res (Rcv u) (rets (chn c))" using call_effect(1)[OF l fr] by simp
  then show ?thesis using K begun_start[OF nb, of s u] unfolding kind_inv_def by fastforce
qed

lemma client_inv_next:
  assumes "client_inv f mb ww prog c" and "script_inv prog (next_cmd t c)" and "tx_inv (next_cmd t c)"
    and "\<And>u. rx_inv c u \<Longrightarrow> rx_inv (next_cmd t c) u"
  shows "client_inv f mb ww prog (next_cmd t c)"
  using assms kind_next unfolding client_inv_def doing_next by blast

lemma client_inv_step: "client_step f mb ww c c' \<Longrightarrow> client_inv f mb ww prog c \<Longrightarrow> client_inv f mb ww prog c'"
proof (induction rule: client_step.induct)
  case (begin_call c t d ds l s)
  then have l: "call_label t (hd (code c t)) = Some l" by simp
  have S: "script_inv prog (c\<lparr>chn := s, busy := (busy c)(t := True)\<rparr>)"
    using begin_call(1,5) l by (auto simp: client_inv_def script_inv_def)
  have "chan_reach f mb ww s" using begin_call(4,5) fire_step reach_step unfolding client_inv_def by metis
  then show ?case using begin_call(5) S tx_start[OF _ begin_call(2) l begin_call(4)] rx_start[OF _ begin_call(2) l begin_call(4)]
      kind_start[OF _ begin_call(2) l begin_call(4)] by (simp add: client_inv_def)
next
  case (in_call c s)
  have "chan_reach f mb ww s" using in_call(1,3) reach_step unfolding client_inv_def by metis
  moreover have "script_inv prog (c\<lparr>chn := s\<rparr>)" using in_call(3) by (simp add: client_inv_def script_inv_def)
  ultimately show ?case using in_call(3) tx_in_call[OF _ in_call(1,2)] rx_in_call[OF _ in_call(1,2)]
      kind_in_call[OF _ _ in_call(1,2)] by (simp add: client_inv_def)
next
  case (end_call c t d ds)
  then have h: "hd (code c t) = d" "code c t \<noteq> []" by simp_all
  have "script_inv prog (next_cmd t c)"
    using end_call h by (intro script_next) (auto simp: client_inv_def script_inv_def)
  moreover have "tx_inv (next_cmd t c)" using end_call h by (intro tx_next) (auto simp: client_inv_def)
  ultimately show ?case using end_call h by (intro client_inv_next[OF end_call(4)] rx_next_call) simp_all
next
  case (join c t u ds)
  then have nb: "\<not> busy c t" by (auto simp: client_inv_def script_inv_def)
  have "script_inv prog (next_cmd t c)" using join by (intro script_next) (auto simp: client_inv_def)
  moreover have "tx_inv (next_cmd t c)" using join by (intro tx_next) (auto simp: client_inv_def)
  ultimately show ?case using join nb by (intro client_inv_next[OF join(3)] rx_next_other) simp_all
next
  case (check c t P ds)
  then have nb: "\<not> busy c t" by (auto simp: client_inv_def script_inv_def)
  have "script_inv prog (next_cmd t c)" using check by (intro script_next) (auto simp: client_inv_def)
  moreover have "tx_inv (next_cmd t c)" using check by (intro tx_next) (auto simp: client_inv_def)
  ultimately show ?case using check nb by (intro client_inv_next[OF check(3)] rx_next_other) simp_all
qed

interpretation clients: inv_system "\<lambda>c. c = client_new prog" "client_step f mb ww" "client_inv f mb ww prog" for prog f mb ww
  by unfold_locales (auto simp only: client_inv_new intro: client_inv_step)

end
