(* ===== verification/OneshotResults.thy ===== *)
theory OneshotResults
  imports OneshotClient
begin

text \<open>
  What the calls of a client program return, for the shapes that programs over the channel take: one
  receiving thread, several of them, a receiver dropped first, polls around a \<^verbatim>\<open>send\<close>.
\<close>

section \<open>Results of a client\<close>

lemma client_facts:
  assumes "client_reach f mb ww prog c"
  shows "chan_reach f mb ww (chn c)" "script_inv prog c" "tx_inv c" "rx_inv c t" "kind_inv c t" "snd_log (chn c)"
    "none_log (chn c)" "blame_inv (chn c)"
proof -
  have "client_inv f mb ww prog c" using assms by (rule clients.reach_inv)
  then show "chan_reach f mb ww (chn c)" "script_inv prog c" "tx_inv c" "rx_inv c t" "kind_inv c t" by (simp_all add: client_inv_def)
  then show "snd_log (chn c)" "none_log (chn c)" "blame_inv (chn c)"
    using reach_snd_log reach_none_log reach_blame by blast+
qed

lemma script_split: "script_inv prog c \<Longrightarrow> prog t = past c t @ code c t"
  by (simp add: script_inv_def)

lemma begun_in: "script_inv prog c \<Longrightarrow> begun c t d \<Longrightarrow> d \<in> set (prog t)"
  by (auto simp: begun_def doing_def script_inv_def split: if_splits)

lemma begun_split:
  assumes "script_inv prog c" and "begun c t d"
  obtains xs ys zs where "prog t = xs @ d # ys" and "past c t = xs @ zs"
proof (cases "d \<in> set (past c t)")
  case True
  then obtain xs ys where "past c t = xs @ d # ys" by (auto simp: in_set_conv_decomp)
  then show ?thesis using that[of xs "ys @ code c t" "d # ys"] script_split[OF assms(1), of t] by simp
next
  case False
  then have "busy c t" "d = hd (code c t)" using assms(2) by (auto simp: begun_def doing_def split: if_splits)
  then have "code c t = d # tl (code c t)" using assms(1) by (auto simp: script_inv_def)
  then have "prog t = past c t @ d # tl (code c t)" using script_split[OF assms(1), of t] by metis
  then show ?thesis using that[of "past c t" "tl (code c t)" "[]"] by simp
qed

text \<open>All values that were returned are the one that was sent, and there is at most one.\<close>

lemma returned_one:
  assumes "chan_reach f mb ww s" and "(a, q) \<in> set (rets s)" and "ret_value q = Some v"
  shows "sent s = Some v" and "returned s = [(a, v)]" and "lost s = []"
proof -
  obtain \<phi> where \<phi>: "fate_of s \<phi>" using reach_facts(3)[OF assms(1)] by (auto simp: fate_inv_def)
  have "(a, v) \<in> set (returned s)" using assms(2,3) by (auto simp: returned_mem)
  then have "\<phi> = Returned a v" using \<phi> by (cases \<phi>) (auto simp: fate_of_def)
  then show "sent s = Some v" "returned s = [(a, v)]" "lost s = []" using \<phi> by (simp_all add: fate_of_def)
qed

lemma takes_doing:
  assumes "rx_inv c j" and "takes (pc (chn c) (Rcv j))"
  shows "\<exists>d. doing c j = Some d \<and> is_call d"
proof -
  have "pc (chn c) (Rcv j) \<notin> {Idle, Gone}" "\<not> leaving (pc (chn c) (Rcv j))" using assms(2) by (auto simp: takes_def)
  then show ?thesis using assms(1) unfolding rx_inv_def
    by (cases "(pc (chn c) (Rcv j), length (res (Rcv j) (rets (chn c))), calls c j, CDropRx \<in> set (past c j), doing c j)"
        rule: rx_ok.cases) (auto split: if_splits)
qed

lemma res_split:
  assumes "res a rs = xs @ r # ys"
  obtains us vs where "rs = us @ (a, r) # vs" and "res a us = xs"
proof -
  have "\<exists>us vs. rs = us @ (a, r) # vs \<and> res a us = xs" using assms
  proof (induction rs arbitrary: xs)
    case (Cons p rs)
    obtain b q where p: "p = (b, q)" by (cases p)
    show ?case
    proof (cases "b = a \<and> xs = []")
      case True
      then have "p # rs = [] @ (a, r) # rs \<and> res a [] = xs" using Cons.prems p by simp
      then show ?thesis by blast
    next
      case False
      then obtain xs' where "res a rs = xs' @ r # ys" "xs = (if b = a then [q] else []) @ xs'"
        using Cons.prems p by (cases "b = a"; cases xs) auto
      then obtain us vs where "rs = us @ (a, r) # vs" "res a us = xs'" using Cons.IH by blast
      then have "p # rs = (p # us) @ (a, r) # vs \<and> res a (p # us) = xs"
        using \<open>xs = (if b = a then [q] else []) @ xs'\<close> p by auto
      then show ?thesis by blast
    qed
  qed simp
  then show ?thesis using that by blast
qed

text \<open>
  If no thread drops the sender unused, a call gets \<^verbatim>\<open>None\<close> only if a value was returned to an
  earlier call, or a call of another thread has it in hand.
\<close>

lemma none_client:
  fixes c :: "('v, 'w) client"
  assumes R: "client_reach f mb ww prog c" and no: "\<And>t. CDropTx \<notin> set (prog t)"
    and e: "res (Rcv i) (rets (chn c)) = xs @ r # ys" and g: "gives_up (Ret r :: ('v, 'w) pc)"
  shows "(\<exists>q \<in> set xs. ret_value q \<noteq> None) \<or> (\<exists>j q. j \<noteq> i \<and> (Rcv j, q) \<in> set (rets (chn c)) \<and> ret_value q \<noteq> None)
    \<or> (\<exists>j. j \<noteq> i \<and> takes (pc (chn c) (Rcv j)))"
proof -
  note F = client_facts[OF R]
  obtain us vs where u: "rets (chn c) = us @ (Rcv i, r) # vs" "res (Rcv i) us = xs" by (rule res_split[OF e])
  have "\<not> (sent (chn c) = None \<and> leaving (pc (chn c) Snd))"
  proof
    assume a: "sent (chn c) = None \<and> leaving (pc (chn c) Snd)"
    then have "pc (chn c) Snd \<noteq> Idle" by auto
    then obtain t where "begun c t CDropTx" using F(3) a by (auto simp: tx_inv_def)
    then show False using begun_in[OF F(2)] no by blast
  qed
  then consider j q v where "(Rcv j, q) \<in> set us" "ret_value q = Some v" | j where "j \<noteq> i" "in_hand (chn c) j"
    using F(7) u(1) g unfolding none_log_def by blast
  then show ?thesis
  proof cases
    case 1
    then show ?thesis using u by (cases "j = i") (auto simp: res_mem[symmetric])
  next
    case 2
    then show ?thesis by (auto simp: in_hand_def returned_mem)
  qed
qed

section \<open>One thread receives\<close>

definition got_first :: "'v \<Rightarrow> nat \<Rightarrow> 'v ret list" where
  "got_first v n = (if n = 0 then [] else RecvRet (Some v) # replicate (n - 1) (RecvRet None))"

definition values_of :: "'v ret list \<Rightarrow> 'v list" where
  "values_of rs = concat (map (\<lambda>r. case ret_value r of None \<Rightarrow> [] | Some v \<Rightarrow> [v]) rs)"

lemma values_res: "values_of (res a (rets s)) = map snd (filter (\<lambda>(b, v). b = a) (returned s))"
proof -
  have "values_of (res a rs) = map snd (filter (\<lambda>(b, v). b = a)
      (concat (map (\<lambda>(a, r). case ret_value r of None \<Rightarrow> [] | Some v \<Rightarrow> [(a, v)]) rs)))" for rs
    by (induction rs) (auto simp: values_of_def split: option.splits)
  then show ?thesis by (simp add: returned_def)
qed

definition only_receiver :: "('v, 'w) script \<Rightarrow> nat \<Rightarrow> bool" where
  "only_receiver prog k \<longleftrightarrow> (\<forall>t. CDropTx \<notin> set (prog t) \<and> (t \<noteq> k \<longrightarrow> (\<forall>d \<in> set (prog t). \<not> is_call d)))"

lemma only_none:
  fixes c :: "('v, 'w) client"
  assumes R: "client_reach f mb ww prog c" and o: "only_receiver prog k"
    and e: "res (Rcv k) (rets (chn c)) = xs @ r # ys" and g: "gives_up (Ret r :: ('v, 'w) pc)"
  shows "\<exists>q \<in> set xs. ret_value q \<noteq> None"
proof -
  note F = client_facts[OF R]
  have calls: "j = k" if "begun c j d" "is_call d" for j d
    using begun_in[OF F(2) that(1)] that(2) o unfolding only_receiver_def by metis
  have log: "j = k" if j: "(Rcv j, q) \<in> set (rets (chn c))" for j q
  proof -
    have "q \<in> set (res (Rcv j) (rets (chn c)))" using j by (simp add: res_mem)
    then have "begun c j CRecv \<or> (\<exists>w. begun c j (CPoll w))" using F(5)[of j] unfolding kind_inv_def by blast
    then show ?thesis
    proof
      assume "begun c j CRecv"
      then show ?thesis by (rule calls) simp
    next
      assume "\<exists>w. begun c j (CPoll w)"
      then obtain w where "begun c j (CPoll w)" ..
      then show ?thesis by (rule calls) simp
    qed
  qed
  have hand: "j = k" if tk: "takes (pc (chn c) (Rcv j))" for j
  proof -
    obtain d where "doing c j = Some d" "is_call d" using takes_doing[OF F(4) tk] by blast
    then show ?thesis using calls[of j d] by (simp add: begun_def)
  qed
  have nd: "\<And>t. CDropTx \<notin> set (prog t)" using o by (simp add: only_receiver_def)
  from none_client[OF R nd e g] show ?thesis
  proof (elim disjE exE conjE)
    fix j q assume "j \<noteq> k" "(Rcv j, q) \<in> set (rets (chn c))"
    then show ?thesis using log by blast
  next
    fix j assume "j \<noteq> k" "takes (pc (chn c) (Rcv j))"
    then show ?thesis using hand by blast
  qed
qed

text \<open>The results of a thread that alone calls \<^verbatim>\<open>recv\<close>: the value, then \<^verbatim>\<open>None\<close>.\<close>

lemma only_results:
  fixes c :: "('v, 'w) client"
  assumes R: "client_reach f mb ww prog c" and o: "only_receiver prog k" and p: "\<And>w. CPoll w \<notin> set (prog k)"
    and d: "doing c k \<noteq> Some CRecv" and v: "\<And>t x. CSend x \<in> set (prog t) \<Longrightarrow> x = v"
  shows "res (Rcv k) (rets (chn c)) = got_first v (calls c k)"
proof -
  note F = client_facts[OF R]
  let ?rs = "res (Rcv k) (rets (chn c))"
  have np: "\<not> begun c k (CPoll w)" for w using p begun_in[OF F(2)] by blast
  then have kinds: "\<exists>x. r = RecvRet x" if "r \<in> set ?rs" for r
    using F(5)[of k] that by (cases r) (auto simp: kind_inv_def)
  have "doing c k \<noteq> Some (CPoll w)" for w using np by (auto simp: begun_def)
  then have n: "length ?rs = calls c k" using F(4)[of k] d unfolding rx_inv_def
    by (cases "(pc (chn c) (Rcv k), length ?rs, calls c k, CDropRx \<in> set (past c k), doing c k)" rule: rx_ok.cases) auto
  have val: "x = v" if "RecvRet (Some x) \<in> set ?rs" for x
  proof -
    have "sent (chn c) = Some x" using returned_one(1)[OF F(1), of "Rcv k" "RecvRet (Some x)" x] that by (simp add: res_mem)
    then show ?thesis using F(3) begun_in[OF F(2)] v by (auto simp: tx_inv_def)
  qed
  have one: "length (values_of ?rs) \<le> 1"
  proof (cases "returned (chn c) = []")
    case False
    then obtain a w where aw: "(a, w) \<in> set (returned (chn c))" by (cases "returned (chn c)") auto
    then obtain q where "(a, q) \<in> set (rets (chn c))" "ret_value q = Some w" by (auto simp: returned_mem)
    then show ?thesis using returned_one(2)[OF F(1)] by (simp add: values_res)
  qed (simp add: values_res)
  show ?thesis
  proof (cases ?rs)
    case (Cons r rs)
    then obtain x where r: "r = RecvRet x" using kinds by auto
    have "x \<noteq> None"
    proof
      assume "x = None"
      then have "gives_up (Ret r :: ('v, 'w) pc)" using r by simp
      then show False using only_none[OF R o, of "[]" r rs] Cons by simp
    qed
    then have x: "x = Some v" using val[of "the x"] Cons r by auto
    have "values_of rs = []" using one unfolding Cons r x by (simp add: values_of_def)
    then have "q = RecvRet None" if "q \<in> set rs" for q
      using kinds[of q] that Cons by (auto simp: values_of_def split: option.splits)
    then have "rs = replicate (length rs) (RecvRet None)" by (simp add: replicate_eqI)
    then show ?thesis using Cons r x n[symmetric] by (simp add: got_first_def)
  qed (use n in \<open>simp add: got_first_def\<close>)
qed

section \<open>Programs with one receiving thread\<close>

definition delivered :: "(agent \<times> 'v ret) list \<Rightarrow> 'v list" where
  "delivered rs = concat (map (\<lambda>(a, r). case ret_value r of None \<Rightarrow> [] | Some v \<Rightarrow> [v]) rs)"

lemma delivered_returned: "delivered (rets s) = map snd (returned s)"
proof -
  have "delivered rs = map snd (concat (map (\<lambda>(a, r). case ret_value r of None \<Rightarrow> [] | Some v \<Rightarrow> [(a, v)]) rs))" for rs
    by (induction rs) (auto simp: delivered_def split: option.splits)
  then show ?thesis by (simp add: returned_def)
qed

text \<open>
  What thread \<open>t\<close> knows after the commands \<open>xs\<close>: the results of the receiving thread \<open>k\<close>, if it is \<open>k\<close> or has
  joined it, and that the \<^verbatim>\<open>send\<close> has returned.
\<close>

definition recvs :: "('v, 'w) cmd list \<Rightarrow> nat" where
  "recvs xs = length (filter is_call xs)"

definition knows_recvs :: "('v, 'w) script \<Rightarrow> nat \<Rightarrow> nat \<Rightarrow> ('v, 'w) cmd list \<Rightarrow> nat \<Rightarrow> bool" where
  "knows_recvs prog k t xs n \<longleftrightarrow> (if t = k then n = recvs xs else Join k \<in> set xs \<and> n = recvs (prog k))"

definition knows_sent :: "('v, 'w) script \<Rightarrow> 'v \<Rightarrow> ('v, 'w) cmd list \<Rightarrow> bool" where
  "knows_sent prog v xs \<longleftrightarrow> CSend v \<in> set xs \<or> (\<exists>u. Join u \<in> set xs \<and> CSend v \<in> set (prog u))"

definition assert_ok ::
  "('v, 'w) script \<Rightarrow> nat \<Rightarrow> 'v \<Rightarrow> nat \<Rightarrow> ('v, 'w) cmd list \<Rightarrow> ((agent \<times> 'v ret) list \<Rightarrow> 'v list \<Rightarrow> bool) \<Rightarrow> bool" where
  "assert_ok prog k v t xs P \<longleftrightarrow> (\<forall>rs l.
     (\<forall>n. knows_recvs prog k t xs n \<longrightarrow> res (Rcv k) rs = got_first v n \<and> (0 < n \<longrightarrow> delivered rs = [v] \<and> l = [])) \<longrightarrow>
     (knows_sent prog v xs \<longrightarrow> res Snd rs = [SendOk]) \<longrightarrow> P rs l)"

definition receives_first :: "('v, 'w) cmd list \<Rightarrow> bool" where
  "receives_first cs \<longleftrightarrow> (\<forall>xs ys. cs = xs @ CDropRx # ys \<longrightarrow> CRecv \<in> set xs)"

text \<open>One thread receives, every \<^verbatim>\<open>send\<close> sends \<open>v\<close>, and the receiver is dropped after a call of it.\<close>

definition single_receiver :: "('v, 'w) script \<Rightarrow> nat \<Rightarrow> 'v \<Rightarrow> bool" where
  "single_receiver prog k v \<longleftrightarrow> only_receiver prog k \<and> (\<forall>w. CPoll w \<notin> set (prog k))
     \<and> (\<forall>t x. CSend x \<in> set (prog t) \<longrightarrow> x = v) \<and> (\<forall>t. receives_first (prog t))"

lemma leaving_not: "leaving p \<Longrightarrow> \<not> receives p \<and> \<not> polling_call p \<and> p \<noteq> Idle"
  by (cases p) auto

lemma leaving_begun:
  assumes R: "rx_inv c i" and l: "leaving (pc (chn c) (Rcv i))"
  shows "begun c i CDropRx" and "doing c i \<noteq> Some CRecv"
proof -
  have "begun c i CDropRx \<and> doing c i \<noteq> Some CRecv"
  proof (cases "doing c i")
    case None
    then show ?thesis using R leaving_not[OF l] unfolding rx_inv_def by (simp add: begun_def split: if_splits)
  next
    case (Some d)
    then show ?thesis using R leaving_not[OF l] unfolding rx_inv_def by (cases d) (simp_all add: begun_def split: if_splits)
  qed
  then show "begun c i CDropRx" "doing c i \<noteq> Some CRecv" by simp_all
qed

lemma single_results:
  fixes c :: "('v, 'w) client"
  assumes R: "client_reach f mb ww prog c" and S: "single_receiver prog k v" and d: "doing c k \<noteq> Some CRecv"
  shows "res (Rcv k) (rets (chn c)) = got_first v (calls c k)"
    and "0 < calls c k \<Longrightarrow> returned (chn c) = [(Rcv k, v)] \<and> lost (chn c) = []"
proof -
  show r: "res (Rcv k) (rets (chn c)) = got_first v (calls c k)"
    by (rule only_results[OF R _ _ d]) (use S in \<open>auto simp: single_receiver_def\<close>)
  assume "0 < calls c k"
  then have "RecvRet (Some v) \<in> set (res (Rcv k) (rets (chn c)))" by (simp add: r got_first_def)
  then have "(Rcv k, RecvRet (Some v)) \<in> set (rets (chn c))" by (simp add: res_mem)
  from returned_one(2,3)[OF client_facts(1)[OF R] this] show "returned (chn c) = [(Rcv k, v)] \<and> lost (chn c) = []" by simp
qed

text \<open>A \<^verbatim>\<open>send\<close> has succeeded if whoever drops the receiver knows that a call got the value.\<close>

lemma sent_result:
  fixes c :: "('v, 'w) client"
  assumes R: "client_reach f mb ww prog c" and s: "CSend v \<in> set (past c t)"
    and taken: "\<And>i. begun c i CDropRx \<Longrightarrow> leaving (pc (chn c) (Rcv i)) \<Longrightarrow> \<exists>j q. (Rcv j, q) \<in> set (rets (chn c)) \<and> ret_value q \<noteq> None"
  shows "res Snd (rets (chn c)) = [SendOk]"
proof -
  note F = client_facts[OF R]
  have "begun c t (CSend v)" using s by (simp add: begun_def)
  then have "pc (chn c) Snd = Gone" "sent (chn c) = Some v" using F(3) s unfolding tx_inv_def by blast+
  then obtain r where r: "res Snd (rets (chn c)) = [r]" "sends (Ret r :: ('v, 'w) pc)"
    using F(6) by (auto simp: snd_log_def)
  show ?thesis
  proof (cases r)
    case (SendErr x)
    then have m: "(Snd, SendErr x) \<in> set (rets (chn c))" using r(1) by (simp flip: res_mem)
    then obtain i where i: "leaving (pc (chn c) (Rcv i))" using F(8) by (auto simp: blame_inv_def)
    then obtain j q w where j: "(Rcv j, q) \<in> set (rets (chn c))" "ret_value q = Some w"
      using taken[OF leaving_begun(1)[OF F(4) i] i] by blast
    obtain y where "x = Some y" using reach_err_value[OF F(1) m] by auto
    then have "returned (chn c) = [(Snd, y)]" using returned_one(2)[OF F(1) m, of y] by simp
    then show ?thesis using returned_one(2)[OF F(1) j] by simp
  qed (use r in simp_all)
qed

lemma single_sent:
  fixes c :: "('v, 'w) client"
  assumes R: "client_reach f mb ww prog c" and S: "single_receiver prog k v" and s: "CSend v \<in> set (past c t)"
  shows "res Snd (rets (chn c)) = [SendOk]"
proof (rule sent_result[OF R s])
  note F = client_facts[OF R]
  fix i assume b: "begun c i CDropRx" and l: "leaving (pc (chn c) (Rcv i))"
  obtain xs ys zs where sp: "prog i = xs @ CDropRx # ys" "past c i = xs @ zs" by (rule begun_split[OF F(2) b])
  have rc: "CRecv \<in> set xs" using S sp(1) unfolding single_receiver_def receives_first_def by metis
  have ik: "i = k"
  proof (rule ccontr)
    assume "i \<noteq> k"
    then show False using S rc sp(1) is_call.simps(1) unfolding single_receiver_def only_receiver_def by fastforce
  qed
  have "0 < calls c k" using rc sp(2) ik by (auto simp: calls_def filter_empty_conv) (metis is_call.simps(1))
  then have "returned (chn c) = [(Rcv k, v)]" using single_results(2)[OF R S] leaving_begun(2)[OF F(4) l] ik by blast
  then have "(Rcv k, v) \<in> set (returned (chn c))" by simp
  then show "\<exists>j q. (Rcv j, q) \<in> set (rets (chn c)) \<and> ret_value q \<noteq> None" by (auto simp: returned_mem)
qed

lemma single_passes:
  fixes prog :: "('v, 'w) script"
  assumes S: "single_receiver prog k v" and ok: "\<And>t xs P ys. prog t = xs @ Assert P # ys \<Longrightarrow> assert_ok prog k v t xs P"
  shows "passes f mb ww prog"
  unfolding passes_def
proof (intro allI impI)
  fix c :: "('v, 'w) client" and t P ds
  assume R: "client_reach f mb ww prog c" and cd: "code c t = Assert P # ds"
  note F = client_facts[OF R]
  have sp: "prog t = past c t @ Assert P # ds" using script_split[OF F(2), of t] cd by simp
  have idle: "doing c t = None" using F(2) cd by (auto simp: doing_def script_inv_def)
  have joined: "past c u = prog u \<and> doing c u = None" if "Join u \<in> set (past c t)" for u
    using F(2) that by (auto simp: script_inv_def doing_def)
  have "res (Rcv k) (rets (chn c)) = got_first v n \<and> (0 < n \<longrightarrow> delivered (rets (chn c)) = [v] \<and> lost (chn c) = [])"
    if n: "knows_recvs prog k t (past c t) n" for n
  proof -
    have "n = calls c k \<and> doing c k = None"
      using n idle joined[of k] by (auto simp: knows_recvs_def recvs_def calls_def split: if_splits)
    then show ?thesis using single_results[OF R S] by (simp add: delivered_returned)
  qed
  moreover have "res Snd (rets (chn c)) = [SendOk]" if s: "knows_sent prog v (past c t)"
  proof -
    obtain u where "CSend v \<in> set (past c u)" using s joined unfolding knows_sent_def by metis
    then show ?thesis by (rule single_sent[OF R S])
  qed
  ultimately show "P (rets (chn c)) (lost (chn c))" using ok[OF sp] unfolding assert_ok_def by blast
qed

end
