(* ===== verification/OneshotShapes.thy ===== *)
theory OneshotShapes
  imports OneshotResults
begin

text \<open>
  Client programs of the other shapes: the receiver is dropped before the \<^verbatim>\<open>send\<close>, nothing is sent, several
  threads receive, one thread polls around its \<^verbatim>\<open>send\<close>.
\<close>

section \<open>Assertions at their place\<close>

text \<open>An assertion is reached with the commands before it done, and its thread in no call.\<close>

lemma passesI:
  fixes prog :: "('v, 'w) script"
  assumes "\<And>c t P ds. client_reach f mb ww prog c \<Longrightarrow> prog t = past c t @ Assert P # ds \<Longrightarrow> doing c t = None \<Longrightarrow>
    (\<And>u. Join u \<in> set (past c t) \<Longrightarrow> past c u = prog u \<and> doing c u = None) \<Longrightarrow> P (rets (chn c)) (lost (chn c))"
  shows "passes f mb ww prog"
  unfolding passes_def
proof (intro allI impI)
  fix c :: "('v, 'w) client" and t P ds
  assume R: "client_reach f mb ww prog c" and cd: "code c t = Assert P # ds"
  note S = client_facts(2)[OF R]
  have sp: "prog t = past c t @ Assert P # ds" using script_split[OF S, of t] cd by simp
  have idle: "doing c t = None" using S cd by (auto simp: doing_def script_inv_def)
  have joined: "past c u = prog u \<and> doing c u = None" if "Join u \<in> set (past c t)" for u
    using S that by (auto simp: script_inv_def doing_def)
  show "P (rets (chn c)) (lost (chn c))" by (rule assms[OF R sp idle joined])
qed

lemma idle_calls:
  assumes "rx_inv c t" and "doing c t = None"
  shows "length (res (Rcv t) (rets (chn c))) = calls c t" and "pc (chn c) (Rcv t) \<in> {Idle, Gone}"
  using assms unfolding rx_inv_def
  by (cases "(pc (chn c) (Rcv t), length (res (Rcv t) (rets (chn c))), calls c t, CDropRx \<in> set (past c t), doing c t)"
      rule: rx_ok.cases; simp split: if_splits)+

section \<open>Nothing is sent\<close>

lemma unsent_results:
  fixes c :: "('v, 'w) client"
  assumes R: "client_reach f mb ww prog c" and no: "\<And>u v. CSend v \<notin> set (prog u)" and p: "\<And>w. CPoll w \<notin> set (prog t)"
    and d: "doing c t = None"
  shows "res (Rcv t) (rets (chn c)) = replicate (calls c t) (RecvRet None)"
proof -
  note F = client_facts[OF R]
  have "r = RecvRet None" if r: "r \<in> set (res (Rcv t) (rets (chn c)))" for r
  proof -
    have "\<not> begun c t (CPoll w)" for w using p begun_in[OF F(2)] by blast
    then have rc: "receives (Ret r :: ('v, 'w) pc)" using F(5)[of t] r unfolding kind_inv_def by blast
    have "ret_value r = None"
    proof (rule ccontr)
      assume "ret_value r \<noteq> None"
      then obtain v where "ret_value r = Some v" by blast
      then have "sent (chn c) = Some v" using returned_one(1)[OF F(1)] r by (simp add: res_mem)
      then show False using F(3) begun_in[OF F(2)] no by (auto simp: tx_inv_def)
    qed
    with rc show ?thesis by (cases r) auto
  qed
  then show ?thesis using replicate_eqI[of _ "calls c t"] idle_calls(1)[OF F(4) d] by metis
qed

section \<open>The receiver is dropped first\<close>

text \<open>Every \<^verbatim>\<open>send\<close> comes after a drop of the receiver that has ended.\<close>

definition knows_dropped :: "('v, 'w) script \<Rightarrow> ('v, 'w) cmd list \<Rightarrow> bool" where
  "knows_dropped prog xs \<longleftrightarrow> CDropRx \<in> set xs \<or> (\<exists>u. Join u \<in> set xs \<and> CDropRx \<in> set (prog u))"

definition sends_late :: "('v, 'w) script \<Rightarrow> bool" where
  "sends_late prog \<longleftrightarrow> (\<forall>t xs v ys. prog t = xs @ CSend v # ys \<longrightarrow> knows_dropped prog xs)"

lemma dropped_gone:
  assumes R: "client_reach f mb ww prog c" and k: "knows_dropped prog (past c t)"
  shows "\<exists>i. pc (chn c) (Rcv i) = Gone"
proof -
  note F = client_facts[OF R]
  obtain i where "CDropRx \<in> set (past c i)" using k F(2) unfolding knows_dropped_def script_inv_def by (metis append_Nil2)
  then have "pc (chn c) (Rcv i) = Gone" using F(4)[of i] unfolding rx_inv_def
    by (cases "(pc (chn c) (Rcv i), length (res (Rcv i) (rets (chn c))), calls c i, CDropRx \<in> set (past c i), doing c i)"
        rule: rx_ok.cases) (simp_all split: if_splits)
  then show ?thesis by blast
qed

lemma doomed_call:
  fixes s :: "('v, 'w) chan"
  assumes r: "chan_reach f mb ww s" and g: "pc s (Rcv i) = Gone" and i: "pc s Snd = Idle"
    and e: "fire f mb ww (LSend v) s = Some t"
  shows "doomed t"
proof -
  have "latest s = 10" using ctl_fin(3)[OF reach_facts(1)[OF r] g] .
  moreover have "res Snd (rets s) = []" using reach_snd_log[OF r] i by (auto simp: snd_log_def)
  ultimately show ?thesis using e by (auto simp: doomed_def goto_def split: if_splits)
qed

definition refused_inv :: "('v, 'w) client \<Rightarrow> bool" where
  "refused_inv c \<longleftrightarrow> (\<forall>t v. begun c t (CSend v) \<longrightarrow> doomed (chn c))"

lemma refused_call:
  assumes R: "client_reach f mb ww prog c" and L: "sends_late prog" and I: "refused_inv c"
    and b: "\<not> busy c t" "code c t = d # ds" "call_label t d = Some l" "fire f mb ww l (chn c) = Some s"
  shows "refused_inv (c\<lparr>chn := s, busy := (busy c)(t := True)\<rparr>)"
  unfolding refused_inv_def
proof (intro allI impI)
  fix u v
  assume "begun (c\<lparr>chn := s, busy := (busy c)(t := True)\<rparr>) u (CSend v)"
  then have u: "begun c u (CSend v) \<or> u = t \<and> d = CSend v" using b(1,2) by (auto simp: begun_start)
  note F = client_facts[OF R]
  have "doomed s"
  proof (cases "begun c u (CSend v)")
    case True
    then have "doomed (chn c)" using I by (auto simp: refused_inv_def)
    then show ?thesis using doomed_step[OF F(1) fire_step[OF b(4)]] by simp
  next
    case False
    then have d: "d = CSend v" "prog t = past c t @ CSend v # ds" using u b(2) script_split[OF F(2), of t] by auto
    then have "knows_dropped prog (past c t)" using L unfolding sends_late_def by blast
    then obtain i where "pc (chn c) (Rcv i) = Gone" using dropped_gone[OF R] by blast
    moreover have "l = LSend v" using b(3) d(1) by simp
    ultimately show ?thesis using doomed_call[OF F(1)] b(4) call_effect(2)[OF b(3,4) d(1)] by blast
  qed
  then show "doomed (chn (c\<lparr>chn := s, busy := (busy c)(t := True)\<rparr>))" by simp
qed

lemma begun_next_call:
  assumes "busy c t \<or> call_label t (hd (code c t)) = None"
  shows "begun (next_cmd t c) u (CSend v) \<longleftrightarrow> begun c u (CSend v)"
  using assms begun_next_busy[of c t u "CSend v"] begun_next[of t c u "CSend v"] by (cases "hd (code c t)") auto

lemma refused_next: "busy c t \<or> call_label t (hd (code c t)) = None \<Longrightarrow> refused_inv c \<Longrightarrow> refused_inv (next_cmd t c)"
  by (simp add: refused_inv_def begun_next_call)

lemma reach_refused:
  assumes "client_reach f mb ww prog c" and "sends_late prog"
  shows "refused_inv c"
  using assms(1)
proof (induction rule: reach.induct)
  case (reach_init c)
  then show ?case by (simp add: refused_inv_def client_new_def begun_def doing_def)
next
  case (reach_step c c')
  note F = client_facts[OF reach_step(1)]
  have nb: "\<not> busy c t" if "code c t = d # ds" "call_label t d = None" for t d ds
    using F(2) that by (auto simp: script_inv_def)
  show ?case using reach_step(2,1,3)
  proof (induction rule: client_step.induct)
    case (begin_call c t d ds l s)
    then show ?case using refused_call[OF _ assms(2)] by metis
  next
    case (in_call c s)
    then show ?case using doomed_step[OF client_facts(1)[OF in_call(3)] in_call(1)] by (simp add: refused_inv_def)
  qed (auto intro: refused_next)
qed

lemma refused_result:
  fixes c :: "('v, 'w) client"
  assumes R: "client_reach f mb ww prog c" and L: "sends_late prog" and s: "CSend v \<in> set (past c t)"
  shows "res Snd (rets (chn c)) = [SendErr (Some v)]" and "returned (chn c) = [(Snd, v)]" and "lost (chn c) = []"
proof -
  note F = client_facts[OF R]
  have b: "begun c t (CSend v)" using s by (simp add: begun_def)
  then have g: "pc (chn c) Snd = Gone" "sent (chn c) = Some v" using F(3) s unfolding tx_inv_def by blast+
  then obtain r where r: "res Snd (rets (chn c)) = [r]" "sends (Ret r :: ('v, 'w) pc)" using F(6) by (auto simp: snd_log_def)
  have "r \<noteq> SendOk" using reach_refused[OF R L] b r(1) by (auto simp: refused_inv_def doomed_def)
  then obtain x where x: "r = SendErr x" using r(2) by (cases r) auto
  then have m: "(Snd, SendErr x) \<in> set (rets (chn c))" using r(1) by (simp flip: res_mem)
  then obtain y where y: "x = Some y" using reach_err_value[OF F(1)] by blast
  note o = returned_one[OF F(1) m, of y]
  have "y = v" using o(1) y g(2) by simp
  then show "res Snd (rets (chn c)) = [SendErr (Some v)]" "returned (chn c) = [(Snd, v)]" "lost (chn c) = []"
    using o(2,3) r(1) x y by simp_all
qed

section \<open>Several threads receive\<close>

text \<open>When no call is in progress, one of the calls that returned has the value.\<close>

lemma someone_received:
  fixes c :: "('v, 'w) client"
  assumes R: "client_reach f mb ww prog c" and no: "\<And>t. CDropTx \<notin> set (prog t)"
    and quiet: "\<forall>t d. doing c t = Some d \<longrightarrow> \<not> is_call d"
    and e: "(Rcv i, r) \<in> set (rets (chn c))" and g: "\<And>q. (Rcv i, q) \<in> set (rets (chn c)) \<Longrightarrow> receives (Ret q :: ('v, 'w) pc)"
  shows "\<exists>j q v. (Rcv j, q) \<in> set (rets (chn c)) \<and> ret_value q = Some v"
proof (cases "ret_value r")
  case None
  note F = client_facts[OF R]
  have "r = RecvRet None" using g[OF e] None by (cases r) auto
  then have gu: "gives_up (Ret r :: ('v, 'w) pc)" by simp
  obtain xs ys where s: "res (Rcv i) (rets (chn c)) = xs @ r # ys"
    using e by (metis res_mem in_set_conv_decomp)
  from none_client[OF R no s gu] show ?thesis
  proof (elim disjE bexE exE conjE)
    fix q assume "q \<in> set xs" "ret_value q \<noteq> None"
    then have "(Rcv i, q) \<in> set (rets (chn c))" "\<exists>v. ret_value q = Some v" using s by (auto simp flip: res_mem)
    then show ?thesis by blast
  next
    fix j q assume "(Rcv j, q) \<in> set (rets (chn c))" "ret_value q \<noteq> None"
    then show ?thesis by blast
  next
    fix j assume "takes (pc (chn c) (Rcv j))"
    then show ?thesis using takes_doing[OF F(4)] quiet by blast
  qed
qed (use e in blast)


definition two_receivers :: "('v, 'w) script \<Rightarrow> nat \<Rightarrow> nat \<Rightarrow> 'v \<Rightarrow> bool" where
  "two_receivers prog i j v \<longleftrightarrow> i \<noteq> j \<and> recvs (prog i) = 1 \<and> recvs (prog j) = 1
     \<and> (\<forall>t. CDropTx \<notin> set (prog t) \<and> (\<forall>w. CPoll w \<notin> set (prog t)) \<and> (\<forall>x. CSend x \<in> set (prog t) \<longrightarrow> x = v))
     \<and> (\<forall>t. t \<noteq> i \<longrightarrow> t \<noteq> j \<longrightarrow> CRecv \<notin> set (prog t))"

lemma one_recv:
  fixes c :: "('v, 'w) client"
  assumes R: "client_reach f mb ww prog c" and p: "\<And>w. CPoll w \<notin> set (prog t)"
    and d: "past c t = prog t" "doing c t = None" and n: "recvs (prog t) = 1"
  obtains x where "res (Rcv t) (rets (chn c)) = [RecvRet x]"
proof -
  note F = client_facts[OF R]
  have "length (res (Rcv t) (rets (chn c))) = 1" using idle_calls(1)[OF F(4) d(2)] n d(1) by (simp add: calls_def recvs_def)
  then obtain r where r: "res (Rcv t) (rets (chn c)) = [r]" by (auto simp: length_Suc_conv)
  have "\<not> begun c t (CPoll w)" for w using p begun_in[OF F(2)] by blast
  then have "receives (Ret r :: ('v, 'w) pc)" using F(5)[of t] r unfolding kind_inv_def by auto
  then show ?thesis using r that by (cases r) auto
qed

lemma two_results:
  fixes c :: "('v, 'w) client"
  assumes R: "client_reach f mb ww prog c" and T: "two_receivers prog i j v"
    and d: "past c i = prog i" "doing c i = None" "past c j = prog j" "doing c j = None"
  shows "res (Rcv i) (rets (chn c)) = [RecvRet (Some v)] \<and> res (Rcv j) (rets (chn c)) = [RecvRet None]
    \<or> res (Rcv i) (rets (chn c)) = [RecvRet None] \<and> res (Rcv j) (rets (chn c)) = [RecvRet (Some v)]"
proof -
  note F = client_facts[OF R]
  have ij: "i \<noteq> j" using T by (simp add: two_receivers_def)
  have np: "\<And>t w. CPoll w \<notin> set (prog t)" and nd: "\<And>t. CDropTx \<notin> set (prog t)" using T by (simp_all add: two_receivers_def)
  obtain x where x: "res (Rcv i) (rets (chn c)) = [RecvRet x]"
    using one_recv[OF R np d(1,2)] T by (auto simp: two_receivers_def)
  obtain y where y: "res (Rcv j) (rets (chn c)) = [RecvRet y]"
    using one_recv[OF R np d(3,4)] T by (auto simp: two_receivers_def)
  have only: "t = i \<or> t = j" if "begun c t d" "is_call d" for t d
  proof (cases d)
    case CRecv
    then show ?thesis using T begun_in[OF F(2) that(1)] by (auto simp: two_receivers_def)
  next
    case (CPoll w)
    then show ?thesis using np begun_in[OF F(2) that(1)] by auto
  qed (use that in simp_all)
  have log: "(t = i \<and> q = RecvRet x) \<or> (t = j \<and> q = RecvRet y)" if q: "(Rcv t, q) \<in> set (rets (chn c))" for t q
  proof -
    have m: "q \<in> set (res (Rcv t) (rets (chn c)))" using q by (simp add: res_mem)
    then have "\<exists>d. begun c t d \<and> is_call d" using F(5)[of t] unfolding kind_inv_def by (metis is_call.simps(1,2))
    then have "t = i \<or> t = j" using only by blast
    then show ?thesis using m x y by auto
  qed
  have quiet: "\<forall>t e. doing c t = Some e \<longrightarrow> \<not> is_call e" using only d by (metis begun_def option.distinct(1))
  have mem: "(Rcv i, RecvRet x) \<in> set (rets (chn c))" "(Rcv j, RecvRet y) \<in> set (rets (chn c))" using x y by (simp_all flip: res_mem)
  have rc: "receives (Ret q :: ('v, 'w) pc)" if "(Rcv i, q) \<in> set (rets (chn c))" for q using log[OF that] by auto
  obtain k q w where k: "(Rcv k, q) \<in> set (rets (chn c))" "ret_value q = Some w"
    by (rule someone_received[OF R nd quiet mem(1) rc, THEN exE]) blast+
  have "sent (chn c) = Some w" and one: "returned (chn c) = [(Rcv k, w)]" using returned_one[OF F(1) k] by simp_all
  then have w: "w = v" using F(3) begun_in[OF F(2)] T unfolding tx_inv_def two_receivers_def by blast
  have other: "z = None" if "(Rcv t, RecvRet z) \<in> set (rets (chn c))" "t \<noteq> k" for t z
  proof (cases z)
    case (Some u)
    then have "returned (chn c) = [(Rcv t, u)]" using returned_one(2)[OF F(1) that(1)] by simp
    then show ?thesis using one that(2) by simp
  qed
  from log[OF k(1)] show ?thesis
  proof
    assume a: "k = i \<and> q = RecvRet x"
    then have "x = Some v" "y = None" using k(2) w other[OF mem(2)] ij by simp_all
    then show ?thesis using x y by simp
  next
    assume a: "k = j \<and> q = RecvRet y"
    then have "y = Some v" "x = None" using k(2) w other[OF mem(1)] ij by simp_all
    then show ?thesis using x y by simp
  qed
qed

text \<open>The receiver is dropped by a thread that has joined both, so the \<^verbatim>\<open>send\<close> has succeeded.\<close>

definition drops_joined :: "('v, 'w) script \<Rightarrow> nat \<Rightarrow> nat \<Rightarrow> bool" where
  "drops_joined prog i j \<longleftrightarrow> (\<forall>t xs ys. prog t = xs @ CDropRx # ys \<longrightarrow> Join i \<in> set xs \<and> Join j \<in> set xs)"

lemma two_sent:
  fixes c :: "('v, 'w) client"
  assumes R: "client_reach f mb ww prog c" and T: "two_receivers prog i j v" and D: "drops_joined prog i j"
    and s: "CSend v \<in> set (past c t)"
  shows "res Snd (rets (chn c)) = [SendOk]"
proof (rule sent_result[OF R s])
  note F = client_facts[OF R]
  fix u assume b: "begun c u CDropRx"
  obtain xs ys zs where sp: "prog u = xs @ CDropRx # ys" "past c u = xs @ zs" by (rule begun_split[OF F(2) b])
  then have "Join i \<in> set (past c u) \<and> Join j \<in> set (past c u)" using D sp unfolding drops_joined_def by (metis Un_iff set_append)
  then have "past c i = prog i" "doing c i = None" "past c j = prog j" "doing c j = None"
    using F(2) by (auto simp: script_inv_def doing_def)
  from two_results[OF R T this]
  have "(Rcv i, RecvRet (Some v)) \<in> set (rets (chn c)) \<or> (Rcv j, RecvRet (Some v)) \<in> set (rets (chn c))"
    by (auto simp flip: res_mem)
  then show "\<exists>k q. (Rcv k, q) \<in> set (rets (chn c)) \<and> ret_value q \<noteq> None" by (metis option.distinct(1) ret_value.simps(2))
qed

section \<open>Polls around a send\<close>

text \<open>A poll goes to sleep by an exchange on the newest word, which is pending no more once the sender is gone.\<close>

lemma nxt_pending:
  fixes p :: "('v, 'w) pc"
  assumes "nxt f p r = Ret PollPending" and "p \<noteq> Ret PollPending"
  shows "\<exists>w c. p = InPoll (PoUnset w c) \<and> r = CasOk"
proof -
  have "send_next f q r \<noteq> (Ret PollPending :: ('v, 'w) pc)" for q
    by (cases "(f, q, r)" rule: send_next.cases) (auto simp: loop_defs)
  moreover have "drops_next f q r \<noteq> (Ret PollPending :: ('v, 'w) pc)" for q
    by (cases "(f, q, r)" rule: drops_next.cases) (auto simp: loop_defs Let_def)
  moreover have "recv_next f q r \<noteq> (Ret PollPending :: ('v, 'w) pc)" for q
    by (cases "(f, q, r)" rule: recv_next.cases) (auto simp: loop_defs)
  moreover have "dropr_next f q r \<noteq> (Ret PollPending :: ('v, 'w) pc)" for q
    by (cases "(f, q, r)" rule: dropr_next.cases) (auto simp: loop_defs)
  moreover have "\<exists>w c. q = PoUnset w c \<and> r = CasOk" if "poll_next q r = (Ret PollPending :: ('v, 'w) pc)" for q :: "'w poll_pc"
    using that by (cases "(q, r)" rule: poll_next.cases) (auto simp: loop_defs split: if_splits)
  ultimately show ?thesis using assms by (cases p) auto
qed

lemma adv_pending:
  assumes "pc (adv f a r m) b = Ret PollPending" and "pc m b \<noteq> Ret PollPending"
  shows "a = b \<and> r = CasOk \<and> (\<exists>w c. pc m b = InPoll (PoUnset w c))"
  using assms nxt_pending[of f "pc m b" r] by (cases "a = b") (auto simp: pc_adv)

lemma step_pending:
  assumes "chan_step f mb ww s t" and "pc t b = Ret PollPending" and "pc s b \<noteq> Ret PollPending"
  shows "\<exists>w. pc s b = InPoll (PoUnset w (latest s))"
  using assms
proof (induction rule: chan_step.induct)
  case (cas_ok s a op cur)
  then show ?case using adv_pending[OF cas_ok(3)] by (auto simp: step_simps)
next
  case (wake_all s a)
  then have "pc (adv f a Done (touch a s)) b = Ret PollPending" by (auto simp: unpark_all_def split: if_splits)
  then show ?case using adv_pending[of f a Done "touch a s" b] wake_all by (auto simp: step_simps)
qed (use adv_pending in \<open>fastforce simp: step_simps goto_def take_over_def hand_back_def log_ret_def split: if_splits\<close>)+

lemma gone_not_pending:
  assumes r: "chan_reach f mb ww s" and st: "chan_step f mb ww s t" and g: "pc s Snd = Gone" and p: "pc s b \<noteq> Ret PollPending"
  shows "pc t b \<noteq> Ret PollPending"
proof
  note I = reach_facts(1)[OF r]
  assume "pc t b = Ret PollPending"
  then obtain w where w: "pc s b = InPoll (PoUnset w (latest s))" using step_pending[OF st] p by blast
  have "latest s = 28" using ctl_know[OF I, of b] w by (simp add: polling_def)
  then show False using ctl_fin(4)[OF I g] by auto
qed


text \<open>One thread polls, sends \<open>v\<close> after \<open>n\<close> polls, and polls on.\<close>

definition polls_around :: "('v, 'w) script \<Rightarrow> nat \<Rightarrow> ('v, 'w) cmd list \<Rightarrow> 'v \<Rightarrow> ('v, 'w) cmd list \<Rightarrow> bool" where
  "polls_around prog k pre v post \<longleftrightarrow> only_receiver prog k \<and> prog k = pre @ CSend v # post
     \<and> (\<forall>t. CRecv \<notin> set (prog t)) \<and> (\<forall>t x. CSend x \<in> set (prog t) \<longrightarrow> t = k) \<and> (\<forall>x. CSend x \<notin> set pre \<union> set post)"

lemma send_at:
  assumes "polls_around prog k pre v post" and "prog k = xs @ CSend x # ys"
  shows "xs = pre \<and> x = v"
proof -
  have e: "pre @ CSend v # post = xs @ CSend x # ys" and no: "\<forall>y. CSend y \<notin> set pre \<and> CSend y \<notin> set post"
    using assms by (simp_all add: polls_around_def)
  from e obtain us where "pre = xs @ us \<and> us @ CSend v # post = CSend x # ys \<or> pre @ us = xs \<and> CSend v # post = us @ CSend x # ys"
    by (auto simp: append_eq_append_conv2)
  then show ?thesis
  proof (elim disjE conjE)
    assume "pre = xs @ us" "us @ CSend v # post = CSend x # ys"
    then show ?thesis using no by (cases us) auto
  next
    assume "pre @ us = xs" "CSend v # post = us @ CSend x # ys"
    then show ?thesis using no by (cases us) auto
  qed
qed

lemma unsent_pending:
  fixes c :: "('v, 'w) client"
  assumes R: "client_reach f mb ww prog c" and P: "polls_around prog k pre v post"
    and no: "\<And>t x. \<not> begun c t (CSend x)" and r: "r \<in> set (res (Rcv k) (rets (chn c)))"
  shows "r = PollPending"
proof -
  note F = client_facts[OF R]
  have nov: "ret_value q = None" if "(a, q) \<in> set (rets (chn c))" for a q
  proof (rule ccontr)
    assume "ret_value q \<noteq> None"
    then obtain y where "ret_value q = Some y" by blast
    then have "sent (chn c) = Some y" using returned_one(1)[OF F(1) that] by simp
    then show False using F(3) no by (auto simp: tx_inv_def)
  qed
  have "\<not> begun c k CRecv" using P begun_in[OF F(2)] by (auto simp: polls_around_def)
  then have p: "polling_call (Ret r :: ('v, 'w) pc)" using F(5)[of k] r unfolding kind_inv_def by blast
  show ?thesis
  proof (rule ccontr)
    assume "r \<noteq> PollPending"
    then obtain x where x: "r = PollReady x" using p by (cases r) auto
    moreover have "ret_value r = None" using nov r by (simp add: res_mem)
    ultimately have g: "gives_up (Ret r :: ('v, 'w) pc)" by simp
    obtain xs ys where e: "res (Rcv k) (rets (chn c)) = xs @ r # ys" using r by (metis in_set_conv_decomp)
    have "only_receiver prog k" using P by (simp add: polls_around_def)
    from only_none[OF R this e g] obtain q where q: "q \<in> set xs" "ret_value q \<noteq> None" by blast
    then have "(Rcv k, q) \<in> set (rets (chn c))" using e by (simp flip: res_mem)
    from nov[OF this] q(2) show False by simp
  qed
qed

definition pending_inv :: "nat \<Rightarrow> nat \<Rightarrow> ('v, 'w) client \<Rightarrow> bool" where
  "pending_inv k n c \<longleftrightarrow> (\<forall>x. begun c k (CSend x) \<longrightarrow> pc (chn c) (Rcv k) \<noteq> Ret PollPending
     \<and> (\<exists>rest. res (Rcv k) (rets (chn c)) = replicate n PollPending @ rest \<and> PollPending \<notin> set rest))"

lemma pending_in_call:
  assumes R: "client_reach f mb ww prog c" and I: "pending_inv k n c" and st: "chan_step f mb ww (chn c) s"
    and idle: "\<And>a. pc (chn c) a = Idle \<Longrightarrow> pc s a = Idle"
  shows "pending_inv k n (c\<lparr>chn := s\<rparr>)"
  unfolding pending_inv_def begun_chn
proof (intro allI impI)
  note F = client_facts[OF R]
  fix x assume b: "begun c k (CSend x)"
  then obtain rest where np: "pc (chn c) (Rcv k) \<noteq> Ret PollPending"
      and rest: "res (Rcv k) (rets (chn c)) = replicate n PollPending @ rest" "PollPending \<notin> set rest"
    using I unfolding pending_inv_def by blast
  have "pc (chn c) Snd = Gone \<or> pc (chn c) (Rcv k) \<in> {Idle, Gone}"
  proof (cases "CSend x \<in> set (past c k)")
    case False
    then have "doing c k = Some (CSend x)" using b by (simp add: begun_def)
    then show ?thesis using F(4)[of k] by (auto simp: rx_inv_def split: if_splits)
  qed (use F(3) in \<open>auto simp: tx_inv_def\<close>)
  then have "pc s (Rcv k) \<noteq> Ret PollPending"
    using gone_not_pending[OF F(1) st _ np] step_pending[OF st, of "Rcv k"] by auto
  moreover obtain h where h: "happens (Rcv k) (chn c) s h" by (rule step_happens[OF st])
  have "\<exists>rest. res (Rcv k) (rets s) = replicate n PollPending @ rest \<and> PollPending \<notin> set rest"
  proof (cases h)
    case (Logs r)
    then have "res (Rcv k) (rets s) = replicate n PollPending @ rest @ [r]" "r \<noteq> PollPending"
      using h np rest(1) by (auto simp: happens_def)
    then show ?thesis using rest(2) by (intro exI[of _ "rest @ [r]"]) auto
  qed (use h rest in \<open>auto simp: happens_def\<close>)
  ultimately show "pc (chn (c\<lparr>chn := s\<rparr>)) (Rcv k) \<noteq> Ret PollPending
     \<and> (\<exists>rest. res (Rcv k) (rets (chn (c\<lparr>chn := s\<rparr>))) = replicate n PollPending @ rest \<and> PollPending \<notin> set rest)" by simp
qed

lemma pending_call:
  assumes R: "client_reach f mb ww prog c" and P: "polls_around prog k pre v post" and I: "pending_inv k (recvs pre) c"
    and b: "\<not> busy c t" "code c t = d # ds" "call_label t d = Some l" "fire f mb ww l (chn c) = Some s"
  shows "pending_inv k (recvs pre) (c\<lparr>chn := s, busy := (busy c)(t := True)\<rparr>)"
  unfolding pending_inv_def
proof (intro allI impI)
  note F = client_facts[OF R] and E = call_effect[OF b(3,4)]
  fix x assume "begun (c\<lparr>chn := s, busy := (busy c)(t := True)\<rparr>) k (CSend x)"
  then have u: "begun c k (CSend x) \<or> k = t \<and> d = CSend x" using b(1,2) by (auto simp: begun_start)
  have old: "pc (chn c) (Rcv k) \<noteq> Ret PollPending
     \<and> (\<exists>rest. res (Rcv k) (rets (chn c)) = replicate (recvs pre) PollPending @ rest \<and> PollPending \<notin> set rest)"
  proof (cases "begun c k (CSend x)")
    case False
    then have d: "k = t" "d = CSend x" using u by simp_all
    then have past: "past c k = pre" using b(2) script_split[OF F(2), of t] send_at[OF P, of "past c k" x ds] by simp
    have i: "doing c k = None" using b(1) d(1) by (simp add: doing_def)
    have no: "\<not> begun c t' (CSend y)" for t' y
    proof
      assume bt: "begun c t' (CSend y)"
      then have "t' = k" using P begun_in[OF F(2) bt] by (auto simp: polls_around_def)
      then have "CSend y \<in> set pre" using bt past i by (simp add: begun_def)
      then show False using P by (auto simp: polls_around_def)
    qed
    have "length (res (Rcv k) (rets (chn c))) = recvs pre" "pc (chn c) (Rcv k) \<in> {Idle, Gone}"
      using idle_calls[OF F(4) i] past by (simp_all add: calls_def recvs_def)
    then have "res (Rcv k) (rets (chn c)) = replicate (recvs pre) PollPending @ [] \<and> pc (chn c) (Rcv k) \<noteq> Ret PollPending"
      using unsent_pending[OF R P no] replicate_eqI[of "res (Rcv k) (rets (chn c))"] by auto
    then show ?thesis by (metis empty_iff list.set(1))
  qed (use I in \<open>auto simp: pending_inv_def\<close>)
  have "pc s (Rcv k) \<noteq> Ret PollPending"
  proof (cases "t = k")
    case True
    show ?thesis using old E(2-6) True b(3) by (cases d) auto
  qed (use old call_other[OF b(3,4), of k] in auto)
  then show "pc (chn (c\<lparr>chn := s, busy := (busy c)(t := True)\<rparr>)) (Rcv k) \<noteq> Ret PollPending
     \<and> (\<exists>rest. res (Rcv k) (rets (chn (c\<lparr>chn := s, busy := (busy c)(t := True)\<rparr>))) = replicate (recvs pre) PollPending @ rest
       \<and> PollPending \<notin> set rest)" using old E(1) by simp
qed

lemma reach_pending:
  assumes "client_reach f mb ww prog c" and "polls_around prog k pre v post"
  shows "pending_inv k (recvs pre) c"
  using assms(1)
proof (induction rule: reach.induct)
  case (reach_init c)
  then show ?case by (simp add: pending_inv_def client_new_def begun_def doing_def)
next
  case (reach_step c c')
  note F = client_facts[OF reach_step(1)]
  have nxt: "pending_inv k (recvs pre) (next_cmd t c)" if "busy c t \<or> call_label t (hd (code c t)) = None" for t
    using reach_step(3) that by (simp add: pending_inv_def begun_next_call)
  show ?case using reach_step(2,1,3) nxt
  proof (induction rule: client_step.induct)
    case (begin_call c t d ds l s)
    then show ?case using pending_call[OF _ assms(2)] by metis
  next
    case (in_call c s)
    show ?case by (rule pending_in_call[OF in_call(3,4,1,2)])
  qed auto
qed

definition polled_first :: "'v \<Rightarrow> nat \<Rightarrow> 'v ret list" where
  "polled_first v n = (if n = 0 then [] else PollReady (Some v) # replicate (n - 1) (PollReady None))"

lemma poll_results:
  fixes c :: "('v, 'w) client"
  assumes R: "client_reach f mb ww prog c" and P: "polls_around prog k pre v post" and d: "doing c k = None"
  shows "res (Rcv k) (rets (chn c)) = (if CSend v \<in> set (past c k)
    then replicate (recvs pre) PollPending @ polled_first v (calls c k - recvs pre) else replicate (calls c k) PollPending)"
proof (cases "CSend v \<in> set (past c k)")
  case False
  note F = client_facts[OF R]
  have only: "t = k \<and> x = v" if "begun c t (CSend x)" for t x
    using begun_in[OF F(2) that] P unfolding polls_around_def by auto
  then have no: "\<not> begun c t (CSend x)" for t x using False d by (metis begun_def option.distinct(1))
  have "res (Rcv k) (rets (chn c)) = replicate (calls c k) PollPending"
    using unsent_pending[OF R P no] idle_calls(1)[OF F(4) d] replicate_eqI by metis
  then show ?thesis using False by simp
next
  case True
  note F = client_facts[OF R]
  let ?n = "recvs pre"
  have b: "begun c k (CSend v)" using True by (simp add: begun_def)
  obtain rest where rest: "res (Rcv k) (rets (chn c)) = replicate ?n PollPending @ rest" "PollPending \<notin> set rest"
    using reach_pending[OF R P] b unfolding pending_inv_def by blast
  have m: "length rest = calls c k - ?n" using idle_calls(1)[OF F(4) d] rest(1) by simp
  have "\<not> begun c k CRecv" using P begun_in[OF F(2)] by (auto simp: polls_around_def)
  then have kinds: "\<exists>x. r = PollReady x" if "r \<in> set rest" for r
  proof -
    have "r \<in> set (res (Rcv k) (rets (chn c)))" using rest(1) that by simp
    then have "polling_call (Ret r :: ('v, 'w) pc)" using F(5)[of k] \<open>\<not> begun c k CRecv\<close> unfolding kind_inv_def by blast
    then show ?thesis using rest(2) that by (cases r) auto
  qed
  have one: "length (values_of rest) \<le> 1"
  proof (cases "returned (chn c) = []")
    case False
    then obtain a w where aw: "(a, w) \<in> set (returned (chn c))" by (cases "returned (chn c)") auto
    then obtain q where "(a, q) \<in> set (rets (chn c))" "ret_value q = Some w" by (auto simp: returned_mem)
    then have "length (values_of (res (Rcv k) (rets (chn c)))) \<le> 1" using returned_one(2)[OF F(1)] by (simp add: values_res)
    then show ?thesis by (simp add: rest(1) values_of_def)
  next
    case True
    then have "values_of (res (Rcv k) (rets (chn c))) = []" by (simp add: values_res)
    then have "values_of rest = []" by (simp add: rest(1) values_of_def)
    then show ?thesis by simp
  qed
  have "rest = polled_first v (length rest)"
  proof (cases rest)
    case (Cons r rs)
    then obtain x where r: "r = PollReady x" using kinds by auto
    have "x \<noteq> None"
    proof
      assume "x = None"
      then have g: "gives_up (Ret r :: ('v, 'w) pc)" using r by simp
      have "only_receiver prog k" using P by (simp add: polls_around_def)
      from only_none[OF R this _ g, of "replicate ?n PollPending" rs] show False using rest(1) Cons by auto
    qed
    then obtain y where y: "x = Some y" by blast
    have "(Rcv k, r) \<in> set (rets (chn c))" using rest(1) Cons by (simp flip: res_mem)
    then have "sent (chn c) = Some y" using returned_one(1)[OF F(1)] r y by simp
    then have x: "x = Some v" using F(3) b y by (auto simp: tx_inv_def)
    have "values_of rs = []" using one unfolding Cons r x by (simp add: values_of_def)
    then have "q = PollReady None" if "q \<in> set rs" for q
      using kinds[of q] that Cons by (auto simp: values_of_def split: option.splits)
    then have "rs = replicate (length rs) (PollReady None)" by (simp add: replicate_eqI)
    then show ?thesis using Cons r x by (simp add: polled_first_def)
  qed (simp add: polled_first_def)
  then show ?thesis using rest(1) m True by simp
qed

end
