(* ===== verification/OneshotTests.thy ===== *)
theory OneshotTests
  imports OneshotShapes
begin

text \<open>
  The tests of the channel (\<^verbatim>\<open>conlock/src/oneshot.rs\<close>, \<^verbatim>\<open>conlock/tests/loom_oneshot.rs\<close>) as client programs,
  each proved to pass in every interleaving.
\<close>

section \<open>Programs as lists\<close>

text \<open>Thread 0 is the test function, the others are the threads it spawns.\<close>

definition threads :: "('v, 'w) cmd list list \<Rightarrow> ('v, 'w) script" where
  "threads css t = (if t < length css then css ! t else [])"

text \<open>A condition on every command, with its thread and the commands before it.\<close>

fun splits :: "('v, 'w) cmd list \<Rightarrow> ('v, 'w) cmd list \<Rightarrow> (('v, 'w) cmd list \<times> ('v, 'w) cmd) list" where
  "splits xs [] = []"
| "splits xs (d # ds) = (xs, d) # splits (xs @ [d]) ds"

definition each :: "(nat \<Rightarrow> ('v, 'w) cmd list \<Rightarrow> ('v, 'w) cmd \<Rightarrow> bool) \<Rightarrow> ('v, 'w) cmd list list \<Rightarrow> bool" where
  "each Q css \<longleftrightarrow> list_all (\<lambda>(t, cs). list_all (\<lambda>(xs, d). Q t xs d) (splits [] cs)) (enumerate 0 css)"

lemma splits_mem: "cs = us @ d # vs \<Longrightarrow> (xs @ us, d) \<in> set (splits xs cs)"
proof (induction cs arbitrary: xs us)
  case (Cons e cs)
  show ?case
  proof (cases us)
    case (Cons f us')
    then have "(xs @ [e] @ us', d) \<in> set (splits (xs @ [e]) cs)" using Cons.IH[of us' "xs @ [e]"] Cons.prems by simp
    then show ?thesis using Cons Cons.prems by simp
  qed (use Cons.prems in simp)
qed simp

lemma each_at:
  assumes "each Q css" and "threads css t = xs @ d # ys"
  shows "Q t xs d"
proof -
  have t: "t < length css" "css ! t = threads css t" using assms(2) by (auto simp: threads_def split: if_splits)
  then have "(t, css ! t) \<in> set (enumerate 0 css)" by (simp add: in_set_enumerate_eq)
  then have "list_all (\<lambda>(xs, d). Q t xs d) (splits [] (css ! t))" using assms(1) by (auto simp: each_def list_all_iff)
  then show ?thesis using splits_mem[OF assms(2), of "[]"] t(2) by (auto simp: list_all_iff)
qed

lemma each_in:
  assumes "each Q css" and "d \<in> set (threads css t)"
  shows "\<exists>xs. Q t xs d"
  using each_at[OF assms(1)] split_list[OF assms(2)] by blast

section \<open>The shapes, decided on lists\<close>

text \<open>One thread calls \<^verbatim>\<open>recv\<close>, and the receiver is dropped after a call.\<close>

fun single_cmd :: "('v, 'w) script \<Rightarrow> nat \<Rightarrow> 'v \<Rightarrow> nat \<Rightarrow> ('v, 'w) cmd list \<Rightarrow> ('v, 'w) cmd \<Rightarrow> bool" where
  "single_cmd prog k v t xs (CSend x) = (x = v)"
| "single_cmd prog k v t xs CDropTx = False"
| "single_cmd prog k v t xs CRecv = (t = k)"
| "single_cmd prog k v t xs (CPoll w) = False"
| "single_cmd prog k v t xs CDropRx = (CRecv \<in> set xs)"
| "single_cmd prog k v t xs (Join u) = True"
| "single_cmd prog k v t xs (Assert P) = assert_ok prog k v t xs P"

lemma single_tests:
  assumes "each (single_cmd (threads css) k v) css"
  shows "passes f mb ww (threads css)"
proof (rule single_passes)
  note E = each_in[OF assms] each_at[OF assms]
  have "receives_first (threads css t)" for t using E(2) by (fastforce simp: receives_first_def)
  moreover have "\<not> is_call e" if "t \<noteq> k" "e \<in> set (threads css t)" for t e using that E(1) by (cases e) fastforce+
  ultimately show "single_receiver (threads css) k v" using E(1) by (fastforce simp: single_receiver_def only_receiver_def)
  show "assert_ok (threads css) k v t xs P" if "threads css t = xs @ Assert P # ys" for t xs P ys using E(2)[OF that] by simp
qed

text \<open>Two threads call \<^verbatim>\<open>recv\<close> once each, and the receiver is dropped after both.\<close>

fun two_cmd :: "nat \<Rightarrow> nat \<Rightarrow> 'v \<Rightarrow> nat \<Rightarrow> ('v, 'w) cmd list \<Rightarrow> ('v, 'w) cmd \<Rightarrow> bool" where
  "two_cmd i j v t xs (CSend x) = (x = v)"
| "two_cmd i j v t xs CDropTx = False"
| "two_cmd i j v t xs CRecv = (t = i \<or> t = j)"
| "two_cmd i j v t xs (CPoll w) = False"
| "two_cmd i j v t xs CDropRx = (Join i \<in> set xs \<and> Join j \<in> set xs)"
| "two_cmd i j v t xs (Join u) = True"
| "two_cmd i j v t xs (Assert P) = (\<forall>rs l.
     (Join i \<in> set xs \<and> Join j \<in> set xs \<longrightarrow>
        res (Rcv i) rs = [RecvRet (Some v)] \<and> res (Rcv j) rs = [RecvRet None]
        \<or> res (Rcv i) rs = [RecvRet None] \<and> res (Rcv j) rs = [RecvRet (Some v)]) \<longrightarrow>
     (CSend v \<in> set xs \<longrightarrow> res Snd rs = [SendOk]) \<longrightarrow> P rs l)"

lemma two_tests:
  fixes css :: "('v, 'w) cmd list list"
  assumes e: "each (two_cmd i j v) css" and n: "i \<noteq> j" "recvs (threads css i) = 1" "recvs (threads css j) = 1"
  shows "passes f mb ww (threads css)"
proof (rule passesI)
  note E = each_in[OF e] each_at[OF e]
  fix c :: "('v, 'w) client" and t P ds
  assume R: "client_reach f mb ww (threads css) c" and sp: "threads css t = past c t @ Assert P # ds"
    and joined: "\<And>u. Join u \<in> set (past c t) \<Longrightarrow> past c u = threads css u \<and> doing c u = None"
  have T: "two_receivers (threads css) i j v" using n E(1)[of CDropTx] E(1)[of CRecv] E(1)[of "CPoll w" for w] E(1)[of "CSend x" for x]
    unfolding two_receivers_def two_cmd.simps by auto
  have D: "drops_joined (threads css) i j" using E(2)[of t xs CDropRx for t xs] by (simp add: drops_joined_def)
  have J: "Join i \<in> set (past c t) \<and> Join j \<in> set (past c t) \<longrightarrow>
      res (Rcv i) (rets (chn c)) = [RecvRet (Some v)] \<and> res (Rcv j) (rets (chn c)) = [RecvRet None]
      \<or> res (Rcv i) (rets (chn c)) = [RecvRet None] \<and> res (Rcv j) (rets (chn c)) = [RecvRet (Some v)]"
    using two_results[OF R T] joined[of i] joined[of j] by simp
  have S: "CSend v \<in> set (past c t) \<longrightarrow> res Snd (rets (chn c)) = [SendOk]" using two_sent[OF R T D, of t] by simp
  show "P (rets (chn c)) (lost (chn c))"
    by (rule E(2)[OF sp, unfolded two_cmd.simps, THEN spec, THEN spec, THEN mp, OF J, THEN mp, OF S])
qed

text \<open>Nothing is sent.\<close>

fun unsent_cmd :: "('v, 'w) script \<Rightarrow> nat \<Rightarrow> ('v, 'w) cmd list \<Rightarrow> ('v, 'w) cmd \<Rightarrow> bool" where
  "unsent_cmd prog t xs (CSend x) = False"
| "unsent_cmd prog t xs (CPoll w) = False"
| "unsent_cmd prog t xs (Assert P) = (\<forall>rs l.
     (\<forall>u n. knows_recvs prog u t xs n \<longrightarrow> res (Rcv u) rs = replicate n (RecvRet None)) \<longrightarrow> P rs l)"
| "unsent_cmd prog t xs _ = True"

lemma unsent_tests:
  fixes css :: "('v, 'w) cmd list list"
  assumes e: "each (unsent_cmd (threads css)) css"
  shows "passes f mb ww (threads css)"
proof (rule passesI)
  note E = each_in[OF e] each_at[OF e]
  fix c :: "('v, 'w) client" and t P ds
  assume R: "client_reach f mb ww (threads css) c" and sp: "threads css t = past c t @ Assert P # ds" and idle: "doing c t = None"
    and joined: "\<And>u. Join u \<in> set (past c t) \<Longrightarrow> past c u = threads css u \<and> doing c u = None"
  have none: "CSend v \<notin> set (threads css u)" "CPoll w \<notin> set (threads css u)" for u v w using E(1) by fastforce+
  have A: "\<forall>u n. knows_recvs (threads css) u t (past c t) n \<longrightarrow> res (Rcv u) (rets (chn c)) = replicate n (RecvRet None)"
  proof (intro allI impI)
    fix u n assume k: "knows_recvs (threads css) u t (past c t) n"
    then have "n = calls c u" "doing c u = None"
      using idle joined[of u] by (auto simp: knows_recvs_def calls_def recvs_def split: if_splits)
    then show "res (Rcv u) (rets (chn c)) = replicate n (RecvRet None)" using unsent_results[OF R none] by simp
  qed
  show "P (rets (chn c)) (lost (chn c))"
    by (rule E(2)[OF sp, unfolded unsent_cmd.simps, THEN spec, THEN spec, THEN mp, OF A])
qed

text \<open>The receiver is dropped before the \<^verbatim>\<open>send\<close>.\<close>

fun refused_cmd :: "('v, 'w) script \<Rightarrow> nat \<Rightarrow> ('v, 'w) cmd list \<Rightarrow> ('v, 'w) cmd \<Rightarrow> bool" where
  "refused_cmd prog t xs (CSend x) = (CDropRx \<in> set xs \<or> list_ex (\<lambda>d. case d of Join u \<Rightarrow> CDropRx \<in> set (prog u) | _ \<Rightarrow> False) xs)"
| "refused_cmd prog t xs (Assert P) = (\<forall>rs l.
     (\<forall>v. CSend v \<in> set xs \<longrightarrow> res Snd rs = [SendErr (Some v)] \<and> delivered rs = [v] \<and> l = []) \<longrightarrow>
     (\<forall>u v. Join u \<in> set xs \<and> CSend v \<in> set (prog u) \<longrightarrow> res Snd rs = [SendErr (Some v)] \<and> delivered rs = [v] \<and> l = []) \<longrightarrow> P rs l)"
| "refused_cmd prog t xs _ = True"

lemma refused_tests:
  fixes css :: "('v, 'w) cmd list list"
  assumes e: "each (refused_cmd (threads css)) css"
  shows "passes f mb ww (threads css)"
proof (rule passesI)
  note E = each_at[OF e]
  fix c :: "('v, 'w) client" and t P ds
  assume R: "client_reach f mb ww (threads css) c" and sp: "threads css t = past c t @ Assert P # ds"
    and joined: "\<And>u. Join u \<in> set (past c t) \<Longrightarrow> past c u = threads css u \<and> doing c u = None"
  have "knows_dropped (threads css) xs" if "threads css u = xs @ CSend v # ys" for u xs v ys
  proof -
    have "\<exists>w. d = Join w \<and> CDropRx \<in> set (threads css w)"
      if "case d of Join w \<Rightarrow> CDropRx \<in> set (threads css w) | _ \<Rightarrow> False" for d :: "('v, 'w) cmd"
      using that by (cases d) simp_all
    then show ?thesis using E[OF that] by (fastforce simp: knows_dropped_def list_ex_iff)
  qed
  then have L: "sends_late (threads css)" by (auto simp: sends_late_def)
  let ?refused = "\<lambda>v. res Snd (rets (chn c)) = [SendErr (Some v)] \<and> delivered (rets (chn c)) = [v] \<and> lost (chn c) = []"
  have r: "?refused v" if "CSend v \<in> set (past c u)" for u v using refused_result[OF R L that] by (simp add: delivered_returned)
  have A: "\<forall>v. CSend v \<in> set (past c t) \<longrightarrow> ?refused v" using r by blast
  have B: "\<forall>u v. Join u \<in> set (past c t) \<and> CSend v \<in> set (threads css u) \<longrightarrow> ?refused v" using r joined by metis
  show "P (rets (chn c)) (lost (chn c))"
    by (rule E[OF sp, unfolded refused_cmd.simps, THEN spec, THEN spec, THEN mp, OF A, THEN mp, OF B])
qed

text \<open>One thread polls around its \<^verbatim>\<open>send\<close>.\<close>

fun polled_cmd :: "nat \<Rightarrow> 'v \<Rightarrow> nat \<Rightarrow> ('v, 'w) cmd list \<Rightarrow> ('v, 'w) cmd \<Rightarrow> bool" where
  "polled_cmd n v t xs (Assert P) = (\<forall>rs l. res (Rcv 0) rs = (if CSend v \<in> set xs
     then replicate n PollPending @ polled_first v (recvs xs - n) else replicate (recvs xs) PollPending) \<longrightarrow>
     (CSend v \<in> set xs \<and> CDropRx \<notin> set xs \<longrightarrow> res Snd rs = [SendOk]) \<longrightarrow> P rs l)"
| "polled_cmd n v t xs _ = True"

lemma poll_tests:
  fixes cs pre post :: "('v, 'w) cmd list"
  assumes cs: "cs = pre @ CSend v # post"
    and p: "list_all (\<lambda>d. d \<noteq> CDropTx \<and> d \<noteq> CRecv \<and> (\<forall>x. d \<noteq> CSend x)) (pre @ post)"
    and e: "each (polled_cmd (recvs pre) v) [cs]"
  shows "passes f mb ww (threads [cs])"
proof (rule passesI)
  fix c :: "('v, 'w) client" and t P ds
  assume R: "client_reach f mb ww (threads [cs]) c" and sp: "threads [cs] t = past c t @ Assert P # ds" and idle: "doing c t = None"
  note F = client_facts[OF R]
  have t: "t = 0" using sp by (cases "t = 0") (auto simp: threads_def)
  have "polls_around (threads [cs]) 0 pre v post"
    using p unfolding polls_around_def only_receiver_def cs by (auto simp: threads_def list_all_iff)
  note res = poll_results[OF R this]
  have "res Snd (rets (chn c)) = [SendOk]" if "CSend v \<in> set (past c t)" "CDropRx \<notin> set (past c t)"
  proof (rule sent_result[OF R that(1)])
    fix i assume b: "begun c i CDropRx"
    have "threads [cs] i = past c i @ code c i" by (rule script_split[OF F(2)])
    moreover have "CDropRx \<in> set (threads [cs] i)" by (rule begun_in[OF F(2) b])
    ultimately have "i = 0" by (cases "i = 0") (auto simp: threads_def)
    then show "\<exists>j q. (Rcv j, q) \<in> set (rets (chn c)) \<and> ret_value q \<noteq> None" using b that(2) t idle by (simp add: begun_def)
  qed
  then show "P (rets (chn c)) (lost (chn c))"
    using res each_at[OF e sp] idle t by (simp add: calls_def recvs_def)
qed

section \<open>The unit tests\<close>

abbreviation got :: "nat \<Rightarrow> 'v option list \<Rightarrow> ('v, 'w) cmd" where
  "got t xs \<equiv> Assert (\<lambda>log _. res (Rcv t) log = map RecvRet xs)"

abbreviation sent_ok :: "('v, 'w) cmd" where
  "sent_ok \<equiv> Assert (\<lambda>log _. res Snd log = [SendOk])"

definition test_oneshot_basic :: "(int, 'w) cmd list list" where
  "test_oneshot_basic = [[CRecv, got 0 [Some 42], CDropRx], [CSend 42, sent_ok]]"

definition test_oneshot_send_then_recv :: "(int, 'w) cmd list list" where
  "test_oneshot_send_then_recv = [[CSend 100, sent_ok, CRecv, got 0 [Some 100], CDropRx]]"

definition test_oneshot_recv_before_send :: "(string, 'w) cmd list list" where
  "test_oneshot_recv_before_send = [[CRecv, got 0 [Some ''hello''], CDropRx], [CSend ''hello'', sent_ok]]"

definition test_oneshot_duplicate_recv :: "(int, 'w) cmd list list" where
  "test_oneshot_duplicate_recv =
     [[CSend 42, sent_ok, CRecv, got 0 [Some 42], CRecv, got 0 [Some 42, None], CDropRx]]"

definition test_oneshot_sender_dropped :: "(int, 'w) cmd list list" where
  "test_oneshot_sender_dropped = [[CDropTx, CRecv, got 0 [None], CDropRx]]"

definition test_oneshot_receiver_dropped_before_send :: "(int, 'w) cmd list list" where
  "test_oneshot_receiver_dropped_before_send =
     [[CDropRx, CSend 42, Assert (\<lambda>log _. res Snd log = [SendErr (Some 42)])]]"

definition test_oneshot_receiver_dropped_after_send :: "(int, 'w) cmd list list" where
  "test_oneshot_receiver_dropped_after_send = [[CSend 42, sent_ok, CDropRx]]"

text \<open>\<^verbatim>\<open>assert!(r1.is_some() || r2.is_some()); assert!(r1.is_none() || r2.is_none());\<close>\<close>

definition one_of_two :: "nat \<Rightarrow> nat \<Rightarrow> ('v, 'w) cmd" where
  "one_of_two i j = Assert (\<lambda>log _. \<exists>r1 r2. res (Rcv i) log = [RecvRet r1] \<and> res (Rcv j) log = [RecvRet r2]
     \<and> (r1 \<noteq> None \<or> r2 \<noteq> None) \<and> (r1 = None \<or> r2 = None))"

definition test_oneshot_multiple_threads_recv :: "(int, 'w) cmd list list" where
  "test_oneshot_multiple_threads_recv =
     [[Join 2, Join 3, one_of_two 2 3, CDropRx], [CSend 99, sent_ok], [CRecv], [CRecv]]"

definition test_oneshot_multiple_threads_arc_recv :: "(int, 'w) cmd list list" where
  "test_oneshot_multiple_threads_arc_recv =
     [[Join 1, Join 2, one_of_two 1 2, CDropRx], [CRecv], [CRecv], [CSend 99, sent_ok]]"


text \<open>\<^verbatim>\<open>Pin::new(&mut rx).poll(&mut cx)\<close> with the waker \<open>w\<close>.\<close>

abbreviation polled :: "int ret list \<Rightarrow> (int, 'w) cmd" where
  "polled rs \<equiv> Assert (\<lambda>log _. res (Rcv 0) log = rs)"

definition test_oneshot_async_poll :: "'w \<Rightarrow> (int, 'w) cmd list list" where
  "test_oneshot_async_poll w =
     [[CPoll w, polled [PollPending], CPoll w, polled [PollPending, PollPending],
       CSend 7, sent_ok, CPoll w, polled [PollPending, PollPending, PollReady (Some 7)],
       CPoll w, polled [PollPending, PollPending, PollReady (Some 7), PollReady None], CDropRx]]"

section \<open>They pass\<close>

lemmas each_simps = each_def threads_def recvs_def

lemmas knows_simps = assert_ok_def knows_recvs_def knows_sent_def got_first_def

lemma basic_passes: "passes f mb ww (threads test_oneshot_basic)"
  by (rule single_tests[where k = 0 and v = 42]) (simp add: test_oneshot_basic_def each_simps knows_simps)

lemma send_then_recv_passes: "passes f mb ww (threads test_oneshot_send_then_recv)"
  by (rule single_tests[where k = 0 and v = 100]) (simp add: test_oneshot_send_then_recv_def each_simps knows_simps)

lemma recv_before_send_passes: "passes f mb ww (threads test_oneshot_recv_before_send)"
  by (rule single_tests[where k = 0 and v = "''hello''"])
    (simp add: test_oneshot_recv_before_send_def each_simps knows_simps)

lemma duplicate_recv_passes: "passes f mb ww (threads test_oneshot_duplicate_recv)"
  by (rule single_tests[where k = 0 and v = 42]) (simp add: test_oneshot_duplicate_recv_def each_simps knows_simps)

lemma sender_dropped_passes: "passes f mb ww (threads test_oneshot_sender_dropped)"
  by (rule unsent_tests) (auto simp: test_oneshot_sender_dropped_def each_simps knows_simps split: if_splits)

lemma receiver_dropped_before_send_passes: "passes f mb ww (threads test_oneshot_receiver_dropped_before_send)"
  by (rule refused_tests) (simp add: test_oneshot_receiver_dropped_before_send_def each_simps)

lemma receiver_dropped_after_send_passes: "passes f mb ww (threads test_oneshot_receiver_dropped_after_send)"
proof -
  have "passes f mb ww (threads [[] @ CSend (42 :: int) # [sent_ok, CDropRx]])"
    by (rule poll_tests[OF refl]) (simp_all add: each_simps)
  then show ?thesis by (simp add: test_oneshot_receiver_dropped_after_send_def)
qed

lemma multiple_threads_recv_passes: "passes f mb ww (threads test_oneshot_multiple_threads_recv)"
  by (rule two_tests[where i = 2 and j = 3 and v = 99])
    (auto simp: test_oneshot_multiple_threads_recv_def one_of_two_def each_simps)

lemma multiple_threads_arc_recv_passes: "passes f mb ww (threads test_oneshot_multiple_threads_arc_recv)"
  by (rule two_tests[where i = 1 and j = 2 and v = 99])
    (auto simp: test_oneshot_multiple_threads_arc_recv_def one_of_two_def each_simps)

lemma async_poll_passes: "passes f mb ww (threads (test_oneshot_async_poll w))"
  unfolding test_oneshot_async_poll_def
  by (rule poll_tests[where v = 7 and pre = "[CPoll w, polled [PollPending], CPoll w, polled [PollPending, PollPending]]"
        and post = "[sent_ok, CPoll w, polled [PollPending, PollPending, PollReady (Some 7)],
       CPoll w, polled [PollPending, PollPending, PollReady (Some 7), PollReady None], CDropRx]"])
    (simp_all add: each_simps polled_first_def)

end
