(* ===== verification/OneshotSolo.thy ===== *)
theory OneshotSolo
  imports OneshotSpec
begin

text \<open>
  Progress of the channel's operations: a thread that runs alone completes its call in a bounded
  number of instructions, from every reachable state, or is a \<^verbatim>\<open>recv\<close> that has announced itself and has
  nothing to receive. Every loop of \<^verbatim>\<open>Inner\<close> is covered; the argument is a rank that each
  instruction decreases.
\<close>

section \<open>Running alone\<close>

text \<open>
  Alone, a load returns the newest message, and an exchange succeeds exactly if the word is the
  expected one. The blocking primitive is not entered.
\<close>

definition solo_label :: "features \<Rightarrow> agent \<Rightarrow> ('v, 'w) chan \<Rightarrow> ('v, 'w) label" where
  "solo_label f a s = (case instr f (pc s a) of
      ICas op c \<Rightarrow> if latest s = c then LStep a (top s) else LFail a (top s)
    | _ \<Rightarrow> LStep a (top s))"

fun at_rest :: "('v, 'w) pc \<Rightarrow> bool" where
  "at_rest Idle = True"
| "at_rest (Ret _) = True"
| "at_rest Gone = True"
| "at_rest _ = False"

text \<open>At \<^verbatim>\<open>wait_ready\<close> with the word it expects: only another thread can let it go on.\<close>

fun waits_for :: "u32 \<Rightarrow> ('v, 'w) pc \<Rightarrow> bool" where
  "waits_for w (InRecv (RcWait c)) \<longleftrightarrow> c = w"
| "waits_for w (InRecv RcParked) \<longleftrightarrow> True"
| "waits_for w _ \<longleftrightarrow> False"

definition stuck :: "agent \<Rightarrow> ('v, 'w) chan \<Rightarrow> bool" where
  "stuck a s \<longleftrightarrow> at_rest (pc s a) \<or> waits_for (latest s) (pc s a)"

fun solo_run ::
  "features \<Rightarrow> (u32 \<Rightarrow> u32 \<Rightarrow> bool) \<Rightarrow> ('w \<Rightarrow> 'w \<Rightarrow> bool) \<Rightarrow> agent \<Rightarrow> nat \<Rightarrow> ('v, 'w) chan \<Rightarrow> ('v, 'w) chan option" where
  "solo_run f mb ww a 0 s = Some s"
| "solo_run f mb ww a (Suc n) s =
     (if stuck a s then Some s else Option.bind (fire f mb ww (solo_label f a s) s) (solo_run f mb ww a n))"

section \<open>The effect of one instruction on point and word\<close>

fun solo_outcome :: "features \<Rightarrow> u32 \<Rightarrow> 'v option \<Rightarrow> ('v, 'w) insn \<Rightarrow> 'v outcome" where
  "solo_outcome f w d ILoad = Loaded w"
| "solo_outcome f w d IAcquire = Loaded w"
| "solo_outcome f w d (ICas op c) = (if w = c then CasOk else CasFail w)"
| "solo_outcome f w d IReadData = Got d"
| "solo_outcome f w d (IWait c) = (if f_wait f then Done else Loaded w)"
| "solo_outcome f w d _ = Done"

fun solo_word :: "u32 \<Rightarrow> ('v, 'w) insn \<Rightarrow> u32" where
  "solo_word w (ICas op c) = (if w = c then cas_new op c else w)"
| "solo_word w _ = w"

lemma latest_frame [simp]:
  "top (touch a m) = top m" "mval (touch a m) = mval m"
  "top (access a x m) = top m" "mval (access a x m) = mval m"
  "top (log_lost a c) = top c" "mval (log_lost a c) = mval c"
  "top (log_woken c) = top c" "mval (log_woken c) = mval c"
  "top (write_data a v m) = top m" "mval (write_data a v m) = mval m"
  "top (read_data a m) = top m" "mval (read_data a m) = mval m"
  "top (take_waker a m) = top m" "mval (take_waker a m) = mval m"
  "top (write_waker a w m) = top m" "mval (write_waker a w m) = mval m"
  "top (update_waker ww a w m) = top m" "mval (update_waker ww a w m) = mval m"
  by (simp_all add: mem_op_defs log_lost_def log_woken_def Let_def split: pc.split option.split)

lemma solo_fire:
  assumes "\<not> stuck a s" and "seen s a \<le> top s"
  obtains t where "fire f mb ww (solo_label f a s) s = Some t"
    and "pc t a = nxt f (pc s a) (solo_outcome f (latest s) (data s) (instr f (pc s a)))"
    and "latest t = solo_word (latest s) (instr f (pc s a))"
proof -
  let ?i = "instr f (pc s a)"
  have rd: "can_read a (top s) s" using assms(2) by (simp add: can_read_def)
  have none: "?i \<noteq> INone" "?i \<noteq> IParked"
    using assms(1) by (cases "pc s a"; auto simp: stuck_def elim!: send_instr.elims drops_instr.elims
        recv_instr.elims poll_instr.elims dropr_instr.elims)+
  have "pc s a \<noteq> InRecv RcParked" using assms(1) by (auto simp: stuck_def)
  then have unp: "nxt f (pc s a) Done \<noteq> InRecv RcParked" using nxt_parked by metis
  have "\<exists>t. fire f mb ww (solo_label f a s) s = Some t
      \<and> pc t a = nxt f (pc s a) (solo_outcome f (latest s) (data s) ?i) \<and> latest t = solo_word (latest s) ?i"
    using none rd unp by (cases ?i) (auto simp: solo_label_def adv_def goto_def step_simps unpark_all_def)
  then show ?thesis using that by blast
qed

section \<open>The rank\<close>

text \<open>How many instructions a point needs at most when the word is \<open>w\<close>.\<close>

fun rank_send :: "u32 \<Rightarrow> 'v send_pc \<Rightarrow> nat" where
  "rank_send w (SendLoad v) = 6"
| "rank_send w (SendWrite v c) = 5"
| "rank_send w (SendCas c) = (if c = w then 3 else 4)"
| "rank_send w SendAcq = 2"
| "rank_send w _ = 1"

fun rank_drops :: "u32 \<Rightarrow> drops_pc \<Rightarrow> nat" where
  "rank_drops w DsLoad = 6"
| "rank_drops w DsAcq = 2"
| "rank_drops w DsDealloc = 1"
| "rank_drops w (DsSetDropping c) = (if c = w then 1 else 6)"
| "rank_drops w (DsClosedDropping c) = (if c = w then 1 else 6)"
| "rank_drops w (DsClosedAcq c) = (if c = w then 3 else 6)"
| "rank_drops w (DsWake c) = (if c = w then 2 else 7)"
| "rank_drops w (DsClosedWake c) = (if c = w then 3 else 6)"
| "rank_drops w (DsWakeAll c) = (if c = w then 2 else 7)"
| "rank_drops w (DsSetClosedDropping c) = (if c = w then 1 else 6)"

definition rank_recv_loop :: "u32 \<Rightarrow> nat" where
  "rank_recv_loop w = (if w = 20 then 4 else if w \<in> {1, 11} then 2 else if w = 0 then 1 else 0)"

fun rank_recv :: "u32 \<Rightarrow> recv_pc \<Rightarrow> nat" where
  "rank_recv w (RcTake c) = (if c = w then 2 else 1 + rank_recv_loop w)"
| "rank_recv w RcRead = 1"
| "rank_recv w (RcUnpend c) = (if c = w then 4 else 1 + rank_recv_loop w)"
| "rank_recv w (RcDropWaker c) = 3 + rank_recv_loop w"
| "rank_recv w (RcSetWaiting c) = (if c = w then 1 else 1 + rank_recv_loop w)"
| "rank_recv w (RcWait c) = (if c = w then 0 else 2 + rank_recv_loop w)"
| "rank_recv w _ = 1 + rank_recv_loop w"

fun rank_poll :: "u32 \<Rightarrow> 'w poll_pc \<Rightarrow> nat" where
  "rank_poll w (PoLoad x) = 4"
| "rank_poll w (PoTake x c) = (if c = w then 2 else 4)"
| "rank_poll w PoRead = 1"
| "rank_poll w (PoWakeless x c) = (if c = w then 3 else 4)"
| "rank_poll w (PoUpdate x c) = (if c = w then 2 else 7)"
| "rank_poll w (PoSet x c) = (if c = w then 3 else 4)"
| "rank_poll w (PoWrite x c) = (if c = w then 2 else 7)"
| "rank_poll w (PoUnset x c) = (if c = w then 1 else 6)"
| "rank_poll w (PoDropWaker x c) = 5"

fun rank_dropr :: "u32 \<Rightarrow> dropr_pc \<Rightarrow> nat" where
  "rank_dropr w DrLoad = 5"
| "rank_dropr w (DrUnset c) = (if c = w then 4 else 5)"
| "rank_dropr w (DrRead c) = (if c = w then 3 else 6)"
| "rank_dropr w DrAcq = 2"
| "rank_dropr w DrDealloc = 1"
| "rank_dropr w (DrSetDropping c) = (if c = w then 1 else 5)"
| "rank_dropr w (DrClosedAcq c) = (if c = w then 3 else 5)"
| "rank_dropr w (DrDropWaker c) = (if c = w then 2 else 6)"
| "rank_dropr w (DrSetClosedDropping c) = (if c = w then 1 else 5)"

fun rank :: "u32 \<Rightarrow> ('v, 'w) pc \<Rightarrow> nat" where
  "rank w (InSend p) = rank_send w p"
| "rank w (InDropS p) = rank_drops w p"
| "rank w (InRecv p) = rank_recv w p"
| "rank w (InPoll p) = rank_poll w p"
| "rank w (InDropR p) = rank_dropr w p"
| "rank w _ = 0"

lemma rank_le:
  fixes p :: "('a, 'b) pc"
  shows "rank w p \<le> 7"
proof -
  have "rank_send w q \<le> 7" for q :: "'a send_pc" by (cases q) auto
  moreover have "rank_drops w q \<le> 7" for q by (cases q) auto
  moreover have "rank_recv w q \<le> 7" for q by (cases q) (auto simp: rank_recv_loop_def)
  moreover have "rank_poll w q \<le> 7" for q :: "'b poll_pc" by (cases q) auto
  moreover have "rank_dropr w q \<le> 7" for q by (cases q) auto
  ultimately show ?thesis by (cases p) auto
qed

abbreviation solo_nxt :: "features \<Rightarrow> u32 \<Rightarrow> 'v option \<Rightarrow> ('v, 'w) pc \<Rightarrow> ('v, 'w) pc" where
  "solo_nxt f w d p \<equiv> nxt f p (solo_outcome f w d (instr f p))"

lemma rank_send_step:
  assumes "w \<in> words f" and "know (mval s) (top s) (seen s a) (InSend q)" and "latest s = w"
  shows "rank (solo_word w (send_instr f q)) (send_next f q (solo_outcome f w d (send_instr f q))) < rank w (InSend q)"
  using assms by (cases q; elim words_cases) (auto simp: word_state loop_defs)

lemma rank_drops_step:
  assumes "w \<in> words f" and "know_drops (mval s) (top s) (seen s a) q" and "latest s = w"
  shows "rank (solo_word w (drops_instr f q)) (drops_next f q (solo_outcome f w d (drops_instr f q))) < rank_drops w q"
  using assms by (cases q; elim words_cases) (auto simp: word_state loop_defs)

lemma rank_recv_step:
  assumes "w \<in> words f" and "know_recv (mval s) (top s) q" and "latest s = w" and "w \<noteq> 28"
    and "\<not> waits_for w (InRecv q)"
  shows "rank (solo_word w (recv_instr f q)) (recv_next f q (solo_outcome f w d (recv_instr f q))) < rank_recv w q"
  using assms by (cases q; elim words_cases) (auto simp: word_state loop_defs rank_recv_loop_def)

lemma rank_poll_step:
  fixes s :: "('a, 'b) chan"
  assumes "w \<in> words f" and "know_poll (mval s) (top s) (seen s a) q" and "latest s = w"
    and "w \<noteq> 4" and "\<not> polls (InPoll q :: ('a, 'b) pc) \<Longrightarrow> w \<noteq> 28"
  shows "rank (solo_word w (poll_instr q)) (poll_next q (solo_outcome f w d (poll_instr q))) < rank_poll w q"
  using assms by (cases q; elim words_cases) (auto simp: word_state loop_defs polling_def)

lemma rank_dropr_step:
  assumes "w \<in> words f" and "know_dropr (mval s) (top s) (seen s a) q" and "latest s = w" and "w \<noteq> 4" and "w \<noteq> 28"
  shows "rank (solo_word w (dropr_instr f q)) (dropr_next f q (solo_outcome f w d (dropr_instr f q))) < rank_dropr w q"
  using assms by (cases q; elim words_cases) (auto simp: word_state loop_defs)

lemma rank_step:
  fixes s :: "('a, 'b) chan"
  assumes I: "ctl_inv f s" and "\<not> stuck a s"
  shows "rank (solo_word (latest s) (instr f (pc s a))) (nxt f (pc s a) (solo_outcome f (latest s) d (instr f (pc s a))))
    < rank (latest s) (pc s a)"
proof -
  note W = ctl_latest[OF I] and K = ctl_know[OF I, of a]
  have rcv: "\<exists>i. a = Rcv i" if "\<not> snd_pc (pc s a)" by (rule ctl_side(1)[OF I that])
  show ?thesis
  proof (cases "pc s a")
    case (InSend q)
    then show ?thesis using rank_send_step[OF W, of s a q d] K by simp
  next
    case (InDropS q)
    then show ?thesis using rank_drops_step[OF W, of s a q d] K by simp
  next
    case (InRecv q)
    then obtain i where "a = Rcv i" using rcv by auto
    then have "latest s \<noteq> 28" using ctl_excl_28[OF I, of i] InRecv by auto
    then show ?thesis using rank_recv_step[OF W, of s q d] K InRecv assms(2) by (simp add: stuck_def)
  next
    case (InPoll q)
    then obtain i where i: "a = Rcv i" using rcv by auto
    then have "latest s \<noteq> 4" using ctl_excl_4[OF I, of i] InPoll by simp
    moreover have "latest s \<noteq> 28" if "\<not> polls (InPoll q :: ('a, 'b) pc)"
    proof
      assume "latest s = 28"
      from ctl_excl_28[OF I this, of i] InPoll i that show False by simp
    qed
    ultimately show ?thesis using rank_poll_step[OF W, of s a q d] K InPoll by simp
  next
    case (InDropR q)
    then obtain i where i: "a = Rcv i" using rcv by auto
    then have "latest s \<noteq> 4" "latest s \<noteq> 28" using ctl_excl_4[OF I, of i] ctl_excl_28[OF I, of i] InDropR by auto
    then show ?thesis using rank_dropr_step[OF W, of s a q d] K InDropR by simp
  qed (use assms(2) in \<open>simp_all add: stuck_def\<close>)
qed

section \<open>Progress\<close>

text \<open>A \<^verbatim>\<open>recv\<close> that runs alone does not leave the words in which there is something to return.\<close>

fun recving :: "('v, 'w) pc \<Rightarrow> bool" where
  "recving (InRecv _) = True"
| "recving _ = False"

lemma nxt_recving:
  fixes p :: "('v, 'w) pc"
  assumes "recving (nxt f p r)"
  shows "recving p"
proof -
  have "\<not> recving (send_next f q r :: ('v, 'w) pc)" for q
    by (cases "(f, q, r)" rule: send_next.cases) (auto simp: loop_defs)
  moreover have "\<not> recving (drops_next f q r :: ('v, 'w) pc)" for q
    by (cases "(f, q, r)" rule: drops_next.cases) (auto simp: loop_defs Let_def)
  moreover have "\<not> recving (poll_next q r)" for q :: "'w poll_pc"
    by (cases "(q, r)" rule: poll_next.cases) (auto simp: loop_defs)
  moreover have "\<not> recving (dropr_next f q r :: ('v, 'w) pc)" for q
    by (cases "(f, q, r)" rule: dropr_next.cases) (auto simp: loop_defs)
  ultimately show ?thesis using assms by (cases p) auto
qed

lemma recv_decided:
  assumes "ctl_inv f s" and "recving (pc s a)" and "latest s \<in> {1, 2, 8, 10, 11}"
  shows "solo_word (latest s) (instr f (pc s a)) \<in> {1, 2, 8, 10, 11}"
proof -
  obtain q where q: "pc s a = InRecv q" using assms(2) by (cases "pc s a") auto
  have "know_recv (mval s) (top s) q" using ctl_know[OF assms(1), of a] q by simp
  then show ?thesis using assms(3) q by (cases q) (auto simp: word_state)
qed

lemma solo_ends:
  assumes "chan_reach f mb ww s" and "rank (latest s) (pc s a) \<le> n"
  shows "\<exists>t. solo_run f mb ww a n s = Some t \<and> chan_reach f mb ww t \<and> stuck a t
    \<and> (pc s a \<noteq> InRecv RcParked \<longrightarrow> pc t a \<noteq> InRecv RcParked)
    \<and> (recving (pc t a) \<longrightarrow> recving (pc s a) \<and> (latest s \<in> {1, 2, 8, 10, 11} \<longrightarrow> latest t \<in> {1, 2, 8, 10, 11}))"
  using assms
proof (induction n arbitrary: s)
  case 0
  then have "stuck a s" using rank_step[OF reach_facts(1)[OF 0(1)], of a "data s"] by fastforce
  then show ?case using 0 by simp
next
  case (Suc n)
  note I = reach_facts(1)[OF Suc(2)]
  show ?case
  proof (cases "stuck a s")
    case False
    have "seen s a \<le> top s" using I by (simp add: ctl_inv_def seen_inv_def)
    with False obtain t where t: "fire f mb ww (solo_label f a s) s = Some t"
      "pc t a = nxt f (pc s a) (solo_outcome f (latest s) (data s) (instr f (pc s a)))"
      "latest t = solo_word (latest s) (instr f (pc s a))" by (rule solo_fire)
    have r: "chan_reach f mb ww t" by (rule reach_step[OF Suc(2) fire_step[OF t(1)]])
    have "rank (latest t) (pc t a) < rank (latest s) (pc s a)" unfolding t(2,3) by (rule rank_step[OF I False])
    then have "rank (latest t) (pc t a) \<le> n" using Suc(3) by simp
    from Suc.IH[OF r this] obtain u where u: "solo_run f mb ww a n t = Some u" "chan_reach f mb ww u" "stuck a u"
      "pc t a \<noteq> InRecv RcParked \<longrightarrow> pc u a \<noteq> InRecv RcParked"
      "recving (pc u a) \<longrightarrow> recving (pc t a) \<and> (latest t \<in> {1, 2, 8, 10, 11} \<longrightarrow> latest u \<in> {1, 2, 8, 10, 11})" by blast
    have parked: "pc s a \<noteq> InRecv RcParked \<longrightarrow> pc t a \<noteq> InRecv RcParked" unfolding t(2) using nxt_parked by metis
    have rec: "recving (pc t a) \<Longrightarrow> recving (pc s a)" unfolding t(2) by (rule nxt_recving)
    then have dec: "recving (pc t a) \<Longrightarrow> latest s \<in> {1, 2, 8, 10, 11} \<Longrightarrow> latest t \<in> {1, 2, 8, 10, 11}"
      unfolding t(3) by (intro recv_decided[OF I])
    have "solo_run f mb ww a (Suc n) s = Some u" using u(1) t(1) False by simp
    moreover have "recving (pc u a) \<longrightarrow> recving (pc s a) \<and> (latest s \<in> {1, 2, 8, 10, 11} \<longrightarrow> latest u \<in> {1, 2, 8, 10, 11})"
      using u(5) rec dec by blast
    ultimately show ?thesis using u(2,3,4) parked by blast
  qed (use Suc(2) in simp)
qed

text \<open>What remains is a \<^verbatim>\<open>recv\<close> in the waiting state.\<close>

lemma waits_for_4:
  assumes I: "ctl_inv f s" and "waits_for (latest s) (pc s a)" and "pc s a \<noteq> InRecv RcParked"
  shows "pc s a = InRecv (RcWait 4) \<and> latest s = 4"
proof -
  have p: "pc s a = InRecv (RcWait (latest s))" using assms(2,3) by (cases "(latest s, pc s a)" rule: waits_for.cases) auto
  then obtain i where i: "a = Rcv i" using ctl_side(1)[OF I, of a] by auto
  have "latest s \<noteq> 28" using ctl_excl_28[OF I, of i] p i by auto
  moreover have "latest s \<in> {4, 20, 28} \<and> (latest s \<noteq> 4 \<longrightarrow> latest s \<noteq> 20)" using ctl_know[OF I, of a] p by simp
  ultimately show ?thesis using p by auto
qed

section \<open>Stale loads and spurious failures\<close>

text \<open>
  The instructions of one thread, as the memory may answer them. A slip is an answer the ideal run above does not
  give: a load of a message that is not the newest, or an exchange that fails on such a message or though
  the word is the expected one, as \<^verbatim>\<open>compare_exchange_weak\<close> may.
\<close>

fun own_label :: "agent \<Rightarrow> ('v, 'w) label \<Rightarrow> bool" where
  "own_label a (LStep b _) = (b = a)"
| "own_label a (LFail b _) = (b = a)"
| "own_label a (LBlock b) = (b = a)"
| "own_label a _ = False"

fun slips :: "features \<Rightarrow> u32 \<Rightarrow> nat \<Rightarrow> ('v, 'w) insn \<Rightarrow> ('v, 'w) label \<Rightarrow> bool" where
  "slips f w n (ICas op c) (LFail _ k) = (k \<noteq> n \<or> w = c)"
| "slips f w n ILoad (LStep _ k) = (k \<noteq> n)"
| "slips f w n IAcquire (LStep _ k) = (k \<noteq> n)"
| "slips f w n (IWait _) (LStep _ k) = (\<not> f_wait f \<and> k \<noteq> n)"
| "slips f w n _ _ = False"

definition slip :: "features \<Rightarrow> agent \<Rightarrow> ('v, 'w) label \<Rightarrow> ('v, 'w) chan \<Rightarrow> bool" where
  "slip f a l s = slips f (latest s) (top s) (instr f (pc s a)) l"

text \<open>The thread runs until its call is over or waits; the number of slips is counted.\<close>

fun alone_run ::
  "features \<Rightarrow> (u32 \<Rightarrow> u32 \<Rightarrow> bool) \<Rightarrow> ('w \<Rightarrow> 'w \<Rightarrow> bool) \<Rightarrow> agent \<Rightarrow> ('v, 'w) label list \<Rightarrow> ('v, 'w) chan
    \<Rightarrow> (nat \<times> ('v, 'w) chan) option" where
  "alone_run f mb ww a [] s = Some (0, s)"
| "alone_run f mb ww a (l # ls) s =
     (if stuck a s then Some (0, s)
      else Option.bind (fire f mb ww l s) (\<lambda>t.
        map_option (\<lambda>(n, u). (if slip f a l s then Suc n else n, u)) (alone_run f mb ww a ls t)))"

lemma not_slip_solo:
  assumes "fire f mb ww l s = Some t" and "own_label a l" and "\<not> slip f a l s" and "l \<noteq> LBlock a"
  shows "fire f mb ww (solo_label f a s) s = Some t"
  using assms by (cases l; cases "instr f (pc s a)") (auto simp: slip_def solo_label_def split: if_splits)

lemma slip_frame:
  assumes "fire f mb ww l s = Some t" and "own_label a l" and "slip f a l s"
  shows "latest t = latest s" and "\<exists>r. pc t a = nxt f (pc s a) r \<and> r \<noteq> Done"
  using assms by (cases l; cases "instr f (pc s a)";
      force simp: slip_def adv_def goto_def step_simps split: if_splits)+

lemma wait_insn: "instr f p = IWait c \<Longrightarrow> p = InRecv (RcWait c)"
  by (cases p) (auto elim!: send_instr.elims drops_instr.elims recv_instr.elims poll_instr.elims dropr_instr.elims)

lemma no_block:
  assumes "\<And>v e. mb v e \<Longrightarrow> v = e" and "\<not> stuck a s"
  shows "fire f mb ww (LBlock a) s = None"
proof (cases "instr f (pc s a)")
  case (IWait c)
  then have "c \<noteq> latest s" using assms(2) wait_insn[OF IWait] by (auto simp: stuck_def)
  then show ?thesis using assms(1) IWait by auto
qed simp_all

text \<open>One instruction of a thread that is not stuck: the rank falls, or it was a slip.\<close>

lemma alone_step:
  assumes R: "chan_reach f mb ww s" and "\<And>v e. mb v e \<Longrightarrow> v = e" and nst: "\<not> stuck a s"
    and own: "own_label a l" and t: "fire f mb ww l s = Some t"
  shows "chan_reach f mb ww t"
    and "\<not> slip f a l s \<Longrightarrow> rank (latest t) (pc t a) < rank (latest s) (pc s a)"
    and "pc t a \<noteq> InRecv RcParked"
    and "recving (pc t a) \<Longrightarrow> recving (pc s a) \<and> (latest s \<in> {1, 2, 8, 10, 11} \<longrightarrow> latest t \<in> {1, 2, 8, 10, 11})"
proof -
  note I = reach_facts(1)[OF R]
  show "chan_reach f mb ww t" by (rule reach_step[OF R fire_step[OF t]])
  have "l \<noteq> LBlock a" using no_block[of mb a s f ww, OF assms(2) nst] t by auto
  note solo = not_slip_solo[OF t own _ this]
  have "seen s a \<le> top s" using I by (simp add: ctl_inv_def seen_inv_def)
  with nst obtain u where u: "fire f mb ww (solo_label f a s) s = Some u"
    "pc u a = nxt f (pc s a) (solo_outcome f (latest s) (data s) (instr f (pc s a)))"
    "latest u = solo_word (latest s) (instr f (pc s a))" by (rule solo_fire)
  show "\<not> slip f a l s \<Longrightarrow> rank (latest t) (pc t a) < rank (latest s) (pc s a)"
    using solo u rank_step[OF I nst, of "data s"] by simp
  have np: "pc s a \<noteq> InRecv RcParked" using nst by (auto simp: stuck_def)
  obtain r where r: "pc t a = nxt f (pc s a) r"
  proof (cases "slip f a l s")
    case True
    then show ?thesis using slip_frame(2)[OF t own] that by blast
  next
    case False
    then show ?thesis using solo u(1,2) that by simp
  qed
  show "pc t a \<noteq> InRecv RcParked" unfolding r using np nxt_parked by metis
  show "recving (pc t a) \<Longrightarrow> recving (pc s a) \<and> (latest s \<in> {1, 2, 8, 10, 11} \<longrightarrow> latest t \<in> {1, 2, 8, 10, 11})"
  proof
    assume "recving (pc t a)"
    then show rec: "recving (pc s a)" unfolding r by (rule nxt_recving)
    show "latest s \<in> {1, 2, 8, 10, 11} \<longrightarrow> latest t \<in> {1, 2, 8, 10, 11}"
    proof (cases "slip f a l s")
      case True
      then show ?thesis using slip_frame(1)[OF t own] by simp
    next
      case False
      then have "t = u" using solo u(1) by simp
      then show ?thesis using u(3) recv_decided[OF I rec] by metis
    qed
  qed
qed

text \<open>Where a thread is after its run: done, waiting for a value that is not there, or parked from the start.\<close>

definition ended :: "features \<Rightarrow> agent \<Rightarrow> ('v, 'w) chan \<Rightarrow> ('v, 'w) chan \<Rightarrow> bool" where
  "ended f a s t \<longleftrightarrow> at_rest (pc t a)
    \<or> pc t a = InRecv (RcWait 4) \<and> latest t = 4 \<and> \<not> is_ready (latest s) \<and> \<not> is_closed (latest s)
    \<or> t = s \<and> pc s a = InRecv RcParked \<and> (latest s = 4 \<or> instr f (pc s Snd) = IWakeAll)"

lemma stuck_ended:
  assumes "chan_reach f mb ww s" and "chan_reach f mb ww t" and "stuck a t"
    and "pc t a \<noteq> InRecv RcParked"
    and "recving (pc t a) \<longrightarrow> (latest s \<in> {1, 2, 8, 10, 11} \<longrightarrow> latest t \<in> {1, 2, 8, 10, 11})"
  shows "ended f a s t"
proof (cases "at_rest (pc t a)")
  case False
  then have "waits_for (latest t) (pc t a)" using assms(3) by (simp add: stuck_def)
  then have t4: "pc t a = InRecv (RcWait 4)" "latest t = 4"
    using waits_for_4[OF reach_facts(1)[OF assms(2)] _ assms(4)] by auto
  then have "latest s \<notin> {1, 2, 8, 10, 11}" using assms(5) by auto
  then have "\<not> is_ready (latest s) \<and> \<not> is_closed (latest s)"
    using ctl_latest[OF reach_facts(1)[OF assms(1)]] by (elim words_cases) (simp_all add: word_state)
  with t4 show ?thesis by (simp add: ended_def)
qed (simp add: ended_def)

lemma parked_ended:
  assumes "chan_reach f mb ww s" and "\<And>v e. mb v e \<Longrightarrow> v = e" and "pc s a = InRecv RcParked"
  shows "ended f a s s"
  using reach_park[OF assms(1,2)] assms(3) waking_instr unfolding ended_def park_inv_def by blast

lemma alone_run_ends:
  assumes "chan_reach f mb ww s" and "\<And>v e. mb v e \<Longrightarrow> v = e" and "\<forall>l \<in> set ls. own_label a l"
    and "alone_run f mb ww a ls s = Some (n, t)" and "rank (latest s) (pc s a) + 8 * n \<le> length ls"
    and "pc s a \<noteq> InRecv RcParked"
  shows "chan_reach f mb ww t \<and> stuck a t \<and> pc t a \<noteq> InRecv RcParked
    \<and> (recving (pc t a) \<longrightarrow> recving (pc s a) \<and> (latest s \<in> {1, 2, 8, 10, 11} \<longrightarrow> latest t \<in> {1, 2, 8, 10, 11}))"
  using assms(1,3-6)
proof (induction ls arbitrary: s n)
  case Nil
  then have "stuck a s" using rank_step[OF reach_facts(1)[OF Nil(1)], of a "data s"] by fastforce
  with Nil show ?case by auto
next
  case (Cons l ls)
  show ?case
  proof (cases "stuck a s")
    case True
    with Cons.prems show ?thesis by auto
  next
    case False
    then obtain u m where u: "fire f mb ww l s = Some u" "alone_run f mb ww a ls u = Some (m, t)"
      "n = (if slip f a l s then Suc m else m)" using Cons.prems(3) by (auto simp: bind_eq_Some_conv)
    have own: "own_label a l" using Cons.prems(2) by simp
    note st = alone_step[OF Cons.prems(1) assms(2) False own u(1)]
    have "rank (latest u) (pc u a) + 8 * m \<le> length ls"
      using st(2) u(3) Cons.prems(4) rank_le[of "latest u" "pc u a"] by (auto split: if_splits)
    then have "chan_reach f mb ww t \<and> stuck a t \<and> pc t a \<noteq> InRecv RcParked
      \<and> (recving (pc t a) \<longrightarrow> recving (pc u a) \<and> (latest u \<in> {1, 2, 8, 10, 11} \<longrightarrow> latest t \<in> {1, 2, 8, 10, 11}))"
      using Cons.IH[OF st(1) _ u(2)] st(3) Cons.prems(2) by simp
    then show ?thesis using st(4) by blast
  qed
qed

text \<open>
  C7. Progress. Take any reachable state and any thread of it, in any of the five operations, and let only
  that thread run. If every load returns the newest message and no exchange fails spuriously, its call is over within seven
  of its own instructions. In general, with loads that may be stale and exchanges that may fail spuriously, every
  further such answer costs at most eight instructions more: no loop of the channel retries for ever unless the memory
  goes on for ever answering like that. Two cases remain, in which the thread waits for another
  one, as it must: a \<^verbatim>\<open>recv\<close> about to wait while the word says that it waits, and only if no value was ready and
  the channel was not closed; and a thread that was parked already (\<^verbatim>\<open>wait\<close> blocks only on the expected value), for which the word says
  that it waits, or the sender is about to wake it.
\<close>

theorem call_completes:
  assumes "chan_reach f mb ww s" and "\<And>v e. mb v e \<Longrightarrow> v = e"
  shows "(\<exists>t. solo_run f mb ww a 7 s = Some t \<and> ended f a s t)
    \<and> (\<forall>ls n t. (\<forall>l \<in> set ls. own_label a l) \<longrightarrow> alone_run f mb ww a ls s = Some (n, t) \<longrightarrow> 7 + 8 * n \<le> length ls
        \<longrightarrow> ended f a s t)"
proof (cases "pc s a = InRecv RcParked")
  case True
  then have "stuck a s" by (simp add: stuck_def)
  then have "solo_run f mb ww a 7 s = Some s" and "alone_run f mb ww a ls s = Some (0, s)" for ls
    by (simp_all add: numeral_eq_Suc) (cases ls; simp)
  then show ?thesis using parked_ended[OF assms True] by auto
next
  case False
  note rk = rank_le[of "latest s" "pc s a"]
  obtain t where t: "solo_run f mb ww a 7 s = Some t" "chan_reach f mb ww t" "stuck a t" "pc t a \<noteq> InRecv RcParked"
    "recving (pc t a) \<longrightarrow> (latest s \<in> {1, 2, 8, 10, 11} \<longrightarrow> latest t \<in> {1, 2, 8, 10, 11})"
    using solo_ends[OF assms(1) rk] False by metis
  have "ended f a s u"
    if "\<forall>l \<in> set ls. own_label a l" "alone_run f mb ww a ls s = Some (n, u)" "7 + 8 * n \<le> length ls" for ls n u
  proof -
    have "rank (latest s) (pc s a) + 8 * n \<le> length ls" using rk that(3) by simp
    from alone_run_ends[OF assms(1,2) that(1,2) this False] show ?thesis by (intro stuck_ended[OF assms(1)]) auto
  qed
  then show ?thesis using t(1) stuck_ended[OF assms(1) t(2-5)] by blast
qed

text \<open>
  A \<^verbatim>\<open>recv\<close> that starts after a completed \<^verbatim>\<open>send\<close> first reads the word as it was before, and its exchange then fails
  spuriously: two slips, and still it returns.
\<close>

definition sent_run :: "(nat, nat) label list" where
  "sent_run = [LSend 7, LStep Snd 0, LStep Snd 0, LStep Snd 0, LRecv 0]"

definition slow_recv :: "(nat, nat) label list" where
  "slow_recv = [LStep (Rcv 0) 0, LFail (Rcv 0) 1, LFail (Rcv 0) 1, LStep (Rcv 0) 0] @ replicate 19 (LStep (Rcv 0) 0)"

lemma call_completes_witness:
  "\<exists>s t. run all_features (=) (=) sent_run channel = Some s \<and> pc s (Rcv 0) = InRecv RcLoad
     \<and> alone_run all_features (=) (=) (Rcv 0) slow_recv s = Some (2, t) \<and> ended all_features (Rcv 0) s t"
proof -
  have "\<exists>t. Option.bind (run all_features (=) (=) sent_run channel) (alone_run all_features (=) (=) (Rcv 0) slow_recv) = Some (2, t)"
    by (simp add: sent_run_def slow_recv_def all_features_def run_simps slip_def stuck_def numeral_eq_Suc)
      (simp add: cas_op_defs)
  moreover have "\<exists>s. run all_features (=) (=) sent_run channel = Some s \<and> pc s (Rcv 0) = InRecv RcLoad"
    by (simp add: sent_run_def all_features_def run_simps)
  ultimately obtain s t where s: "run all_features (=) (=) sent_run channel = Some s"
      "pc s (Rcv 0) = InRecv RcLoad" "alone_run all_features (=) (=) (Rcv 0) slow_recv s = Some (2, t)"
    by auto
  have "\<forall>l \<in> set slow_recv. own_label (Rcv 0) l" "7 + 8 * 2 \<le> length slow_recv" by (simp_all add: slow_recv_def)
  with call_completes[OF run_channel[OF s(1)], of "Rcv 0"] s(3) have "ended all_features (Rcv 0) s t" by blast
  with s show ?thesis by blast
qed

end
