(* ===== verification/OneshotEnds.thy ===== *)
theory OneshotEnds
  imports OneshotTests OneshotSolo
begin

text \<open>
  No interleaving of a client program gets stuck: from every state that it reaches, it can be run to its end.
\<close>

section \<open>Ending a call\<close>

text \<open>Steps that begin no call.\<close>

definition quiet_step ::
  "features \<Rightarrow> (u32 \<Rightarrow> u32 \<Rightarrow> bool) \<Rightarrow> ('w \<Rightarrow> 'w \<Rightarrow> bool) \<Rightarrow> ('v, 'w) chan \<Rightarrow> ('v, 'w) chan \<Rightarrow> bool" where
  "quiet_step f mb ww s t \<longleftrightarrow> chan_step f mb ww s t \<and> (\<forall>a. pc s a = Idle \<longrightarrow> pc t a = Idle)"

abbreviation quiet_steps ::
  "features \<Rightarrow> (u32 \<Rightarrow> u32 \<Rightarrow> bool) \<Rightarrow> ('w \<Rightarrow> 'w \<Rightarrow> bool) \<Rightarrow> ('v, 'w) chan \<Rightarrow> ('v, 'w) chan \<Rightarrow> bool" where
  "quiet_steps f mb ww \<equiv> (quiet_step f mb ww)\<^sup>*\<^sup>*"

lemma fire_insn_quiet:
  assumes "fire_insn f ww a k i s = Some t" and "pc s b = Idle"
  shows "pc t b = Idle"
proof -
  have "pc (adv f a r m) b = Idle" if "pc m = pc s" for r m
    using assms(2) that by (auto simp: pc_adv nxt_Idle_iff)
  then show ?thesis using assms(1) by (cases i) (auto simp: step_simps unpark_all_def split: if_splits)
qed

text \<open>The labels that continue a call.\<close>

fun inside :: "('v, 'w) label \<Rightarrow> bool" where
  "inside (LStep a k) = True"
| "inside (LFail a k) = True"
| "inside (LBlock a) = True"
| "inside (LReturn a) = True"
| "inside _ = False"

lemma inside_idle:
  assumes "inside l" and "fire f mb ww l s = Some t" and "pc s a = Idle"
  shows "pc t a = Idle"
  using assms
proof (cases l)
  case (LStep b k)
  then show ?thesis using assms fire_insn_quiet by (simp del: fire_insn.simps)
next
  case (LFail b k)
  then show ?thesis using assms by (auto simp: pc_adv nxt_Idle_iff step_simps split: insn.splits if_splits)
next
  case (LBlock b)
  then show ?thesis using assms by (auto simp: goto_def step_simps split: insn.splits if_splits)
next
  case (LReturn b)
  then show ?thesis using assms by (auto simp: goto_def hand_back_def log_ret_def split: pc.splits agent.splits if_splits)
qed simp_all

lemma fire_quiet:
  assumes "fire f mb ww (solo_label f a s) s = Some t"
  shows "quiet_step f mb ww s t"
proof -
  have "pc t b = Idle" if b: "pc s b = Idle" for b
  proof (cases "\<exists>op c. instr f (pc s a) = ICas op c \<and> latest s \<noteq> c")
    case True
    then show ?thesis using assms b by (auto simp: solo_label_def pc_adv nxt_Idle_iff step_simps split: if_splits)
  next
    case False
    then have "solo_label f a s = LStep a (top s)" by (auto simp: solo_label_def split: insn.splits)
    then show ?thesis using assms fire_insn_quiet[OF _ b] by (simp del: fire_insn.simps)
  qed
  then show ?thesis using fire_step[OF assms] by (simp add: quiet_step_def)
qed

lemma solo_quiet: "solo_run f mb ww a n s = Some t \<Longrightarrow> quiet_steps f mb ww s t"
proof (induction n arbitrary: s)
  case (Suc n)
  show ?case
  proof (cases "stuck a s")
    case False
    then obtain u where "fire f mb ww (solo_label f a s) s = Some u" "solo_run f mb ww a n u = Some t"
      using Suc.prems by (auto simp: bind_eq_Some_conv)
    then show ?thesis using Suc.IH fire_quiet by (metis converse_rtranclp_into_rtranclp)
  qed (use Suc.prems in simp)
qed simp

lemma quiet_reach: "quiet_steps f mb ww s t \<Longrightarrow> chan_reach f mb ww s \<Longrightarrow> chan_reach f mb ww t"
  by (induction rule: rtranclp_induct) (auto simp: quiet_step_def intro: reach_step)

text \<open>A thread stays in the call it is in, until its result is logged.\<close>

lemma solo_same:
  assumes "solo_run f mb ww a n s = Some t" and "pc s a \<noteq> Idle" and "\<And>r. pc s a \<noteq> Ret r"
  shows "same_call (pc s a) (pc t a)"
  using assms
proof (induction n arbitrary: s)
  case (Suc n)
  show ?case
  proof (cases "stuck a s")
    case False
    then obtain u where u: "fire f mb ww (solo_label f a s) s = Some u" "solo_run f mb ww a n u = Some t"
      using Suc.prems by (auto simp: bind_eq_Some_conv)
    obtain h where h: "happens a s u h" by (rule step_happens[OF fire_step[OF u(1)]])
    have h1: "same_call (pc s a) (pc u a)" using h Suc.prems(2,3) by (cases h) (auto simp: happens_def)
    show ?thesis
    proof (cases "\<exists>r. pc u a = Ret r")
      case True
      then have "stuck a u" by (auto simp: stuck_def)
      then have "t = u" using u(2) by (cases n) simp_all
      then show ?thesis using h1 by simp
    next
      case False
      then have "same_call (pc u a) (pc t a)" using Suc.IH[OF u(2)] h1 Suc.prems(2) by (auto simp: same_call_def)
      then show ?thesis using h1 by (auto simp: same_call_def)
    qed
  qed (use Suc.prems in simp)
qed simp

text \<open>Alone, a call runs to its return, to the end of its handle, or to \<^verbatim>\<open>wait_ready\<close>.\<close>

lemma solo_call:
  assumes r: "chan_reach f mb ww s" and p: "pc s a \<notin> {Idle, Gone, InRecv RcParked}" "\<And>r. pc s a \<noteq> Ret r"
  obtains t where "quiet_steps f mb ww s t" and "same_call (pc s a) (pc t a)"
    and "(\<exists>r. pc t a = Ret r) \<or> pc t a = Gone \<or> (pc t a = InRecv (RcWait 4) \<and> latest t = 4)"
proof -
  obtain t where t: "solo_run f mb ww a 7 s = Some t" "chan_reach f mb ww t" "stuck a t" "pc t a \<noteq> InRecv RcParked"
    using solo_ends[OF r rank_le[of "latest s" "pc s a"]] p(1) by (elim exE conjE) simp
  have same: "same_call (pc s a) (pc t a)" by (rule solo_same[OF t(1)]) (use p in simp_all)
  then have "pc t a \<noteq> Idle" using p by (simp add: same_call_def)
  then have "at_rest (pc t a) \<Longrightarrow> (\<exists>r. pc t a = Ret r) \<or> pc t a = Gone" by (cases "pc t a") simp_all
  moreover have "waits_for (latest t) (pc t a) \<Longrightarrow> pc t a = InRecv (RcWait 4) \<and> latest t = 4"
    by (rule waits_for_4[OF reach_facts(1)[OF t(2)] _ t(4)])
  ultimately have "(\<exists>r. pc t a = Ret r) \<or> pc t a = Gone \<or> pc t a = InRecv (RcWait 4) \<and> latest t = 4"
    using t(3) unfolding stuck_def by blast
  then show ?thesis using that solo_quiet[OF t(1)] same by blast
qed

lemma leave_ends:
  assumes r: "chan_reach f mb ww s" and l: "leaving (pc s a)"
  shows "\<exists>t. quiet_steps f mb ww s t \<and> pc t a = Gone"
proof (cases "pc s a = Gone")
  case False
  obtain t where t: "quiet_steps f mb ww s t" "same_call (pc s a) (pc t a)"
      "(\<exists>r. pc t a = Ret r) \<or> pc t a = Gone \<or> (pc t a = InRecv (RcWait 4) \<and> latest t = 4)"
    by (rule solo_call[OF r, of a]) (use l False in auto)
  have "leaving (pc t a)" using t(2) l by (simp add: same_call_def)
  then show ?thesis using t(1,3) by auto
qed auto

lemma send_ends:
  assumes r: "chan_reach f mb ww s" and p: "pc s Snd \<noteq> Idle"
  shows "\<exists>t. quiet_steps f mb ww s t \<and> pc t Snd = Gone"
proof -
  have ret: "\<exists>t. quiet_steps f mb ww u t \<and> pc t Snd = Gone" if u: "chan_reach f mb ww u" "pc u Snd = Ret x" for u x
  proof -
    let ?v = "goto Snd (InDropS DsLoad) (log_ret Snd x u)"
    have st: "chan_step f mb ww u ?v" by (rule ret_send[OF u(2)])
    have "quiet_step f mb ww u ?v" using st u(2) by (auto simp: quiet_step_def goto_def log_ret_def)
    moreover have "\<exists>t. quiet_steps f mb ww ?v t \<and> pc t Snd = Gone"
      by (rule leave_ends[OF reach_step[OF u(1) st]]) (simp add: goto_def)
    ultimately show ?thesis by (meson converse_rtranclp_into_rtranclp)
  qed
  have side: "snd_pc (pc s Snd)" using reach_facts(1)[OF r] by (simp add: ctl_inv_def side_inv_def)
  show ?thesis
  proof (cases "leaving (pc s Snd) \<or> (\<exists>x. pc s Snd = Ret x)")
    case True
    then show ?thesis using leave_ends[OF r] ret[OF r] by blast
  next
    case False
    obtain t where t: "quiet_steps f mb ww s t" "same_call (pc s Snd) (pc t Snd)"
        "(\<exists>r. pc t Snd = Ret r) \<or> pc t Snd = Gone \<or> (pc t Snd = InRecv (RcWait 4) \<and> latest t = 4)"
    proof (rule solo_call[OF r, of Snd])
      show "pc s Snd \<notin> {Idle, Gone, InRecv RcParked}" using p False side by auto
      show "pc s Snd \<noteq> Ret x" for x using False by blast
    qed
    have r': "chan_reach f mb ww t" by (rule quiet_reach[OF t(1) r])
    then have "snd_pc (pc t Snd)" using reach_facts(1)[OF r'] by (simp add: ctl_inv_def side_inv_def)
    then consider x where "pc t Snd = Ret x" | "pc t Snd = Gone" using t(3) by auto
    then show ?thesis
    proof cases
      case 1
      then obtain u where "quiet_steps f mb ww t u" "pc u Snd = Gone" using ret[OF r'] by blast
      then show ?thesis using t(1) by (meson rtranclp_trans)
    qed (use t(1) in blast)
  qed
qed


text \<open>A poll ends always, a \<^verbatim>\<open>recv\<close> when the sender is gone.\<close>

lemma receive_returns:
  assumes r: "chan_reach f mb ww s" and p: "pc s (Rcv i) = Ret x"
  shows "\<exists>t. quiet_steps f mb ww s t \<and> pc t (Rcv i) = Idle \<and> pc t Snd = pc s Snd"
proof -
  let ?t = "goto (Rcv i) Idle (hand_back (Rcv i) (log_ret (Rcv i) x s))"
  have "quiet_step f mb ww s ?t" using ret_receiver[OF p] by (auto simp: quiet_step_def goto_def hand_back_def log_ret_def)
  then show ?thesis by (intro exI[of _ ?t]) (auto simp: goto_def hand_back_def log_ret_def)
qed

lemma quiet_gone: "quiet_steps f mb ww s t \<Longrightarrow> pc s Snd = Gone \<Longrightarrow> pc t Snd = Gone"
proof (induction rule: rtranclp_induct)
  case (step t u)
  then obtain h where "happens Snd t u h" using step_happens unfolding quiet_step_def by metis
  then show ?case using step(3,4) by (cases h) (auto simp: happens_def same_call_def)
qed simp

lemma receive_ends:
  assumes r: "chan_reach f mb ww s" and p: "receives (pc s (Rcv i)) \<and> pc s Snd = Gone \<or> polling_call (pc s (Rcv i))"
  shows "\<exists>t. quiet_steps f mb ww s t \<and> pc t (Rcv i) = Idle"
proof -
  have go: "\<exists>t. quiet_steps f mb ww u t \<and> pc t (Rcv i) = Idle"
    if u: "chan_reach f mb ww u" and q: "receives (pc u (Rcv i)) \<and> pc u Snd = Gone \<or> polling_call (pc u (Rcv i))"
      and np: "pc u (Rcv i) \<noteq> InRecv RcParked" for u
  proof (cases "\<exists>x. pc u (Rcv i) = Ret x")
    case True
    then show ?thesis using receive_returns[OF u] by blast
  next
    case False
    have "pc u (Rcv i) \<notin> {Idle, Gone, InRecv RcParked}" using q np by auto
    then obtain t where t: "quiet_steps f mb ww u t" "same_call (pc u (Rcv i)) (pc t (Rcv i))"
        "(\<exists>r. pc t (Rcv i) = Ret r) \<or> pc t (Rcv i) = Gone \<or> (pc t (Rcv i) = InRecv (RcWait 4) \<and> latest t = 4)"
      using False by (elim solo_call[OF u]) auto
    have r': "chan_reach f mb ww t" by (rule quiet_reach[OF t(1) u])
    have "pc t (Rcv i) \<noteq> Gone" using t(2) q by (auto simp: same_call_def)
    moreover have "\<not> (pc t (Rcv i) = InRecv (RcWait 4) \<and> latest t = 4)"
    proof
      assume w: "pc t (Rcv i) = InRecv (RcWait 4) \<and> latest t = 4"
      then have "pc u Snd = Gone" using q t(2) by (auto simp: same_call_def)
      then have "latest t \<in> {10, 11}" using ctl_fin(4)[OF reach_facts(1)[OF r']] quiet_gone[OF t(1)] by blast
      then show False using w by auto
    qed
    ultimately obtain x where "pc t (Rcv i) = Ret x" using t(3) by blast
    then obtain v where "quiet_steps f mb ww t v" "pc v (Rcv i) = Idle" using receive_returns[OF r'] by blast
    then show ?thesis using t(1) by (meson rtranclp_trans)
  qed
  show ?thesis
  proof (cases "pc s (Rcv i) = InRecv RcParked")
    case True
    let ?u = "adv f (Rcv i) Done s"
    have st: "chan_step f mb ww s ?u" by (rule wait_wakeup) (simp add: True)
    then have "quiet_step f mb ww s ?u" by (auto simp: quiet_step_def pc_adv True)
    moreover have "\<exists>t. quiet_steps f mb ww ?u t \<and> pc t (Rcv i) = Idle"
      by (rule go[OF reach_step[OF r st]]) (use p True in \<open>auto simp: pc_adv\<close>)
    ultimately show ?thesis by (meson converse_rtranclp_into_rtranclp)
  qed (use go[OF r p] in blast)
qed

section \<open>Ending a command\<close>

abbreviation client_steps ::
  "features \<Rightarrow> (u32 \<Rightarrow> u32 \<Rightarrow> bool) \<Rightarrow> ('w \<Rightarrow> 'w \<Rightarrow> bool) \<Rightarrow> ('v, 'w) client \<Rightarrow> ('v, 'w) client \<Rightarrow> bool" where
  "client_steps f mb ww \<equiv> (client_step f mb ww)\<^sup>*\<^sup>*"

lemma quiet_client: "quiet_steps f mb ww s t \<Longrightarrow> chn c = s \<Longrightarrow> client_steps f mb ww c (c\<lparr>chn := t\<rparr>)"
proof (induction rule: rtranclp_induct)
  case base
  then show ?case by auto
next
  case (step t u)
  have "client_step f mb ww (c\<lparr>chn := t\<rparr>) ((c\<lparr>chn := t\<rparr>)\<lparr>chn := u\<rparr>)"
    by (rule in_call) (use step(2) in \<open>auto simp: quiet_step_def\<close>)
  then show ?case using step(3,4) by (metis (no_types, lifting) client.update_convs(1) client.surjective rtranclp.rtrancl_into_rtrancl)
qed

lemma steps_reach: "client_steps f mb ww c c' \<Longrightarrow> client_reach f mb ww prog c \<Longrightarrow> client_reach f mb ww prog c'"
  by (induction rule: rtranclp_induct) (auto intro: reach_step)

text \<open>The commands that end when they are begun: \<^verbatim>\<open>recv\<close> needs a sender that is gone.\<close>

lemma busy_ends:
  assumes R: "client_reach f mb ww prog c" and b: "busy c t" "code c t = d # ds" and g: "d = CRecv \<Longrightarrow> pc (chn c) Snd = Gone"
  shows "\<exists>s. client_steps f mb ww c (next_cmd t (c\<lparr>chn := s\<rparr>))"
proof -
  note F = client_facts[OF R]
  have d: "doing c t = Some d" using b by (simp add: doing_def)
  have l: "call_label t d \<noteq> None" using F(2) b by (auto simp: script_inv_def)
  have rx: "rx_ok (pc (chn c) (Rcv t)) (length (res (Rcv t) (rets (chn c)))) (calls c t) (CDropRx \<in> set (past c t)) (Some d)"
    using F(4)[of t] d by (simp add: rx_inv_def)
  have "\<exists>s. quiet_steps f mb ww (chn c) s \<and> finished t d s"
  proof (cases d)
    case (CSend v)
    then show ?thesis using send_ends[OF F(1)] F(3) d by (auto simp: tx_inv_def begun_def)
  next
    case CDropTx
    then show ?thesis using send_ends[OF F(1)] F(3) d by (auto simp: tx_inv_def begun_def)
  next
    case CRecv
    then show ?thesis using receive_ends[OF F(1), of t] rx g by auto
  next
    case (CPoll w)
    then show ?thesis using receive_ends[OF F(1), of t] rx by auto
  next
    case CDropRx
    then show ?thesis using leave_ends[OF F(1), of "Rcv t"] rx by auto
  qed (use l in simp_all)
  then obtain s where s: "quiet_steps f mb ww (chn c) s" "finished t d s" by blast
  have "client_step f mb ww (c\<lparr>chn := s\<rparr>) (next_cmd t (c\<lparr>chn := s\<rparr>))" by (rule end_call) (use b s(2) in simp_all)
  then show ?thesis using quiet_client[OF s(1) refl] by (meson rtranclp.rtrancl_into_rtrancl)
qed


lemma begins:
  assumes "code c t = d # ds" and "\<not> busy c t" and "call_label t d = Some l" and "fire f mb ww l (chn c) = Some s"
  shows "client_step f mb ww c (c\<lparr>chn := s, busy := (busy c)(t := True)\<rparr>)"
  by (rule begin_call[OF assms])

text \<open>What a command needs to end.\<close>

fun can_end :: "features \<Rightarrow> ('v, 'w) client \<Rightarrow> nat \<Rightarrow> ('v, 'w) cmd \<Rightarrow> bool" where
  "can_end f c t (CSend v) \<longleftrightarrow> busy c t \<or> pc (chn c) Snd = Idle"
| "can_end f c t CDropTx \<longleftrightarrow> busy c t \<or> pc (chn c) Snd = Idle"
| "can_end f c t CRecv \<longleftrightarrow> pc (chn c) Snd = Gone
     \<and> (busy c t \<or> f_sync f \<and> may_share (chn c) \<and> pc (chn c) (Rcv t) = Idle)"
| "can_end f c t (CPoll w) \<longleftrightarrow> busy c t \<or> f_async f \<and> may_own (chn c)"
| "can_end f c t CDropRx \<longleftrightarrow> busy c t \<or> may_own (chn c)"
| "can_end f c t (Join u) \<longleftrightarrow> code c u = []"
| "can_end f c t (Assert P) \<longleftrightarrow> P (rets (chn c)) (lost (chn c))"

lemma command_ends:
  assumes R: "client_reach f mb ww prog c" and c: "code c t = d # ds" and e: "can_end f c t d"
  shows "\<exists>c'. client_steps f mb ww c c' \<and> past c' = (past c)(t := past c t @ [d])"
proof (cases "call_label t d")
  case None
  then have "client_step f mb ww c (next_cmd t c)" using c e by (cases d) (auto intro: join check)
  moreover have "past (next_cmd t c) = (past c)(t := past c t @ [d])" using c by (simp add: next_cmd_def)
  ultimately show ?thesis by blast
next
  case (Some l)
  have call: "\<exists>c'. client_steps f mb ww c1 c' \<and> past c' = (past c)(t := past c t @ [d])"
    if r: "client_reach f mb ww prog c1" and b: "busy c1 t" "code c1 = code c" "past c1 = past c"
      and g: "d = CRecv \<Longrightarrow> pc (chn c1) Snd = Gone" for c1
  proof -
    have "code c1 t = d # ds" using b(2) c by simp
    from busy_ends[OF r b(1) this g] obtain s where s: "client_steps f mb ww c1 (next_cmd t (c1\<lparr>chn := s\<rparr>))" by blast
    have "past (next_cmd t (c1\<lparr>chn := s\<rparr>)) = (past c)(t := past c t @ [d])" using b c by (simp add: next_cmd_def)
    then show ?thesis using s by blast
  qed
  show ?thesis
  proof (cases "busy c t")
    case True
    then show ?thesis using call[OF R] e by (cases d) auto
  next
    case False
    obtain s where s: "fire f mb ww l (chn c) = Some s" using e False Some by (cases d) auto
    have st: "client_step f mb ww c (c\<lparr>chn := s, busy := (busy c)(t := True)\<rparr>)" by (rule begins[OF c False Some s])
    have "d = CRecv \<Longrightarrow> pc s Snd = Gone" using call_effect(4)[OF Some s] e by auto
    then have "\<exists>c'. client_steps f mb ww (c\<lparr>chn := s, busy := (busy c)(t := True)\<rparr>) c' \<and> past c' = (past c)(t := past c t @ [d])"
      by (intro call[OF reach_step[OF R st]]) simp_all
    then show ?thesis using st by (meson converse_rtranclp_into_rtranclp)
  qed
qed

section \<open>An order in which the commands can end\<close>

fun is_sender :: "('v, 'w) cmd \<Rightarrow> bool" where
  "is_sender (CSend v) = True"
| "is_sender CDropTx = True"
| "is_sender _ = False"

fun on_receiver :: "('v, 'w) cmd \<Rightarrow> bool" where
  "on_receiver CRecv = True"
| "on_receiver (CPoll w) = True"
| "on_receiver CDropRx = True"
| "on_receiver _ = False"

text \<open>No other thread uses the receiver after \<open>pst\<close>.\<close>

definition others_done :: "('v, 'w) cmd list list \<Rightarrow> ('v, 'w) script \<Rightarrow> nat \<Rightarrow> bool" where
  "others_done css pst t \<longleftrightarrow> list_all (\<lambda>(u, cs). u = t \<or>
     length (filter on_receiver cs) = length (filter on_receiver (pst u)) \<and> CDropRx \<notin> set cs) (enumerate 0 css)"

text \<open>The command \<open>d\<close> of thread \<open>t\<close> can end when the commands \<open>pst\<close> have.\<close>

fun ready :: "features \<Rightarrow> ('v, 'w) cmd list list \<Rightarrow> ('v, 'w) script \<Rightarrow> nat \<Rightarrow> ('v, 'w) cmd \<Rightarrow> bool" where
  "ready f css pst t CRecv \<longleftrightarrow> f_sync f \<and> list_all (\<lambda>cs. list_all (\<lambda>d. \<forall>w. d \<noteq> CPoll w) cs) css
     \<and> list_ex (\<lambda>(u, _). list_ex is_sender (pst u)) (enumerate 0 css)"
| "ready f css pst t (CPoll w) \<longleftrightarrow> f_async f \<and> others_done css pst t"
| "ready f css pst t CDropRx \<longleftrightarrow> others_done css pst t"
| "ready f css pst t (Join u) \<longleftrightarrow> pst u = threads css u"
| "ready f css pst t (Assert P) \<longleftrightarrow> True"
| "ready f css pst t d \<longleftrightarrow> \<not> list_ex is_sender (pst t)
     \<and> list_all (\<lambda>(u, cs). u = t \<or> \<not> list_ex is_sender cs) (enumerate 0 css)"

text \<open>The receiver is dropped last.\<close>

definition drop_last :: "('v, 'w) cmd list list \<Rightarrow> nat \<Rightarrow> ('v, 'w) cmd list \<Rightarrow> ('v, 'w) cmd \<Rightarrow> bool" where
  "drop_last css t xs d \<longleftrightarrow> (on_receiver d \<longrightarrow> CDropRx \<notin> set xs)
     \<and> (d = CDropRx \<longrightarrow> list_all (\<lambda>(u, cs). u = t \<or> \<not> list_ex on_receiver cs \<or> Join u \<in> set xs) (enumerate 0 css))"

fun orderly :: "features \<Rightarrow> ('v, 'w) cmd list list \<Rightarrow> ('v, 'w) script \<Rightarrow> nat list \<Rightarrow> bool" where
  "orderly f css pst [] = list_all (\<lambda>(u, cs). pst u = cs) (enumerate 0 css)"
| "orderly f css pst (t # ts) = (case drop (length (pst t)) (threads css t) of
      [] \<Rightarrow> False
    | d # _ \<Rightarrow> ready f css pst t d \<and> orderly f css (pst(t := pst t @ [d])) ts)"

lemma enum_threads:
  assumes "list_all (\<lambda>(u, cs). Q u cs) (enumerate 0 css)" and "u < length css"
  shows "Q u (threads css u)"
proof -
  have "(u, css ! u) \<in> set (enumerate 0 css)" using assms(2) by (simp add: in_set_enumerate_eq)
  then show ?thesis using assms by (auto simp: list_all_iff threads_def)
qed

lemma in_threads: "d \<in> set (threads css u) \<Longrightarrow> u < length css"
  by (simp add: threads_def split: if_splits)

lemma not_dropped:
  assumes R: "client_reach f mb ww (threads css) c" and L: "each (drop_last css) css"
    and c: "code c t = d # ds" and d: "on_receiver d" and nb: "\<not> busy c t"
  shows "\<not> begun c j CDropRx"
proof
  note F = client_facts[OF R]
  have sp: "threads css t = past c t @ d # ds" using script_split[OF F(2), of t] c by simp
  assume b: "begun c j CDropRx"
  show False
  proof (cases "j = t")
    case True
    then have "CDropRx \<in> set (past c t)" using b nb by (simp add: begun_def doing_def)
    then show ?thesis using each_at[OF L sp] d by (simp add: drop_last_def)
  next
    case False
    obtain xs ys zs where x: "threads css j = xs @ CDropRx # ys" "past c j = xs @ zs" by (rule begun_split[OF F(2) b])
    have "d \<in> set (threads css t)" using sp by simp
    then have "t < length css" "list_ex on_receiver (threads css t)" using d by (auto simp: list_ex_iff dest: in_threads)
    moreover have "list_all (\<lambda>(u, cs). u = j \<or> \<not> list_ex on_receiver cs \<or> Join u \<in> set xs) (enumerate 0 css)"
      using each_at[OF L x(1)] by (simp add: drop_last_def)
    ultimately have "Join t \<in> set xs" using enum_threads[of "\<lambda>u cs. u = j \<or> \<not> list_ex on_receiver cs \<or> Join u \<in> set xs" css t] False by auto
    then have "Join t \<in> set (past c j)" using x(2) by simp
    then show ?thesis using F(2) c unfolding script_inv_def by fastforce
  qed
qed


lemma idle_rx:
  assumes "rx_inv c j" and "CDropRx \<notin> set (past c j)" and "\<And>e. doing c j = Some e \<Longrightarrow> \<not> on_receiver e"
  shows "pc (chn c) (Rcv j) = Idle"
  using assms unfolding rx_inv_def
  by (cases "(pc (chn c) (Rcv j), length (res (Rcv j) (rets (chn c))), calls c j, CDropRx \<in> set (past c j), doing c j)"
      rule: rx_ok.cases) (auto split: if_splits)

lemma others_idle:
  assumes R: "client_reach f mb ww (threads css) c" and L: "each (drop_last css) css"
    and c: "code c t = d # ds" and d: "on_receiver d" and nb: "\<not> busy c t"
    and o: "others_done css pst t" and pre: "\<And>u. \<exists>zs. past c u = pst u @ zs"
  shows "may_own (chn c)"
  unfolding may_own_def
proof
  fix j
  note F = client_facts[OF R]
  have nd: "\<not> begun c j CDropRx" by (rule not_dropped[OF R L c d nb])
  show "pc (chn c) (Rcv j) = Idle"
  proof (rule idle_rx[OF F(4)])
    show "CDropRx \<notin> set (past c j)" using nd by (simp add: begun_def)
    fix e assume e: "doing c j = Some e"
    then have bj: "busy c j" "hd (code c j) = e" by (auto simp: doing_def split: if_splits)
    then have jt: "j \<noteq> t" using nb by auto
    obtain zs where z: "past c j = pst j @ zs" using pre by blast
    obtain es where "code c j = e # es" using F(2) bj by (cases "code c j") (auto simp: script_inv_def)
    then have sp: "threads css j = pst j @ zs @ e # es" using script_split[OF F(2), of j] z by simp
    then have "j < length css" by (intro in_threads[of e]) simp
    then have "length (filter on_receiver (threads css j)) = length (filter on_receiver (pst j))"
      using o enum_threads[of "\<lambda>u cs. u = t \<or> length (filter on_receiver cs) = length (filter on_receiver (pst u)) \<and> CDropRx \<notin> set cs"] jt
      unfolding others_done_def by blast
    then show "\<not> on_receiver e" using sp by auto
  qed
qed

lemma sender_idle:
  assumes R: "client_reach f mb ww (threads css) c" and c: "code c t = d # ds" and s: "is_sender d" and nb: "\<not> busy c t"
    and o: "\<not> list_ex is_sender (past c t)" "list_all (\<lambda>(u, cs). u = t \<or> \<not> list_ex is_sender cs) (enumerate 0 css)"
  shows "pc (chn c) Snd = Idle"
proof (rule ccontr)
  note F = client_facts[OF R]
  assume "pc (chn c) Snd \<noteq> Idle"
  then obtain u e where e: "begun c u e" "is_sender e" using F(3) unfolding tx_inv_def by (metis is_sender.simps(1,2) option.exhaust)
  have "u \<noteq> t" using e o(1) nb by (auto simp: begun_def doing_def list_ex_iff)
  moreover have "e \<in> set (threads css u)" by (rule begun_in[OF F(2) e(1)])
  then have "u < length css" "list_ex is_sender (threads css u)" using e(2) by (auto simp: list_ex_iff dest: in_threads)
  ultimately show False using enum_threads[OF o(2)] by blast
qed

lemma receives_shared: "receives p \<Longrightarrow> \<not> excl p"
  by (cases p) auto

lemma shared_rx:
  assumes "rx_ok p m n False d" and "d \<noteq> Some CDropRx" and "\<And>w. d \<noteq> Some (CPoll w)"
  shows "\<not> excl p"
  using assms receives_shared[of p] by (cases "(p, m, n, False, d)" rule: rx_ok.cases) auto

lemma ready_ends:
  fixes c :: "('v, 'w) client"
  assumes R: "client_reach f mb ww (threads css) c" and P: "passes f mb ww (threads css)" and L: "each (drop_last css) css"
    and c: "code c t = d # ds" and pre: "\<And>u. \<exists>zs. past c u = pst u @ zs" and p: "past c t = pst t" and r: "ready f css pst t d"
  shows "can_end f c t d"
proof -
  note F = client_facts[OF R]
  have dropped: "\<not> begun c j CDropRx" if "on_receiver d" "\<not> busy c t" for j by (rule not_dropped[OF R L c that])
  have owned: "may_own (chn c)" if "on_receiver d" "\<not> busy c t" "others_done css pst t"
    by (rule others_idle[OF R L c that(1,2,3) pre])
  show ?thesis
  proof (cases d)
    case (CSend v)
    then show ?thesis using sender_idle[OF R c _ _] r p by auto
  next
    case CDropTx
    then show ?thesis using sender_idle[OF R c _ _] r p by auto
  next
    case CRecv
    then obtain u cs where u: "(u, cs) \<in> set (enumerate 0 css)" "list_ex is_sender (pst u)" using r by (auto simp: list_ex_iff)
    then obtain e where "e \<in> set (pst u)" "is_sender e" by (auto simp: list_ex_iff)
    then have m: "e \<in> set (past c u)" and i: "is_sender e" using pre[of u] by auto
    have "(\<exists>v. e = CSend v) \<or> e = CDropTx" using i by (cases e) simp_all
    then have g: "pc (chn c) Snd = Gone" using F(3) m unfolding tx_inv_def by blast
    have "pc (chn c) (Rcv t) = Idle \<and> may_share (chn c)" if nb: "\<not> busy c t"
    proof
      have nd: "\<not> begun c j CDropRx" for j using dropped nb CRecv by simp
      show "pc (chn c) (Rcv t) = Idle"
        by (rule idle_rx[OF F(4)]) (use nd nb in \<open>auto simp: begun_def doing_def\<close>)
      have np: "\<not> begun c j (CPoll w)" for j w
      proof
        assume "begun c j (CPoll w)"
        then have m: "CPoll w \<in> set (threads css j)" by (rule begun_in[OF F(2)])
        then have "threads css j \<in> set css" using in_threads[OF m] by (simp add: threads_def)
        then show False using r CRecv m by (fastforce simp: list_all_iff)
      qed
      show "may_share (chn c)" unfolding may_share_def
      proof
        fix j
        have d: "doing c j \<noteq> Some CDropRx" "CDropRx \<notin> set (past c j)" "doing c j \<noteq> Some (CPoll w)" for w
          using nd np by (auto simp: begun_def)
        show "\<not> excl (pc (chn c) (Rcv j))"
          by (rule shared_rx[OF _ d(1,3)]) (use F(4)[of j] d(2) in \<open>simp add: rx_inv_def\<close>)
      qed
    qed
    then show ?thesis using g r CRecv by auto
  next
    case (CPoll w)
    then show ?thesis using owned r by auto
  next
    case CDropRx
    then show ?thesis using owned r by auto
  next
    case (Join u)
    obtain zs where "past c u = threads css u @ zs" using pre[of u] r Join by auto
    then show ?thesis using script_split[OF F(2), of u] Join by simp
  next
    case (Assert Q)
    then show ?thesis using P R c unfolding passes_def by auto
  qed
qed

lemma orderly_ends:
  fixes c :: "('v, 'w) client"
  assumes P: "passes f mb ww (threads css)" and L: "each (drop_last css) css"
    and "client_reach f mb ww (threads css) c" and "\<And>u. \<exists>zs. past c u = pst u @ zs" and "orderly f css pst ts"
  shows "\<exists>c'. client_steps f mb ww c c' \<and> (\<forall>u. code c' u = [])"
  using assms(3-)
proof (induction ts arbitrary: c pst)
  case Nil
  note F = client_facts[OF Nil(1)]
  have "code c u = []" for u
  proof (cases "u < length css")
    case True
    then have "pst u = threads css u" using Nil(3) enum_threads[of "\<lambda>u cs. pst u = cs" css u] by simp
    then show ?thesis using script_split[OF F(2), of u] Nil(2)[of u] by auto
  next
    case False
    then show ?thesis using script_split[OF F(2), of u] by (simp add: threads_def)
  qed
  then show ?case by blast
next
  case (Cons t ts)
  note F = client_facts[OF Cons(2)]
  obtain zs where z: "past c t = pst t @ zs" using Cons(3) by blast
  have sp: "drop (length (pst t)) (threads css t) = zs @ code c t" using script_split[OF F(2), of t] z by simp
  then obtain d ds where d: "zs @ code c t = d # ds" "ready f css pst t d" "orderly f css (pst(t := pst t @ [d])) ts"
    using Cons(4) by (auto split: list.splits)
  show ?case
  proof (cases zs)
    case (Cons e zs')
    then have "\<exists>ys. past c u = (pst(t := pst t @ [d])) u @ ys" for u using Cons.prems(2)[of u] z d(1) by auto
    then show ?thesis using Cons.IH[OF Cons.prems(1) _ d(3)] by blast
  next
    case Nil
    then have c: "code c t = d # ds" "past c t = pst t" using d(1) z by simp_all
    have "can_end f c t d" by (rule ready_ends[OF Cons.prems(1) P L c(1) Cons.prems(2) c(2) d(2)])
    then obtain c' where c': "client_steps f mb ww c c'" "past c' = (past c)(t := past c t @ [d])"
      using command_ends[OF Cons.prems(1) c(1)] by blast
    have "\<exists>ys. past c' u = (pst(t := pst t @ [d])) u @ ys" for u using Cons.prems(2)[of u] c'(2) c(2) by auto
    from Cons.IH[OF steps_reach[OF c'(1) Cons.prems(1)] this d(3)] show ?thesis
      using c'(1) by (meson rtranclp_trans)
  qed
qed


section \<open>The tests end\<close>

definition ends ::
  "features \<Rightarrow> (u32 \<Rightarrow> u32 \<Rightarrow> bool) \<Rightarrow> ('w \<Rightarrow> 'w \<Rightarrow> bool) \<Rightarrow> ('v, 'w) script \<Rightarrow> bool" where
  "ends f mb ww prog \<longleftrightarrow>
     (\<forall>c. client_reach f mb ww prog c \<longrightarrow> (\<exists>c'. client_steps f mb ww c c' \<and> (\<forall>t. code c' t = [])))"

lemma tests_end:
  assumes "passes f mb ww (threads css)" and "each (drop_last css) css" and "orderly f css (\<lambda>_. []) ts"
  shows "ends f mb ww (threads css)"
  unfolding ends_def using orderly_ends[OF assms(1,2) _ _ assms(3)] by auto

lemmas order_simps = each_def drop_last_def others_done_def threads_def

end
