(* ===== verification/OneshotSuite.thy ===== *)
theory OneshotSuite
  imports OneshotEnds
begin

text \<open>
  The test suites of the channel as a whole: the unit tests of \<^verbatim>\<open>conlock/src/oneshot.rs\<close> and the model tests of
  \<^verbatim>\<open>conlock/tests/loom_oneshot.rs\<close>; four of the latter expect what nothing in them enforces.
\<close>

section \<open>The model tests\<close>

text \<open>
  The tests that differ only in the type or the number that is sent, or that repeat a test in a loop, are
  one program over the value \<open>v\<close>. The counter of the drop tests counts the values that a thread has received
  (and dropped before it ended), that the channel dropped unread, and that \<^verbatim>\<open>send\<close> gave back.
\<close>

abbreviation dropped_once :: "('v, 'w) cmd" where
  "dropped_once \<equiv> Assert (\<lambda>log l. length (delivered log) + length l = 1)"

abbreviation is_some :: "nat \<Rightarrow> ('v, 'w) cmd" where
  "is_some t \<equiv> Assert (\<lambda>log _. \<exists>v. res (Rcv t) log = [RecvRet (Some v)])"

abbreviation is_err :: "('v, 'w) cmd" where
  "is_err \<equiv> Assert (\<lambda>log _. \<exists>x. res Snd log = [SendErr x])"

definition loom_basic_send_recv :: "'v \<Rightarrow> ('v, 'w) cmd list list" where
  "loom_basic_send_recv v = [[CRecv, got 0 [Some v], Join 1, CDropRx], [CSend v, sent_ok]]"

definition loom_send_recv_drop_sequence :: "'v \<Rightarrow> ('v, 'w) cmd list list" where
  "loom_send_recv_drop_sequence v = [[Join 1, Join 2], [CSend v, sent_ok], [CRecv, got 2 [Some v], CDropRx]]"

definition loom_repeated_recv_attempts :: "'v \<Rightarrow> ('v, 'w) cmd list list" where
  "loom_repeated_recv_attempts v =
     [[CRecv, got 0 [Some v], CRecv, got 0 [Some v, None], CRecv, got 0 [Some v, None, None], Join 1, CDropRx],
      [CSend v, sent_ok]]"

definition loom_value_dropped_after_recv :: "'v \<Rightarrow> ('v, 'w) cmd list list" where
  "loom_value_dropped_after_recv v = [[CRecv, is_some 0, Join 1, dropped_once, CDropRx], [CSend v, sent_ok]]"

definition loom_no_double_drop :: "'v \<Rightarrow> ('v, 'w) cmd list list" where
  "loom_no_double_drop v = [[Join 1, Join 2, is_some 2, dropped_once], [CSend v, sent_ok], [CRecv, CDropRx]]"

definition loom_both_drop :: "('v, 'w) cmd list list" where
  "loom_both_drop = [[Join 1, Join 2], [CDropTx], [CDropRx]]"

definition loom_sender_drop_before_recv :: "('v, 'w) cmd list list" where
  "loom_sender_drop_before_recv = [[Join 1, CRecv, got 0 [None], CDropRx], [CDropTx]]"

definition loom_recv_after_sender_drop :: "('v, 'w) cmd list list" where
  "loom_recv_after_sender_drop = [[CRecv, got 0 [None], Join 1, CDropRx], [CDropTx]]"

definition loom_race_send_drop_vs_recv :: "('v, 'w) cmd list list" where
  "loom_race_send_drop_vs_recv = [[Join 1, Join 2, got 2 [None]], [CDropTx], [CRecv, CDropRx]]"

definition loom_receiver_drop_before_send :: "'v \<Rightarrow> ('v, 'w) cmd list list" where
  "loom_receiver_drop_before_send v = [[Join 1, CSend v, is_err], [CDropRx]]"

definition loom_race_recv_drop_vs_send :: "'v \<Rightarrow> ('v, 'w) cmd list list" where
  "loom_race_recv_drop_vs_send v = [[Join 1, Join 2, is_err], [CDropRx], [Join 1, CSend v]]"

text \<open>
  Four more. Other tests of the file are one of these programs with another payload, or several in a row:
  \<^verbatim>\<open>loom_rapid_send_recv\<close>, \<^verbatim>\<open>loom_allocation_cleanup\<close>, \<^verbatim>\<open>loom_zst_channel\<close> and \<^verbatim>\<open>loom_unit_channel\<close> are \<open>loom_basic_send_recv\<close>;
  \<^verbatim>\<open>loom_stress_basic_operations\<close> and \<^verbatim>\<open>loom_drop_recreate_pattern\<close> are \<open>loom_recv_before_send\<close>; \<^verbatim>\<open>loom_drop_side_effects\<close>
  and \<^verbatim>\<open>loom_no_resource_leak\<close> are \<open>loom_concurrent_cleanup\<close>.
\<close>

definition loom_recv_before_send :: "'v \<Rightarrow> ('v, 'w) cmd list list" where
  "loom_recv_before_send v = [[Join 1, got 1 [Some v], Join 2], [CRecv, CDropRx], [CSend v, sent_ok]]"

definition loom_double_recv :: "'v \<Rightarrow> ('v, 'w) cmd list list" where
  "loom_double_recv v = [[CRecv, CRecv, got 0 [Some v, None], Join 1, CDropRx], [CSend v, sent_ok]]"

definition loom_multiple_recv_consistency :: "'v \<Rightarrow> ('v, 'w) cmd list list" where
  "loom_multiple_recv_consistency v =
     [[CRecv, got 0 [Some v], CRecv, got 0 [Some v, None], CRecv, got 0 [Some v, None, None],
       CRecv, got 0 [Some v, None, None, None], Join 1, CDropRx],
      [CSend v, sent_ok]]"

definition loom_concurrent_cleanup :: "'v \<Rightarrow> ('v, 'w) cmd list list" where
  "loom_concurrent_cleanup v = [[Join 1, Join 2, dropped_once], [CSend v, sent_ok], [CRecv, CDropRx]]"

section \<open>They pass\<close>

lemma loom_single:
  "passes f mb ww (threads (loom_basic_send_recv v))" "passes f mb ww (threads (loom_send_recv_drop_sequence v))"
  "passes f mb ww (threads (loom_repeated_recv_attempts v))" "passes f mb ww (threads (loom_value_dropped_after_recv v))"
  "passes f mb ww (threads (loom_no_double_drop v))" "passes f mb ww (threads (loom_recv_before_send v))"
  "passes f mb ww (threads (loom_double_recv v))" "passes f mb ww (threads (loom_multiple_recv_consistency v))"
  "passes f mb ww (threads (loom_concurrent_cleanup v))"
  by (rule single_tests[where k = 0 and v = v], simp add: loom_basic_send_recv_def each_simps knows_simps,
      rule single_tests[where k = 2 and v = v], simp add: loom_send_recv_drop_sequence_def each_simps knows_simps,
      rule single_tests[where k = 0 and v = v], simp add: loom_repeated_recv_attempts_def each_simps knows_simps numeral_2_eq_2,
      rule single_tests[where k = 0 and v = v], simp add: loom_value_dropped_after_recv_def each_simps knows_simps,
      rule single_tests[where k = 2 and v = v], simp add: loom_no_double_drop_def each_simps knows_simps,
      rule single_tests[where k = 1 and v = v], simp add: loom_recv_before_send_def each_simps knows_simps,
      rule single_tests[where k = 0 and v = v], simp add: loom_double_recv_def each_simps knows_simps numeral_2_eq_2,
      rule single_tests[where k = 0 and v = v],
      simp add: loom_multiple_recv_consistency_def each_simps knows_simps numeral_2_eq_2 numeral_3_eq_3,
      rule single_tests[where k = 2 and v = v], simp add: loom_concurrent_cleanup_def each_simps knows_simps)

lemma loom_unsent:
  "passes f mb ww (threads loom_both_drop)" "passes f mb ww (threads loom_sender_drop_before_recv)"
  "passes f mb ww (threads loom_recv_after_sender_drop)" "passes f mb ww (threads loom_race_send_drop_vs_recv)"
  by (rule unsent_tests, simp add: loom_both_drop_def each_simps,
      rule unsent_tests, auto simp: loom_sender_drop_before_recv_def each_simps knows_simps split: if_splits,
      rule unsent_tests, auto simp: loom_recv_after_sender_drop_def each_simps knows_simps split: if_splits,
      rule unsent_tests, auto simp: loom_race_send_drop_vs_recv_def each_simps knows_simps split: if_splits)

lemma loom_refused:
  "passes f mb ww (threads (loom_receiver_drop_before_send v))" "passes f mb ww (threads (loom_race_recv_drop_vs_send v))"
  by (rule refused_tests, auto simp: loom_receiver_drop_before_send_def each_simps,
      rule refused_tests, auto simp: loom_race_recv_drop_vs_send_def each_simps dest: spec[of _ 2])


section \<open>They end\<close>

lemmas unit_tests = test_oneshot_basic_def test_oneshot_send_then_recv_def test_oneshot_recv_before_send_def
  test_oneshot_duplicate_recv_def test_oneshot_sender_dropped_def test_oneshot_receiver_dropped_before_send_def
  test_oneshot_receiver_dropped_after_send_def test_oneshot_multiple_threads_recv_def
  test_oneshot_multiple_threads_arc_recv_def test_oneshot_async_poll_def one_of_two_def order_simps

lemma basic_ends: "f_sync f \<Longrightarrow> ends f mb ww (threads test_oneshot_basic)"
  by (rule tests_end[OF basic_passes, where ts = "[1, 1, 0, 0, 0]"]) (simp_all add: unit_tests)

lemma send_then_recv_ends: "f_sync f \<Longrightarrow> ends f mb ww (threads test_oneshot_send_then_recv)"
  by (rule tests_end[OF send_then_recv_passes, where ts = "[0, 0, 0, 0, 0]"]) (simp_all add: unit_tests)

lemma recv_before_send_ends: "f_sync f \<Longrightarrow> ends f mb ww (threads test_oneshot_recv_before_send)"
  by (rule tests_end[OF recv_before_send_passes, where ts = "[1, 1, 0, 0, 0]"]) (simp_all add: unit_tests)

lemma duplicate_recv_ends: "f_sync f \<Longrightarrow> ends f mb ww (threads test_oneshot_duplicate_recv)"
  by (rule tests_end[OF duplicate_recv_passes, where ts = "[0, 0, 0, 0, 0, 0, 0]"]) (simp_all add: unit_tests)

lemma sender_dropped_ends: "f_sync f \<Longrightarrow> ends f mb ww (threads test_oneshot_sender_dropped)"
  by (rule tests_end[OF sender_dropped_passes, where ts = "[0, 0, 0, 0]"]) (simp_all add: unit_tests)

lemma receiver_dropped_before_send_ends: "f_sync f \<Longrightarrow> ends f mb ww (threads test_oneshot_receiver_dropped_before_send)"
  by (rule tests_end[OF receiver_dropped_before_send_passes, where ts = "[0, 0, 0]"]) (simp_all add: unit_tests)

lemma receiver_dropped_after_send_ends: "f_sync f \<Longrightarrow> ends f mb ww (threads test_oneshot_receiver_dropped_after_send)"
  by (rule tests_end[OF receiver_dropped_after_send_passes, where ts = "[0, 0, 0]"]) (simp_all add: unit_tests)

lemma multiple_threads_recv_ends: "f_sync f \<Longrightarrow> ends f mb ww (threads test_oneshot_multiple_threads_recv)"
  by (rule tests_end[OF multiple_threads_recv_passes, where ts = "[1, 1, 2, 3, 0, 0, 0, 0]"]) (simp_all add: unit_tests)

lemma multiple_threads_arc_recv_ends: "f_sync f \<Longrightarrow> ends f mb ww (threads test_oneshot_multiple_threads_arc_recv)"
  by (rule tests_end[OF multiple_threads_arc_recv_passes, where ts = "[3, 3, 1, 2, 0, 0, 0, 0]"]) (simp_all add: unit_tests)

lemma async_poll_ends: "f_async f \<Longrightarrow> ends f mb ww (threads (test_oneshot_async_poll w))"
  by (rule tests_end[OF async_poll_passes, where ts = "[0, 0, 0, 0, 0, 0, 0, 0, 0, 0, 0]"]) (simp_all add: unit_tests)

lemmas loom_tests = loom_basic_send_recv_def loom_send_recv_drop_sequence_def loom_repeated_recv_attempts_def loom_value_dropped_after_recv_def loom_no_double_drop_def loom_both_drop_def loom_sender_drop_before_recv_def loom_recv_after_sender_drop_def loom_race_send_drop_vs_recv_def loom_receiver_drop_before_send_def loom_race_recv_drop_vs_send_def
  loom_recv_before_send_def loom_double_recv_def loom_multiple_recv_consistency_def loom_concurrent_cleanup_def order_simps

lemma loom_basic_send_recv_ends: "f_sync f \<Longrightarrow> ends f mb ww (threads (loom_basic_send_recv v))"
  by (rule tests_end[OF loom_single(1), where ts = "[1, 1, 0, 0, 0, 0]"]) (simp_all add: loom_tests)

lemma loom_send_recv_drop_sequence_ends: "f_sync f \<Longrightarrow> ends f mb ww (threads (loom_send_recv_drop_sequence v))"
  by (rule tests_end[OF loom_single(2), where ts = "[1, 1, 2, 2, 2, 0, 0]"]) (simp_all add: loom_tests)

lemma loom_repeated_recv_attempts_ends: "f_sync f \<Longrightarrow> ends f mb ww (threads (loom_repeated_recv_attempts v))"
  by (rule tests_end[OF loom_single(3), where ts = "[1, 1, 0, 0, 0, 0, 0, 0, 0, 0]"]) (simp_all add: loom_tests)

lemma loom_value_dropped_after_recv_ends: "f_sync f \<Longrightarrow> ends f mb ww (threads (loom_value_dropped_after_recv v))"
  by (rule tests_end[OF loom_single(4), where ts = "[1, 1, 0, 0, 0, 0, 0]"]) (simp_all add: loom_tests)

lemma loom_no_double_drop_ends: "f_sync f \<Longrightarrow> ends f mb ww (threads (loom_no_double_drop v))"
  by (rule tests_end[OF loom_single(5), where ts = "[1, 1, 2, 2, 0, 0, 0, 0]"]) (simp_all add: loom_tests)

lemma loom_both_drop_ends: "f_sync f \<Longrightarrow> ends f mb ww (threads (loom_both_drop))"
  by (rule tests_end[OF loom_unsent(1), where ts = "[1, 2, 0, 0]"]) (simp_all add: loom_tests)

lemma loom_sender_drop_before_recv_ends: "f_sync f \<Longrightarrow> ends f mb ww (threads (loom_sender_drop_before_recv))"
  by (rule tests_end[OF loom_unsent(2), where ts = "[1, 0, 0, 0, 0]"]) (simp_all add: loom_tests)

lemma loom_recv_after_sender_drop_ends: "f_sync f \<Longrightarrow> ends f mb ww (threads (loom_recv_after_sender_drop))"
  by (rule tests_end[OF loom_unsent(3), where ts = "[1, 0, 0, 0, 0]"]) (simp_all add: loom_tests)

lemma loom_race_send_drop_vs_recv_ends: "f_sync f \<Longrightarrow> ends f mb ww (threads (loom_race_send_drop_vs_recv))"
  by (rule tests_end[OF loom_unsent(4), where ts = "[1, 2, 2, 0, 0, 0]"]) (simp_all add: loom_tests)

lemma loom_receiver_drop_before_send_ends: "f_sync f \<Longrightarrow> ends f mb ww (threads (loom_receiver_drop_before_send v))"
  by (rule tests_end[OF loom_refused(1), where ts = "[1, 0, 0, 0]"]) (simp_all add: loom_tests)

lemma loom_race_recv_drop_vs_send_ends: "f_sync f \<Longrightarrow> ends f mb ww (threads (loom_race_recv_drop_vs_send v))"
  by (rule tests_end[OF loom_refused(2), where ts = "[1, 2, 2, 0, 0, 0]"]) (simp_all add: loom_tests)

lemma loom_recv_before_send_ends: "f_sync f \<Longrightarrow> ends f mb ww (threads (loom_recv_before_send v))"
  by (rule tests_end[OF loom_single(6), where ts = "[2, 2, 1, 1, 0, 0, 0]"]) (simp_all add: loom_tests)

lemma loom_double_recv_ends: "f_sync f \<Longrightarrow> ends f mb ww (threads (loom_double_recv v))"
  by (rule tests_end[OF loom_single(7), where ts = "[1, 1, 0, 0, 0, 0, 0]"]) (simp_all add: loom_tests)

lemma loom_multiple_recv_consistency_ends: "f_sync f \<Longrightarrow> ends f mb ww (threads (loom_multiple_recv_consistency v))"
  by (rule tests_end[OF loom_single(8), where ts = "[1, 1, 0, 0, 0, 0, 0, 0, 0, 0, 0, 0]"]) (simp_all add: loom_tests)

lemma loom_concurrent_cleanup_ends: "f_sync f \<Longrightarrow> ends f mb ww (threads (loom_concurrent_cleanup v))"
  by (rule tests_end[OF loom_single(9), where ts = "[1, 1, 2, 2, 0, 0, 0]"]) (simp_all add: loom_tests)

lemmas unit_passes = basic_passes send_then_recv_passes recv_before_send_passes duplicate_recv_passes sender_dropped_passes
  receiver_dropped_before_send_passes receiver_dropped_after_send_passes multiple_threads_recv_passes
  multiple_threads_arc_recv_passes async_poll_passes

lemmas unit_ends = basic_ends send_then_recv_ends recv_before_send_ends duplicate_recv_ends sender_dropped_ends
  receiver_dropped_before_send_ends receiver_dropped_after_send_ends multiple_threads_recv_ends
  multiple_threads_arc_recv_ends async_poll_ends

lemmas loom_passes = loom_single loom_unsent loom_refused

lemmas loom_ends = loom_basic_send_recv_ends loom_send_recv_drop_sequence_ends loom_repeated_recv_attempts_ends
  loom_value_dropped_after_recv_ends loom_no_double_drop_ends loom_both_drop_ends loom_sender_drop_before_recv_ends
  loom_recv_after_sender_drop_ends loom_race_send_drop_vs_recv_ends loom_receiver_drop_before_send_ends
  loom_race_recv_drop_vs_send_ends loom_recv_before_send_ends loom_double_recv_ends
  loom_multiple_recv_consistency_ends loom_concurrent_cleanup_ends

section \<open>Programs run by a scheduler\<close>

text \<open>\<open>Call t\<close> begins the next call of thread \<open>t\<close>, \<open>Inside l\<close> runs one instruction, \<open>Next t\<close> goes on after a command.\<close>

datatype ('v, 'w) move = Call nat | Inside "('v, 'w) label" | Next nat

fun passed :: "('v, 'w) client \<Rightarrow> nat \<Rightarrow> ('v, 'w) cmd \<Rightarrow> bool" where
  "passed c t (Join u) = (code c u = [])"
| "passed c t (Assert P) = P (rets (chn c)) (lost (chn c))"
| "passed c t d = (busy c t \<and> finished t d (chn c))"

fun make_move ::
  "features \<Rightarrow> (u32 \<Rightarrow> u32 \<Rightarrow> bool) \<Rightarrow> ('w \<Rightarrow> 'w \<Rightarrow> bool) \<Rightarrow> ('v, 'w) move \<Rightarrow> ('v, 'w) client \<Rightarrow> ('v, 'w) client option" where
  "make_move f mb ww (Call t) c = (case code c t of
      [] \<Rightarrow> None
    | d # _ \<Rightarrow> if busy c t then None else (case call_label t d of
          None \<Rightarrow> None
        | Some l \<Rightarrow> map_option (\<lambda>s. c\<lparr>chn := s, busy := (busy c)(t := True)\<rparr>) (fire f mb ww l (chn c))))"
| "make_move f mb ww (Inside l) c =
     (if inside l then map_option (\<lambda>s. c\<lparr>chn := s\<rparr>) (fire f mb ww l (chn c)) else None)"
| "make_move f mb ww (Next t) c = (case code c t of
      [] \<Rightarrow> None
    | d # _ \<Rightarrow> if passed c t d then Some (next_cmd t c) else None)"

fun play ::
  "features \<Rightarrow> (u32 \<Rightarrow> u32 \<Rightarrow> bool) \<Rightarrow> ('w \<Rightarrow> 'w \<Rightarrow> bool) \<Rightarrow> ('v, 'w) move list \<Rightarrow> ('v, 'w) client \<Rightarrow> ('v, 'w) client option" where
  "play f mb ww [] c = Some c"
| "play f mb ww (m # ms) c = Option.bind (make_move f mb ww m c) (play f mb ww ms)"

lemma move_step:
  assumes "make_move f mb ww m c = Some c'"
  shows "client_step f mb ww c c'"
proof (cases m)
  case (Call t)
  then show ?thesis using assms by (auto split: list.splits if_splits option.splits intro: begin_call)
next
  case (Inside l)
  then obtain s where s: "inside l" "fire f mb ww l (chn c) = Some s" "c' = c\<lparr>chn := s\<rparr>"
    using assms by (auto split: if_splits)
  show ?thesis unfolding s(3) by (rule in_call[OF fire_step[OF s(2)]]) (rule inside_idle[OF s(1,2)])
next
  case (Next t)
  then obtain d ds where d: "code c t = d # ds" "passed c t d" "c' = next_cmd t c"
    using assms by (auto split: list.splits if_splits)
  then show ?thesis by (cases d) (auto intro: end_call join check)
qed

lemma play_reach: "play f mb ww ms c = Some c' \<Longrightarrow> client_reach f mb ww prog c \<Longrightarrow> client_reach f mb ww prog c'"
proof (induction ms arbitrary: c)
  case (Cons m ms)
  then obtain d where "make_move f mb ww m c = Some d" "play f mb ww ms d = Some c'" by (auto simp: bind_eq_Some_conv)
  then show ?case using Cons move_step reach_step by metis
qed simp

lemma play_fails:
  assumes "play f mb ww ms (client_new prog) = Some c" and "code c t = Assert P # ds" and "\<not> P (rets (chn c)) (lost (chn c))"
  shows "\<not> passes f mb ww prog"
proof -
  have "client_reach f mb ww prog c" by (rule play_reach[OF assms(1)]) (simp add: reach_init)
  then show ?thesis using assms(2,3) by (auto simp: passes_def)
qed

section \<open>Tests that can fail\<close>

text \<open>
  In these the receiver is dropped by one thread while another sends; calls to \<^verbatim>\<open>yield_now\<close>, if any, are all
  that is between them. The assertions expect one order of the two.
\<close>

definition loom_send_error_cleanup :: "'v \<Rightarrow> ('v, 'w) cmd list list" where
  "loom_send_error_cleanup v = [[CSend v, is_err, Join 1, dropped_once], [CDropRx]]"

definition loom_send_after_receiver_close :: "'v \<Rightarrow> ('v, 'w) cmd list list" where
  "loom_send_after_receiver_close v = [[CSend v, is_err, Join 1], [CDropRx]]"

definition loom_receiver_drop_concurrent_send :: "'v \<Rightarrow> ('v, 'w) cmd list list" where
  "loom_receiver_drop_concurrent_send v = [[Join 2, Join 1, is_err, dropped_once], [CDropRx], [CSend v]]"

definition loom_data_dropped_when_not_consumed :: "'v \<Rightarrow> ('v, 'w) cmd list list" where
  "loom_data_dropped_when_not_consumed v = [[Join 1, Join 2, dropped_once], [CSend v, sent_ok], [CDropRx]]"

text \<open>The \<^verbatim>\<open>send\<close> of thread \<open>t\<close> and the drop of the sender, before or after the receiver is dropped.\<close>

definition send_first :: "nat \<Rightarrow> ('v, 'w) move list" where
  "send_first t = Call t # map Inside [LStep Snd 0, LStep Snd 0, LStep Snd 0, LReturn Snd, LStep Snd 1, LStep Snd 0] @ [Next t]"

definition drop_second :: "nat \<Rightarrow> ('v, 'w) move list" where
  "drop_second t = Call t # map Inside [LStep (Rcv t) 2, LStep (Rcv t) 2, LStep (Rcv t) 2, LStep (Rcv t) 3, LStep (Rcv t) 3] @ [Next t]"

definition drop_first :: "nat \<Rightarrow> ('v, 'w) move list" where
  "drop_first t = Call t # map Inside [LStep (Rcv t) 0, LStep (Rcv t) 0] @ [Next t]"

definition send_second :: "nat \<Rightarrow> ('v, 'w) move list" where
  "send_second t = Call t # map Inside [LStep Snd 1, LReturn Snd, LStep Snd 1, LStep Snd 1, LStep Snd 1] @ [Next t]"

lemmas play_simps = client_new_def next_cmd_def threads_def run_simps send_first_def drop_second_def drop_first_def send_second_def

lemma send_error_cleanup_run:
  fixes v :: 'v and ww :: "'w \<Rightarrow> 'w \<Rightarrow> bool"
  shows "\<exists>c. play f mb ww (send_first 0) (client_new (threads (loom_send_error_cleanup v))) = Some c
    \<and> code c 0 = [is_err, Join 1, dropped_once] \<and> res Snd (rets (chn c)) = [SendOk]"
  by (simp add: loom_send_error_cleanup_def play_simps)

lemma send_after_receiver_close_run:
  fixes v :: 'v and ww :: "'w \<Rightarrow> 'w \<Rightarrow> bool"
  shows "\<exists>c. play f mb ww (send_first 0) (client_new (threads (loom_send_after_receiver_close v))) = Some c
    \<and> code c 0 = [is_err, Join 1] \<and> res Snd (rets (chn c)) = [SendOk]"
  by (simp add: loom_send_after_receiver_close_def play_simps)

lemma receiver_drop_concurrent_send_run:
  fixes v :: 'v and ww :: "'w \<Rightarrow> 'w \<Rightarrow> bool"
  shows "\<exists>c. play f mb ww (send_first 2 @ drop_second 1 @ [Next 0, Next 0]) (client_new (threads (loom_receiver_drop_concurrent_send v))) = Some c
    \<and> code c 0 = [is_err, dropped_once] \<and> res Snd (rets (chn c)) = [SendOk]"
  by (simp add: loom_receiver_drop_concurrent_send_def play_simps)

lemma data_dropped_when_not_consumed_run:
  fixes v :: 'v and ww :: "'w \<Rightarrow> 'w \<Rightarrow> bool"
  shows "\<exists>c. play f mb ww (drop_first 2 @ send_second 1) (client_new (threads (loom_data_dropped_when_not_consumed v))) = Some c
    \<and> code c 1 = [sent_ok] \<and> res Snd (rets (chn c)) = [SendErr (Some v)]"
  by (simp add: loom_data_dropped_when_not_consumed_def play_simps)

section \<open>Properties\<close>

definition test_ok :: "features \<Rightarrow> (u32 \<Rightarrow> u32 \<Rightarrow> bool) \<Rightarrow> ('w \<Rightarrow> 'w \<Rightarrow> bool) \<Rightarrow> ('v, 'w) cmd list list \<Rightarrow> bool" where
  "test_ok f mb ww css \<longleftrightarrow> passes f mb ww (threads css) \<and> ends f mb ww (threads css)"

text \<open>
  C3. The tests of the channel hold in every interleaving on the release/acquire memory, for every
  \<^verbatim>\<open>mb\<close> and \<^verbatim>\<open>will_wake\<close>: no assertion is ever false, no \<^verbatim>\<open>unwrap\<close> of a \<^verbatim>\<open>send\<close> panics, and from every state of every interleaving the
  test can be run to its end (no deadlock). These are the unit tests (all but the one that spins on its own
  counters) and, for any value \<open>v\<close>, fifteen of the model tests.
\<close>

theorem channel_tests_pass:
  assumes "f_sync f" and "f_async f"
  shows "list_all (test_ok f mb ww)
      [test_oneshot_basic, test_oneshot_send_then_recv, test_oneshot_duplicate_recv, test_oneshot_sender_dropped,
       test_oneshot_receiver_dropped_before_send, test_oneshot_receiver_dropped_after_send,
       test_oneshot_multiple_threads_recv, test_oneshot_multiple_threads_arc_recv, test_oneshot_async_poll w]
    \<and> test_ok f mb ww test_oneshot_recv_before_send
    \<and> list_all (test_ok f mb ww)
      [loom_basic_send_recv v, loom_send_recv_drop_sequence v, loom_repeated_recv_attempts v,
       loom_value_dropped_after_recv v, loom_no_double_drop v, loom_both_drop, loom_sender_drop_before_recv,
       loom_recv_after_sender_drop, loom_race_send_drop_vs_recv, loom_receiver_drop_before_send v,
       loom_race_recv_drop_vs_send v, loom_recv_before_send v, loom_double_recv v, loom_multiple_recv_consistency v,
       loom_concurrent_cleanup v]"
  using assms by (simp_all add: test_ok_def unit_passes unit_ends loom_passes loom_ends)

lemma channel_tests_pass_witness:
  "test_ok all_features (=) (=) (test_oneshot_basic :: (int, nat) cmd list list)"
proof -
  have "f_sync all_features" "f_async all_features" by (simp_all add: all_features_def)
  from channel_tests_pass[OF this, of "(=)" "(=)" "0 :: nat" "0 :: int"] show ?thesis by (simp only: list.pred_inject)
qed

text \<open>
  C10. Four of the model tests rest on how \<^verbatim>\<open>loom\<close> schedules a thread that calls \<^verbatim>\<open>yield_now\<close>. The channel does not order
  the drop of the receiver and the \<^verbatim>\<open>send\<close>, and each of the four has an interleaving of its calls, at whatever wait and
  waker functions, in which an assertion (or an \<^verbatim>\<open>unwrap\<close>) fails.
\<close>

theorem loom_tests_can_fail:
  "\<not> passes f mb ww (threads (loom_send_error_cleanup v)) \<and> \<not> passes f mb ww (threads (loom_send_after_receiver_close v))
   \<and> \<not> passes f mb ww (threads (loom_receiver_drop_concurrent_send v))
   \<and> \<not> passes f mb ww (threads (loom_data_dropped_when_not_consumed v))"
proof (intro conjI)
  obtain c where c: "play f mb ww (send_first 0) (client_new (threads (loom_send_error_cleanup v))) = Some c"
      "code c 0 = [is_err, Join 1, dropped_once]" "res Snd (rets (chn c)) = [SendOk]"
    using send_error_cleanup_run[of f mb ww v] by (elim exE conjE)
  show "\<not> passes f mb ww (threads (loom_send_error_cleanup v))" by (rule play_fails[OF c(1,2)]) (simp add: c(3))
next
  obtain c where c: "play f mb ww (send_first 0) (client_new (threads (loom_send_after_receiver_close v))) = Some c"
      "code c 0 = [is_err, Join 1]" "res Snd (rets (chn c)) = [SendOk]"
    using send_after_receiver_close_run[of f mb ww v] by (elim exE conjE)
  show "\<not> passes f mb ww (threads (loom_send_after_receiver_close v))" by (rule play_fails[OF c(1,2)]) (simp add: c(3))
next
  obtain c where c: "play f mb ww (send_first 2 @ drop_second 1 @ [Next 0, Next 0]) (client_new (threads (loom_receiver_drop_concurrent_send v))) = Some c"
      "code c 0 = [is_err, dropped_once]" "res Snd (rets (chn c)) = [SendOk]"
    using receiver_drop_concurrent_send_run[of f mb ww v] by (elim exE conjE)
  show "\<not> passes f mb ww (threads (loom_receiver_drop_concurrent_send v))" by (rule play_fails[OF c(1,2)]) (simp add: c(3))
next
  obtain c where c: "play f mb ww (drop_first 2 @ send_second 1) (client_new (threads (loom_data_dropped_when_not_consumed v))) = Some c"
      "code c 1 = [sent_ok]" "res Snd (rets (chn c)) = [SendErr (Some v)]"
    using data_dropped_when_not_consumed_run[of f mb ww v] by (elim exE conjE)
  show "\<not> passes f mb ww (threads (loom_data_dropped_when_not_consumed v))" by (rule play_fails[OF c(1,2)]) (simp add: c(3))
qed

end
