(* ===== verification/OneshotWake.thy ===== *)
theory OneshotWake
  imports OneshotEnds
begin

text \<open>
  Wake-ups of the asynchronous side: the waker of a \<^verbatim>\<open>poll\<close> that returned \<^verbatim>\<open>Pending\<close> is registered until the sender
  wakes it.
\<close>

section \<open>The waker a poll leaves behind\<close>

text \<open>\<open>w'\<close> stands for \<open>w\<close> if it is \<open>w\<close> or \<^verbatim>\<open>will_wake\<close> said that it wakes the same task.\<close>

definition stands_for :: "('w \<Rightarrow> 'w \<Rightarrow> bool) \<Rightarrow> 'w \<Rightarrow> 'w \<Rightarrow> bool" where
  "stands_for ww w' w \<longleftrightarrow> w' = w \<or> ww w' w"

definition registered :: "('w \<Rightarrow> 'w \<Rightarrow> bool) \<Rightarrow> 'w \<Rightarrow> ('v, 'w) chan \<Rightarrow> bool" where
  "registered ww w s \<longleftrightarrow> (\<exists>w'. waker s = Some w' \<and> stands_for ww w' w)"

definition unset_inv :: "('w \<Rightarrow> 'w \<Rightarrow> bool) \<Rightarrow> ('v, 'w) chan \<Rightarrow> bool" where
  "unset_inv ww s \<longleftrightarrow> (\<forall>a w c. pc s a = InPoll (PoUnset w c) \<longrightarrow> registered ww w s)"

lemma nxt_unset:
  fixes p :: "('v, 'w) pc"
  assumes "nxt f p r = InPoll (PoUnset w c)" and "p \<noteq> InPoll (PoUnset w c)"
  shows "r = Done \<and> (p = InPoll (PoUpdate w c) \<or> p = InPoll (PoWrite w c))"
proof -
  have "send_next f q r \<noteq> (InPoll (PoUnset w c) :: ('v, 'w) pc)" for q
    by (cases "(f, q, r)" rule: send_next.cases) (auto simp: loop_defs)
  moreover have "drops_next f q r \<noteq> (InPoll (PoUnset w c) :: ('v, 'w) pc)" for q
    by (cases "(f, q, r)" rule: drops_next.cases) (auto simp: loop_defs Let_def)
  moreover have "recv_next f q r \<noteq> (InPoll (PoUnset w c) :: ('v, 'w) pc)" for q
    by (cases "(f, q, r)" rule: recv_next.cases) (auto simp: loop_defs)
  moreover have "dropr_next f q r \<noteq> (InPoll (PoUnset w c) :: ('v, 'w) pc)" for q
    by (cases "(f, q, r)" rule: dropr_next.cases) (auto simp: loop_defs)
  moreover have "r = Done \<and> (q = PoUpdate w c \<or> q = PoWrite w c)"
    if "poll_next q r = (InPoll (PoUnset w c) :: ('v, 'w) pc)" "q \<noteq> PoUnset w c" for q :: "'w poll_pc"
    using that by (cases "(q, r)" rule: poll_next.cases) (auto simp: loop_defs split: if_splits)
  ultimately show ?thesis using assms by (cases p) auto
qed

lemma adv_unset:
  assumes "pc (adv f a r m) b = InPoll (PoUnset w c)" and "pc m b \<noteq> InPoll (PoUnset w c)"
  shows "a = b \<and> r = Done \<and> (pc m b = InPoll (PoUpdate w c) \<or> pc m b = InPoll (PoWrite w c))"
  using assms nxt_unset[of f "pc m b" r w c] by (cases "a = b") (auto simp: pc_adv)

lemma waker_frame [simp]:
  "waker (touch a m) = waker m" "waker (access a x m) = waker m" "waker (load_relaxed a k m) = waker m"
  "waker (load_acquire a k m) = waker m" "waker (cas_success a op c m) = waker m" "waker (write_data a v m) = waker m"
  "waker (read_data a m) = waker m" "waker (dealloc a m) = waker m" "waker (log_lost a s) = waker s"
  "waker (log_woken s) = waker s" "waker (write_waker a w m) = Some w" "waker (take_waker a m) = None"
  "waker (update_waker ww a w m) = map_option (\<lambda>w0. if ww w0 w then w0 else w) (waker m)"
  by (simp_all add: mem_op_defs log_lost_def log_woken_def Let_def split: pc.split option.split)

lemma woken_frame [simp]:
  "woken (touch a s) = woken s" "woken (load_relaxed a k s) = woken s" "woken (load_acquire a k s) = woken s"
  "woken (cas_success a op c s) = woken s" "woken (write_data a v s) = woken s" "woken (read_data a s) = woken s"
  "woken (dealloc a s) = woken s" "woken (log_lost a s) = woken s" "woken (write_waker a w s) = woken s"
  "woken (take_waker a s) = woken s" "woken (update_waker ww a w s) = woken s"
  "woken (log_woken s) = woken s @ (case waker s of None \<Rightarrow> [] | Some w \<Rightarrow> [w])"
  "woken (adv f a r s) = woken s" "woken (goto a p s) = woken s" "woken (unpark_all s) = woken s"
  by (simp_all add: mem_op_defs log_lost_def log_woken_def adv_def goto_def unpark_all_def Let_def split: pc.split option.split)

lemma waker_adv [simp]: "waker (adv f a r m) = waker m" "waker (goto a p m) = waker m" "waker (unpark_all s) = waker s"
  by (simp_all add: adv_def goto_def unpark_all_def)

text \<open>Only the owner of the waker cell changes it.\<close>

definition waker_insn :: "('v, 'w) insn \<Rightarrow> bool" where
  "waker_insn i \<longleftrightarrow> i = IWakeWaker \<or> i = IDropWaker \<or> (\<exists>w. i = IWriteWaker w \<or> i = IUpdateWaker w)"

lemma waker_changes:
  assumes "chan_step f mb ww s t"
  shows "waker t = waker s \<or> (\<exists>a. waker_insn (instr f (pc s a)))"
  using assms
  by (induction rule: chan_step.induct)
    (auto simp: waker_insn_def take_over_def hand_back_def log_ret_def)

lemma waker_insn_holds: "waker_insn (instr f p) \<Longrightarrow> holds_waker p"
proof (cases p)
  case (InSend q)
  then show "waker_insn (instr f p) \<Longrightarrow> holds_waker p" by (cases q) (simp_all add: waker_insn_def)
next
  case (InDropS q)
  then show "waker_insn (instr f p) \<Longrightarrow> holds_waker p" by (cases q) (simp_all add: waker_insn_def)
next
  case (InRecv q)
  then show "waker_insn (instr f p) \<Longrightarrow> holds_waker p" by (cases q) (simp_all add: waker_insn_def)
next
  case (InPoll q)
  then show "waker_insn (instr f p) \<Longrightarrow> holds_waker p" by (cases q) (simp_all add: waker_insn_def)
next
  case (InDropR q)
  then show "waker_insn (instr f p) \<Longrightarrow> holds_waker p" by (cases q) (simp_all add: waker_insn_def)
qed (simp_all add: waker_insn_def)

lemma unset_step:
  assumes O: "own_inv s" and st: "chan_step f mb ww s t" and I: "unset_inv ww s"
  shows "unset_inv ww t"
  unfolding unset_inv_def
proof (intro allI impI)
  fix b w c assume p: "pc t b = InPoll (PoUnset w c)"
  have W: "waker_inv s" using O by (simp add: own_inv_def)
  show "registered ww w t"
  proof (cases "pc s b = InPoll (PoUnset w c)")
    case True
    have "waker t = waker s"
    proof (rule ccontr)
      assume "waker t \<noteq> waker s"
      then obtain a where a: "waker_insn (instr f (pc s a))" using waker_changes[OF st] by blast
      have "a = b" by (rule waker_held(3)[OF W _ waker_insn_holds[OF a]]) (simp add: True)
      then show False using a True by (simp add: waker_insn_def)
    qed
    then show ?thesis using I True unfolding unset_inv_def registered_def by metis
  next
    case False
    show ?thesis using st p False I W
    proof (induction rule: chan_step.induct)
      case (write_waker s a w')
      have "a = b \<and> (pc s b = InPoll (PoUpdate w c) \<or> pc s b = InPoll (PoWrite w c))"
        using adv_unset[OF write_waker(2)] write_waker(3) by (auto simp: step_simps)
      then show ?case using write_waker(1)
        by (auto simp: registered_def stands_for_def)
    next
      case (update_waker s a w')
      have q: "a = b" "pc s b = InPoll (PoUpdate w c) \<or> pc s b = InPoll (PoWrite w c)"
        using adv_unset[OF update_waker(2)] update_waker(3) by (auto simp: step_simps)
      then have u: "pc s b = InPoll (PoUpdate w c)" "w' = w" using update_waker(1) by auto
      then obtain w0 where "waker s = Some w0" using waker_held(1)[OF update_waker(5), of b] by auto
      then show ?case by (simp add: registered_def stands_for_def u(2))
    next
      case (wake_all s a)
      then have "pc (adv f a Done (touch a s)) b = InPoll (PoUnset w c)" by (auto simp: unpark_all_def split: if_splits)
      then show ?case using adv_unset wake_all by (fastforce simp: step_simps)
    next
      case (wake_waker s a)
      then show ?case using adv_unset by (fastforce simp: step_simps)
    next
      case (drop_waker s a)
      then show ?case using adv_unset by (fastforce simp: step_simps)
    next
      case (wait_wakeup s a)
      then show ?case using adv_unset by (fastforce simp: step_simps)
    next
      case (wait_return s a)
      then show ?case using adv_unset by (fastforce simp: step_simps)
    next
      case (write_data s a)
      then show ?case using adv_unset by (fastforce simp: step_simps)
    next
      case (dealloc s a)
      then show ?case using adv_unset by (fastforce simp: step_simps)
    qed (use adv_unset in \<open>fastforce simp: step_simps goto_def take_over_def hand_back_def log_ret_def split: if_splits\<close>)+
  qed
qed

lemma reach_unset: "chan_reach f mb ww s \<Longrightarrow> unset_inv ww s"
proof (induction rule: reach.induct)
  case (reach_init s)
  then show ?case by (simp add: unset_inv_def channel_def mem_new_def mem.defs)
next
  case (reach_step s t)
  then show ?case using unset_step reach_facts(2) by blast
qed


section \<open>A poll that returned \<^verbatim>\<open>Pending\<close>\<close>

text \<open>Points of the sender at which it is about to take the waker and wake it.\<close>

fun takes_waker :: "('v, 'w) pc \<Rightarrow> bool" where
  "takes_waker (InSend SendAcq) = True"
| "takes_waker (InSend SendWake) = True"
| "takes_waker (InDropS (DsWake _)) = True"
| "takes_waker _ = False"

definition woken_for :: "('w \<Rightarrow> 'w \<Rightarrow> bool) \<Rightarrow> 'w \<Rightarrow> ('v, 'w) chan \<Rightarrow> bool" where
  "woken_for ww w s \<longleftrightarrow> (\<exists>w' \<in> set (woken s). stands_for ww w' w)"

definition asleep :: "('w \<Rightarrow> 'w \<Rightarrow> bool) \<Rightarrow> 'w \<Rightarrow> ('v, 'w) chan \<Rightarrow> bool" where
  "asleep ww w s \<longleftrightarrow> (\<forall>i. pc s (Rcv i) = Idle \<or> pc s (Rcv i) = Ret PollPending)
     \<and> (woken_for ww w s \<or> registered ww w s \<and> (latest s = 20 \<or> takes_waker (pc s Snd)))"

text \<open>Steps in which no call on the receiver begins.\<close>

definition sleep_step ::
  "features \<Rightarrow> (u32 \<Rightarrow> u32 \<Rightarrow> bool) \<Rightarrow> ('w \<Rightarrow> 'w \<Rightarrow> bool) \<Rightarrow> ('v, 'w) chan \<Rightarrow> ('v, 'w) chan \<Rightarrow> bool" where
  "sleep_step f mb ww s t \<longleftrightarrow> chan_step f mb ww s t \<and> (\<forall>i. pc s (Rcv i) = Idle \<longrightarrow> pc t (Rcv i) = Idle)"

lemma quiet_receivers:
  assumes st: "chan_step f mb ww s t" and q: "pc s (Rcv i) = Idle \<Longrightarrow> pc t (Rcv i) = Idle"
    and i: "pc s (Rcv i) = Idle \<or> pc s (Rcv i) = Ret PollPending"
  shows "pc t (Rcv i) = Idle \<or> pc t (Rcv i) = Ret PollPending"
proof -
  have n: "nxt f (pc s (Rcv i)) r = pc s (Rcv i)" for r using i by auto
  from st q i n show ?thesis
    by (induction rule: chan_step.induct)
      (auto simp: pc_adv step_simps goto_def take_over_def hand_back_def log_ret_def unpark_all_def may_own_def split: if_splits)
qed

lemma woken_mono: "chan_step f mb ww s t \<Longrightarrow> set (woken s) \<subseteq> set (woken t)"
  by (induction rule: chan_step.induct)
    (auto simp: take_over_def hand_back_def log_ret_def)

lemma latest_calls [simp]:
  "mval (take_over a s) = mval s" "top (take_over a s) = top s" "mval (hand_back a s) = mval s" "top (hand_back a s) = top s"
  "mval (log_ret a x s) = mval s" "top (log_ret a x s) = top s" "mval (goto a p s) = mval s" "top (goto a p s) = top s"
  "mval (unpark_all s) = mval s" "top (unpark_all s) = top s" "mval (adv f a r s) = mval s" "top (adv f a r s) = top s"
  by (simp_all add: take_over_def hand_back_def log_ret_def goto_def unpark_all_def adv_def)

text \<open>The waker leaves its cell by being woken, and the word changes by an exchange.\<close>

definition woken_by :: "('v, 'w) chan \<Rightarrow> ('v, 'w) chan \<Rightarrow> bool" where
  "woken_by s t \<longleftrightarrow> (\<forall>w. waker s = Some w \<longrightarrow> w \<in> set (woken t))"

lemma waker_stays:
  assumes "chan_step f mb ww s t" and "\<And>a. waker_insn (instr f (pc s a)) \<Longrightarrow> instr f (pc s a) = IWakeWaker"
  shows "waker t = waker s \<or> woken_by s t"
  using assms
proof (induction rule: chan_step.induct)
  case (drop_waker s a)
  then have "waker_insn (instr f (pc s a))" by (simp add: waker_insn_def)
  then show ?case using drop_waker(1,2) by fastforce
next
  case (write_waker s a w)
  then have "waker_insn (instr f (pc s a))" by (simp add: waker_insn_def)
  then show ?case using write_waker by fastforce
next
  case (update_waker s a w)
  then have "waker_insn (instr f (pc s a))" by (simp add: waker_insn_def)
  then show ?case using update_waker by fastforce
qed (auto simp: woken_by_def take_over_def hand_back_def log_ret_def)

lemma latest_step:
  assumes "chan_step f mb ww s t"
  shows "latest t = latest s \<or> (\<exists>a op. instr f (pc s a) = ICas op (latest s) \<and> t = adv f a CasOk (cas_success a op (latest s) s))"
  using assms by (induction rule: chan_step.induct) (auto simp: step_simps)

lemma adv_takes:
  assumes "takes_waker (pc m b)"
  shows "takes_waker (pc (adv f a (Loaded w) m) b)" and "a \<noteq> b \<Longrightarrow> takes_waker (pc (adv f a r m) b)"
  using assms by (cases "pc m b" rule: takes_waker.cases; auto simp: pc_adv)+

lemma takes_other:
  assumes "takes_waker (pc m b)" and "instr f (pc m a) \<noteq> IAcquire" and "instr f (pc m a) \<noteq> IWakeWaker"
  shows "takes_waker (pc (adv f a r m) b)"
proof (cases "a = b")
  case True
  then show ?thesis using assms by (cases "pc m b" rule: takes_waker.cases) auto
qed (use adv_takes(2)[OF assms(1)] in blast)

lemma takes_step:
  assumes "chan_step f mb ww s t" and "takes_waker (pc s Snd)"
  shows "takes_waker (pc t Snd) \<or> woken_by s t"
  using assms
proof (induction rule: chan_step.induct)
  case (acquire s a k)
  then show ?case using adv_takes(1)[of "load_acquire a k s" Snd f a] by (simp add: step_simps)
next
  case (wake_waker s a)
  then show ?case by (simp add: woken_by_def split: option.splits)
next
  case (wake_all s a)
  then have "takes_waker (pc (adv f a Done (touch a s)) Snd)" by (intro takes_other) (simp_all add: step_simps)
  then show ?case by (auto simp: unpark_all_def)
next
  case (wait_block s a c)
  then have "a \<noteq> Snd" by (cases "pc s Snd" rule: takes_waker.cases) auto
  then show ?case using wait_block by (simp add: goto_def step_simps)
qed (auto simp: step_simps goto_def take_over_def hand_back_def log_ret_def intro!: takes_other)

text \<open>One step while the waker is registered and the receiving side sleeps.\<close>

lemma asleep_step:
  assumes r: "chan_reach f mb ww s" and a: "f_async f" and q: "sleep_step f mb ww s t" and A: "asleep ww w s"
  shows "asleep ww w t"
proof -
  note I = reach_facts(1)[OF r]
  have st: "chan_step f mb ww s t" and idle: "\<And>i. pc s (Rcv i) = Idle \<Longrightarrow> pc t (Rcv i) = Idle"
    using q by (simp_all add: sleep_step_def)
  have rest: "pc s (Rcv i) = Idle \<or> pc s (Rcv i) = Ret PollPending" for i using A by (simp add: asleep_def)
  have rest': "pc t (Rcv i) = Idle \<or> pc t (Rcv i) = Ret PollPending" for i by (rule quiet_receivers[OF st idle rest])
  have snd: "b = Snd" if "instr f (pc s b) \<noteq> INone" for b
  proof (cases b)
    case (Rcv i)
    then show ?thesis using that rest[of i] by auto
  qed
  have side: "snd_pc (pc s Snd)" using I by (simp add: ctl_inv_def side_inv_def)
  show ?thesis
  proof (cases "woken_for ww w s \<or> woken_by s t")
    case True
    moreover have "woken_for ww w s \<Longrightarrow> woken_for ww w t" using woken_mono[OF st] by (auto simp: woken_for_def)
    moreover have "woken_by s t \<Longrightarrow> registered ww w s \<Longrightarrow> woken_for ww w t"
      by (auto simp: woken_for_def woken_by_def registered_def)
    ultimately show ?thesis using A rest' by (auto simp: asleep_def)
  next
    case False
    then have R: "registered ww w s" and l: "latest s = 20 \<or> takes_waker (pc s Snd)" using A by (simp_all add: asleep_def)
    have "instr f (pc s b) = IWakeWaker" if "waker_insn (instr f (pc s b))" for b
    proof -
      have "b = Snd" by (rule snd) (use that in \<open>auto simp: waker_insn_def\<close>)
      then have "holds_waker (pc s Snd)" using waker_insn_holds[OF that] by simp
      then show ?thesis using that \<open>b = Snd\<close> side by (cases "pc s Snd" rule: holds_waker.cases) (simp_all add: waker_insn_def)
    qed
    then have "waker t = waker s" using waker_stays[OF st] False by blast
    then have R': "registered ww w t" using R by (simp add: registered_def)
    have "latest t = 20 \<or> takes_waker (pc t Snd)"
    proof (cases "takes_waker (pc s Snd)")
      case True
      then show ?thesis using takes_step[OF st] False by blast
    next
      case False
      then have l20: "latest s = 20" using l by simp
      from latest_step[OF st] show ?thesis
      proof
        assume "\<exists>b op. instr f (pc s b) = ICas op (latest s) \<and> t = adv f b CasOk (cas_success b op (latest s) s)"
        then obtain b op where b: "instr f (pc s b) = ICas op 20" "t = adv f b CasOk (cas_success b op 20 s)" using l20 by auto
        have bs: "b = Snd" by (rule snd) (simp add: b(1))
        have "pc s Snd = InSend (SendCas 20) \<or> pc s Snd = InDropS (DsClosedAcq 20)"
        proof (cases "pc s Snd")
          case (InSend p)
          then show ?thesis using b(1) bs by (cases p) simp_all
        next
          case (InDropS p)
          then show ?thesis using b(1) bs ctl_know[OF I, of Snd] by (cases p) auto
        qed (use b(1) bs side in simp_all)
        then have "takes_waker (pc t Snd)" using a by (auto simp: b(2) bs pc_adv step_simps try_wake_after_ready_def word_state)
        then show ?thesis ..
      qed (simp add: l20)
    qed
    then show ?thesis using R' rest' by (simp add: asleep_def)
  qed
qed

lemma asleep_steps:
  assumes "(sleep_step f mb ww)\<^sup>*\<^sup>* s t" and "chan_reach f mb ww s" and "f_async f" and "asleep ww w s"
  shows "asleep ww w t \<and> chan_reach f mb ww t"
  using assms(1)
proof (induction rule: rtranclp_induct)
  case (step t u)
  then have st: "chan_step f mb ww t u" and r: "chan_reach f mb ww t" and a: "asleep ww w t" by (simp_all add: sleep_step_def)
  show ?case using asleep_step[OF r assms(3) step(2) a] reach_step[OF r st] by simp
qed (simp add: assms(2,4))

text \<open>A poll that goes to sleep leaves its waker behind.\<close>

lemma pending_asleep:
  assumes r: "chan_reach f mb ww s" and p: "pc s (Rcv i) = InPoll (PoUnset w c)" and st: "chan_step f mb ww s t"
    and e: "pc t (Rcv i) = Ret PollPending"
  shows "asleep ww w t"
proof -
  note I = reach_facts(1)[OF r]
  have R: "registered ww w s" using reach_unset[OF r] p by (auto simp: unset_inv_def)
  have excl: "pc s (Rcv j) = Idle" if "j \<noteq> i" for j using ctl_excl[OF I _ that] p by simp
  obtain b op where s: "instr f (pc s b) = ICas op (latest s)" "t = adv f b CasOk (cas_success b op (latest s) s)" "b = Rcv i"
    using st p e
  proof (induction rule: chan_step.induct)
    case (cas_ok s a op cur)
    then show ?case by (cases "a = Rcv i") (auto simp: pc_adv step_simps)
  next
    case (wake_all s a)
    then show ?case by (cases "a = Rcv i") (auto simp: pc_adv unpark_all_def step_simps)
  next
    case (cas_fail s a op cur k)
    then show ?case by (cases "a = Rcv i") (auto simp: pc_adv step_simps)
  qed (auto simp: pc_adv step_simps goto_def take_over_def hand_back_def log_ret_def may_own_def split: if_splits)
  have c: "c = 28" using ctl_know[OF I, of "Rcv i"] p by (simp add: polling_def)
  have o: "op = unset_wakeless_release" "latest s = 28" using s(1,3) p c by auto
  have "latest t = 20" unfolding s(2) o by (simp add: step_simps word_state)
  moreover have "registered ww w t" using R by (simp add: s(2) registered_def)
  moreover have "pc t (Rcv j) = Idle \<or> pc t (Rcv j) = Ret PollPending" for j
    using excl[of j] e by (cases "j = i") (simp_all add: s(2,3) pc_adv step_simps)
  ultimately show ?thesis by (simp add: asleep_def)
qed


section \<open>Property\<close>

text \<open>
  C5. No lost wake-up of a task. Let a \<^verbatim>\<open>poll\<close> with the waker \<open>w\<close> return \<^verbatim>\<open>Pending\<close>, and then the channel take any steps
  in which no thread begins another call on the receiver: no \<^verbatim>\<open>poll\<close>, no \<^verbatim>\<open>recv\<close> and no drop of it, as when the task sleeps
  (such a call is outside the claim: a \<^verbatim>\<open>recv\<close> takes the waker out again and drops it, for it waits itself).
  Then \<open>w\<close> or a waker that wakes the same task has been woken, or it is in its cell and the word asks for it to be
  woken, or the sender is about to wake it. So it has been woken when the sender is gone, by \<^verbatim>\<open>send\<close> or by \<^verbatim>\<open>drop\<close>.
\<close>

theorem async_no_lost_wakeup:
  assumes "chan_reach f mb ww s" and "pc s (Rcv i) = InPoll (PoUnset w c)" and "chan_step f mb ww s t"
    and "pc t (Rcv i) = Ret PollPending" and "(sleep_step f mb ww)\<^sup>*\<^sup>* t u"
  shows "(\<exists>w'. (w' = w \<or> ww w' w) \<and> (w' \<in> set (woken u) \<or> waker u = Some w' \<and> (latest u = 20 \<or> takes_waker (pc u Snd))))
    \<and> (pc u Snd = Gone \<longrightarrow> (\<exists>w' \<in> set (woken u). w' = w \<or> ww w' w))"
proof -
  have "async_pc (pc s (Rcv i))" by (simp add: assms(2))
  then have a: "f_async f" using reach_facts(1)[OF assms(1)] unfolding ctl_inv_def side_inv_def by blast
  have u: "asleep ww w u" "chan_reach f mb ww u"
    using asleep_steps[OF assms(5) reach_step[OF assms(1,3)] a pending_asleep[OF assms(1-4)]] by simp_all
  have "latest u \<noteq> 20" if "pc u Snd = Gone" using ctl_fin(4)[OF reach_facts(1)[OF u(2)] that] by auto
  then show ?thesis using u(1) by (auto simp: asleep_def woken_for_def registered_def stands_for_def)
qed

definition poll_run :: "(nat, nat) label list" where
  "poll_run = [LPoll 0 5, LStep (Rcv 0) 0, LStep (Rcv 0) 0, LStep (Rcv 0) 0]"

definition wake_run :: "(nat, nat) label list" where
  "wake_run = [LReturn (Rcv 0), LSend 7, LStep Snd 2, LStep Snd 0, LStep Snd 0, LStep Snd 3, LStep Snd 0, LReturn Snd,
     LStep Snd 3, LStep Snd 3]"

lemma poll_run_ok:
  "\<exists>s t u. run all_features (=) (=) poll_run channel = Some s \<and> pc s (Rcv 0) = InPoll (PoUnset 5 28)
    \<and> run all_features (=) (=) [LStep (Rcv 0) 0] s = Some t \<and> pc t (Rcv 0) = Ret PollPending
    \<and> run all_features (=) (=) wake_run t = Some u \<and> pc u Snd = Gone"
  by (simp add: poll_run_def wake_run_def all_features_def run_simps)

lemma fire_sleep:
  assumes "fire f mb ww l s = Some t" and "inside l \<or> l = LDropSender \<or> (\<exists>v. l = LSend v)"
  shows "sleep_step f mb ww s t"
proof -
  have "pc t (Rcv i) = Idle" if "pc s (Rcv i) = Idle" for i
    using assms inside_idle[OF _ assms(1) that] that by (auto simp: goto_def split: if_splits)
  then show ?thesis using fire_step[OF assms(1)] by (simp add: sleep_step_def)
qed

lemma run_sleep:
  assumes "run f mb ww ls s = Some t" and "list_all (\<lambda>l. inside l \<or> l = LDropSender \<or> (\<exists>v. l = LSend v)) ls"
  shows "(sleep_step f mb ww)\<^sup>*\<^sup>* s t"
  using assms
proof (induction ls arbitrary: s)
  case (Cons l ls)
  then obtain u where u: "fire f mb ww l s = Some u" "run f mb ww ls u = Some t" by (auto simp: bind_eq_Some_conv)
  have "sleep_step f mb ww s u" by (rule fire_sleep[OF u(1)]) (use Cons.prems(2) in simp)
  moreover have "(sleep_step f mb ww)\<^sup>*\<^sup>* u t" by (rule Cons.IH[OF u(2)]) (use Cons.prems(2) in simp)
  ultimately show ?case by (rule converse_rtranclp_into_rtranclp)
qed simp

lemma run_one: "run f mb ww [l] s = Some t \<Longrightarrow> chan_step f mb ww s t"
  using fire_step by (auto simp: bind_eq_Some_conv)

lemma async_no_lost_wakeup_witness:
  "\<exists>s t u. run all_features (=) (=) poll_run channel = Some s \<and> run all_features (=) (=) [LStep (Rcv 0) 0] s = Some t
    \<and> run all_features (=) (=) wake_run t = Some u \<and> 5 \<in> set (woken u)"
proof -
  obtain s t u where s: "run all_features (=) (=) poll_run channel = Some s" "pc s (Rcv 0) = InPoll (PoUnset 5 28)"
    "run all_features (=) (=) [LStep (Rcv 0) 0] s = Some t" "pc t (Rcv 0) = Ret PollPending"
    "run all_features (=) (=) wake_run t = Some u" "pc u Snd = Gone" using poll_run_ok by (elim exE conjE)
  have "list_all (\<lambda>l. inside l \<or> l = LDropSender \<or> (\<exists>v. l = LSend v)) wake_run" by (simp add: wake_run_def)
  note p = async_no_lost_wakeup[OF run_channel[OF s(1)] s(2) run_one[OF s(3)] s(4) run_sleep[OF s(5) this]]
  have "\<exists>w' \<in> set (woken u). w' = 5 \<or> w' = 5" by (rule conjunct2[OF p, THEN mp, OF s(6)])
  then have "5 \<in> set (woken u)" by (elim bexE disjE) simp_all
  with s(1,3,5) show ?thesis by (intro exI conjI)
qed

end
