(* ===== verification/ForwardCore.thy ===== *)
theory ForwardCore
  imports Prelude
begin

text \<open>
  The runtime crate \<^verbatim>\<open>forward/src/lib.rs\<close>: selectors, kinds and handles, the synchronous and
  asynchronous method objects and their three calls, and \<^verbatim>\<open>ForwardReturn\<close>; with the kinds,
  handles and proxy of \<^verbatim>\<open>examples/test.rs\<close>, which are the implementations of the traits that
  the repository contains.

  A Rust trait with generic methods is a function over the implementing types: \<^verbatim>\<open>ForwardKind\<close>
  is \<open>ksel :: 'k \<Rightarrow> index \<Rightarrow> 'h\<close> (\<^verbatim>\<open>select\<close>), \<^verbatim>\<open>Forward\<close> is the pair of \<open>own :: 'h \<Rightarrow> bool\<close>
  (\<^verbatim>\<open>is_own_side\<close>) and \<open>fwd\<close> (\<^verbatim>\<open>forward_sync\<close> or \<^verbatim>\<open>forward_async\<close>). A call acts on a world that
  holds the lines printed so far and the state of the methods; a call that never returns
  has the result \<open>None\<close>.
\<close>

section \<open>Computations\<close>

record 'u world =
  out :: "string list"
  user :: 'u

type_synonym ('u, 'a) act = "'u world \<Rightarrow> ('a \<times> 'u world) option"

definition act_map :: "('a \<Rightarrow> 'b) \<Rightarrow> ('u, 'a) act \<Rightarrow> ('u, 'b) act" where
  "act_map g x w = (case x w of None \<Rightarrow> None | Some (a, w') \<Rightarrow> Some (g a, w'))"

definition act_bind :: "('u, 'a) act \<Rightarrow> ('a \<Rightarrow> ('u, 'b) act) \<Rightarrow> ('u, 'b) act" where
  "act_bind x k w = (case x w of None \<Rightarrow> None | Some (a, w') \<Rightarrow> k a w')"

definition act_return :: "'a \<Rightarrow> ('u, 'a) act" where
  "act_return a w = Some (a, w)"

text \<open>\<^verbatim>\<open>println!\<close> appends lines.\<close>

definition println :: "string list \<Rightarrow> 'u world \<Rightarrow> 'u world" where
  "println ls w = w\<lparr>out := out w @ ls\<rparr>"

lemma println_nil [simp]: "println [] w = w"
  by (simp add: println_def)

lemma println_println [simp]: "println ls' (println ls w) = println (ls @ ls') w"
  by (simp add: println_def)

lemma println_out [simp]: "out (println ls w) = out w @ ls" "user (println ls w) = user w"
  by (simp_all add: println_def)

lemma act_bind_return [simp]: "act_bind (act_return a) k w = k a w"
  by (simp add: act_bind_def act_return_def)

lemma act_map_bind: "act_map g (act_bind x k) w = act_bind x (\<lambda>a. act_map g (k a)) w"
  by (simp add: act_map_def act_bind_def split: option.split)

lemma act_bind_map: "act_bind (act_map g x) k w = act_bind x (\<lambda>a. k (g a)) w"
  by (simp add: act_map_def act_bind_def split: option.split)

text \<open>
  A future: a finished value, or a segment to execute up to the next suspension point, whose
  execution gives the rest of the future.
\<close>

datatype ('u, 'a) fut = Done 'a | Seg "'u world \<Rightarrow> (('u, 'a) fut \<times> 'u world) option"

primrec fut_bind :: "('u, 'a) fut \<Rightarrow> ('a \<Rightarrow> ('u, 'b) fut) \<Rightarrow> ('u, 'b) fut" where
  "fut_bind (Done a) k = k a"
| "fut_bind (Seg p) k = Seg (map_option (map_prod (\<lambda>f. fut_bind f k) id) \<circ> p)"

text \<open>Drive a future to its end, as \<^verbatim>\<open>block_on\<close> of an executor with one task does.\<close>

primrec fut_run :: "('u, 'a) fut \<Rightarrow> ('u, 'a) act" where
  "fut_run (Done a) = act_return a"
| "fut_run (Seg p) = (\<lambda>w. case map_option (map_prod fut_run id) (p w) of
     None \<Rightarrow> None | Some (g, w') \<Rightarrow> g w')"

definition fut_act :: "('u, 'a) act \<Rightarrow> ('u, 'a) fut" where
  "fut_act x = Seg (act_map Done x)"

definition fut_map :: "('a \<Rightarrow> 'b) \<Rightarrow> ('u, 'a) fut \<Rightarrow> ('u, 'b) fut" where
  "fut_map g f = fut_bind f (\<lambda>a. Done (g a))"

definition fut_print :: "string list \<Rightarrow> ('u, unit) fut" where
  "fut_print ls = fut_act (\<lambda>w. Some ((), println ls w))"

lemma fut_run_act [simp]: "fut_run (fut_act x) w = x w"
  by (simp add: fut_act_def act_map_def act_return_def split: option.split)

lemma fut_run_bind: "fut_run (fut_bind f k) w = act_bind (fut_run f) (\<lambda>a. fut_run (k a)) w"
proof (induction f arbitrary: w)
  case (Done a)
  show ?case by simp
next
  case (Seg p)
  show ?case
  proof (cases "p w")
    case (Some x)
    obtain f w' where x: "x = (f, w')" by (cases x)
    have "fut_run (fut_bind f k) w' = act_bind (fut_run f) (\<lambda>a. fut_run (k a)) w'"
      using Some x by (intro Seg[of "p w" "(f, w')" f]) (simp_all, metis rangeI)
    then show ?thesis using Some x by (simp add: act_bind_def)
  qed (simp add: act_bind_def)
qed

lemma fut_run_map: "fut_run (fut_map g f) w = act_map g (fut_run f) w"
  by (simp add: fut_map_def fut_run_bind act_bind_def act_map_def act_return_def split: option.split)

lemma fut_run_print_bind: "fut_run (fut_bind (fut_print ls) k) w = fut_run (k ()) (println ls w)"
  by (simp add: fut_run_bind fut_print_def act_bind_def)

section \<open>Selectors, kinds and configuration\<close>

datatype index = IUnit | IU8 u8 | IU16 u16 | IU32 u32 | IU64 u64

text \<open>The implementations of \<^verbatim>\<open>Selector<Args>\<close>: \<^verbatim>\<open>()\<close>, \<^verbatim>\<open>u32\<close> and every \<^verbatim>\<open>Fn(&Args) -> I\<close>.\<close>

datatype 'a selector = SelUnit | SelU32 u32 | SelFn "'a \<Rightarrow> index"

fun sel_select :: "'a selector \<Rightarrow> 'a \<Rightarrow> index" where
  "sel_select SelUnit args = IUnit"
| "sel_select (SelU32 n) args = IU32 n"
| "sel_select (SelFn f) args = f args"

record ('k, 'a) forward_selector =
  fs_kind :: 'k
  fs_selector :: "'a selector"

definition fs_select :: "('k \<Rightarrow> index \<Rightarrow> 'h) \<Rightarrow> ('k, 'a) forward_selector \<Rightarrow> 'a \<Rightarrow> 'h" where
  "fs_select ksel s args = (let i = sel_select (fs_selector s) args in ksel (fs_kind s) i)"

record ('k, 'a) fwd_config =
  server :: "('k, 'a) forward_selector"
  thread :: "('k, 'a) forward_selector"

record metadata =
  md_name :: string
  md_method :: string

definition md_path :: "metadata \<Rightarrow> string" where
  "md_path md = md_name md @ ''::'' @ md_method md"

section \<open>Results of a forwarded call\<close>

datatype ('rx, 'r) forward_return = Raw 'r | Forward 'rx

datatype 'r completion = Value 'r | Panics string

fun expect :: "string \<Rightarrow> 'r option \<Rightarrow> 'r completion" where
  "expect msg (Some v) = Value v"
| "expect msg None = Panics msg"

text \<open>\<open>recv\<close> is the blocking call of the channel's receiver, \<open>await\<close> its future.\<close>

fun into_sync :: "('rx \<Rightarrow> ('u, 'r option) act) \<Rightarrow> ('rx, 'r) forward_return \<Rightarrow> ('u, 'r completion) act" where
  "into_sync recv (Raw v) = act_return (Value v)"
| "into_sync recv (Forward rx) =
     act_map (expect ''forwarded sync call dropped before completion'') (recv rx)"

fun into_async :: "('rx \<Rightarrow> ('u, 'r option) fut) \<Rightarrow> ('rx, 'r) forward_return \<Rightarrow> ('u, 'r completion) fut" where
  "into_async await (Raw v) = Done (Value v)"
| "into_async await (Forward rx) =
     fut_map (expect ''forwarded async call dropped before completion'') (await rx)"

section \<open>Synchronous methods\<close>

record ('k, 'a, 'u, 'r) sync_method =
  sm_config :: "('k, 'a) fwd_config"
  sm_meta :: metadata
  sm_method :: "'a \<Rightarrow> ('u, 'r) act"

definition call_raw :: "('k, 'a, 'u, 'r) sync_method \<Rightarrow> 'a \<Rightarrow> ('u, ('rx, 'r) forward_return) act" where
  "call_raw m args = act_map Raw (sm_method m args)"

definition call_local ::
  "('k \<Rightarrow> index \<Rightarrow> 'h) \<Rightarrow> ('h \<Rightarrow> bool)
   \<Rightarrow> ('h \<Rightarrow> ('k, 'a, 'u, 'r) sync_method \<Rightarrow> 'a \<Rightarrow> ('u, ('rx, 'r) forward_return) act)
   \<Rightarrow> ('k, 'a, 'u, 'r) sync_method \<Rightarrow> 'a \<Rightarrow> ('u, ('rx, 'r) forward_return) act" where
  "call_local ksel own fwd m args w =
     (let handle = fs_select ksel (thread (sm_config m)) args
      in if own handle then call_raw m args w else fwd handle m args w)"

definition call_rpc ::
  "('k \<Rightarrow> index \<Rightarrow> 'h) \<Rightarrow> ('h \<Rightarrow> bool)
   \<Rightarrow> ('h \<Rightarrow> ('k, 'a, 'u, 'r) sync_method \<Rightarrow> 'a \<Rightarrow> ('u, ('rx, 'r) forward_return) act)
   \<Rightarrow> ('k, 'a, 'u, 'r) sync_method \<Rightarrow> 'a \<Rightarrow> ('u, ('rx, 'r) forward_return) act" where
  "call_rpc ksel own fwd m args w =
     (let handle = fs_select ksel (server (sm_config m)) args
      in if own handle then call_local ksel own fwd m args w else fwd handle m args w)"

text \<open>The provided method \<^verbatim>\<open>forward_sync\<close> of the trait \<^verbatim>\<open>Forward\<close>.\<close>

definition default_forward_sync :: "('k, 'a, 'u, 'r) sync_method \<Rightarrow> 'a \<Rightarrow> ('u, ('rx, 'r) forward_return) act" where
  "default_forward_sync m args w =
     call_raw m args (println [''forward-sync :: '' @ md_path (sm_meta m) @ '' (fall back to raw)''] w)"

section \<open>Asynchronous methods\<close>

record ('k, 'a, 'u, 'r) async_method =
  am_config :: "('k, 'a) fwd_config"
  am_meta :: metadata
  am_method :: "'a \<Rightarrow> ('u, 'r) fut"

definition call_raw_async :: "('k, 'a, 'u, 'r) async_method \<Rightarrow> 'a \<Rightarrow> ('u, ('rx, 'r) forward_return) fut" where
  "call_raw_async m args = fut_map Raw (am_method m args)"

definition call_local_async ::
  "('k \<Rightarrow> index \<Rightarrow> 'h) \<Rightarrow> ('h \<Rightarrow> bool)
   \<Rightarrow> ('h \<Rightarrow> ('k, 'a, 'u, 'r) async_method \<Rightarrow> 'a \<Rightarrow> ('u, ('rx, 'r) forward_return) fut)
   \<Rightarrow> ('k, 'a, 'u, 'r) async_method \<Rightarrow> 'a \<Rightarrow> ('u, ('rx, 'r) forward_return) fut" where
  "call_local_async ksel own fwd m args =
     (let handle = fs_select ksel (thread (am_config m)) args
      in if own handle then call_raw_async m args else fwd handle m args)"

definition call_rpc_async ::
  "('k \<Rightarrow> index \<Rightarrow> 'h) \<Rightarrow> ('h \<Rightarrow> bool)
   \<Rightarrow> ('h \<Rightarrow> ('k, 'a, 'u, 'r) async_method \<Rightarrow> 'a \<Rightarrow> ('u, ('rx, 'r) forward_return) fut)
   \<Rightarrow> ('k, 'a, 'u, 'r) async_method \<Rightarrow> 'a \<Rightarrow> ('u, ('rx, 'r) forward_return) fut" where
  "call_rpc_async ksel own fwd m args =
     (let handle = fs_select ksel (server (am_config m)) args
      in if own handle then call_local_async ksel own fwd m args else fwd handle m args)"

definition default_forward_async :: "('k, 'a, 'u, 'r) async_method \<Rightarrow> 'a \<Rightarrow> ('u, ('rx, 'r) forward_return) fut" where
  "default_forward_async m args =
     fut_bind (fut_print [''forward-async :: '' @ md_path (am_meta m) @ '' (fall back to raw)''])
       (\<lambda>_. call_raw_async m args)"

section \<open>The implementations of the traits\<close>

datatype handle = UnitHandle | RpcForward | LocalForward

datatype kind = UnitKind | Center | Local | UserThread

fun kind_select :: "kind \<Rightarrow> index \<Rightarrow> handle" where
  "kind_select UnitKind _ = UnitHandle"
| "kind_select Center _ = RpcForward"
| "kind_select Local _ = LocalForward"
| "kind_select UserThread _ = LocalForward"

fun is_own_side :: "handle \<Rightarrow> bool" where
  "is_own_side UnitHandle = True"
| "is_own_side RpcForward = False"
| "is_own_side LocalForward = False"

text \<open>The arrow of the printed lines in UTF-8.\<close>

definition arrow :: string where "arrow = [CHR 0xE2, CHR 0x86, CHR 0x92]"

definition rpc_line :: "metadata \<Rightarrow> string" where
  "rpc_line md = arrow @ '' rpc hop :: '' @ md_path md"
definition local_line :: "metadata \<Rightarrow> string" where
  "local_line md = arrow @ '' local hop :: '' @ md_path md"
definition rpc_line_async :: "metadata \<Rightarrow> string" where
  "rpc_line_async md = arrow @ '' rpc hop (async) :: '' @ md_path md"
definition local_line_async :: "metadata \<Rightarrow> string" where
  "local_line_async md = arrow @ '' local hop (async) :: '' @ md_path md"

lemma call_local_mono [partial_function_mono]:
  assumes "\<And>h. mono_option (\<lambda>f. fwd f h m args w)"
  shows "mono_option (\<lambda>f. call_local ksel own (fwd f) m args w)"
  using assms unfolding call_local_def by (auto intro!: monotoneI simp: Let_def flat_ord_def monotone_def)

text \<open>
  The three implementations of \<^verbatim>\<open>forward_sync\<close>. The one of \<^verbatim>\<open>RpcForward\<close> calls \<^verbatim>\<open>call_local\<close>,
  which may come back to \<^verbatim>\<open>forward_sync\<close>.
\<close>

partial_function (option) forward_sync ::
  "handle \<Rightarrow> (kind, 'a, 'u, 'r) sync_method \<Rightarrow> 'a \<Rightarrow> 'u world
   \<Rightarrow> (('rx, 'r) forward_return \<times> 'u world) option" where
  "forward_sync h m args w = (case h of
     UnitHandle \<Rightarrow> default_forward_sync m args w
   | RpcForward \<Rightarrow> call_local kind_select is_own_side forward_sync m args (println [rpc_line (sm_meta m)] w)
   | LocalForward \<Rightarrow> call_raw m args (println [local_line (sm_meta m)] w))"


text \<open>
  The implementations of \<^verbatim>\<open>forward_async\<close>. A future contains the futures it awaits, so Rust
  only compiles routes of a finite depth; \<open>n\<close> bounds the depth, and a route that is deeper
  would never end.
\<close>

fun forward_async ::
  "nat \<Rightarrow> handle \<Rightarrow> (kind, 'a, 'u, 'r) async_method \<Rightarrow> 'a \<Rightarrow> ('u, ('rx, 'r) forward_return) fut" where
  "forward_async 0 h m args = Seg (\<lambda>_. None)"
| "forward_async (Suc n) UnitHandle m args = default_forward_async m args"
| "forward_async (Suc n) RpcForward m args =
     fut_bind (fut_print [rpc_line_async (am_meta m)])
       (\<lambda>_. call_local_async kind_select is_own_side (forward_async n) m args)"
| "forward_async (Suc n) LocalForward m args =
     fut_bind (fut_print [local_line_async (am_meta m)]) (\<lambda>_. call_raw_async m args)"

section \<open>The contract of a transport\<close>

text \<open>
  What a caller relies on: a handle of another side that is \<open>good\<close> for a call executes the
  raw method once, after printing \<open>lines\<close>. \<open>exec\<close> says what it means to execute a call, so
  that the same contract serves synchronous methods and futures.
\<close>

locale transport =
  fixes exec :: "'c \<Rightarrow> ('u, 'x) act"
    and raw :: "'m \<Rightarrow> 'a \<Rightarrow> 'c"
    and server_of :: "'m \<Rightarrow> 'a \<Rightarrow> 'h"
    and thread_of :: "'m \<Rightarrow> 'a \<Rightarrow> 'h"
    and own :: "'h \<Rightarrow> bool"
    and fwd :: "'h \<Rightarrow> 'm \<Rightarrow> 'a \<Rightarrow> 'c"
    and local :: "'m \<Rightarrow> 'a \<Rightarrow> 'c"
    and rpc :: "'m \<Rightarrow> 'a \<Rightarrow> 'c"
    and good :: "'h \<Rightarrow> 'm \<Rightarrow> 'a \<Rightarrow> bool"
    and lines :: "'h \<Rightarrow> 'm \<Rightarrow> 'a \<Rightarrow> string list"
  assumes local_exec: "exec (local m a) w =
      (if own (thread_of m a) then exec (raw m a) w else exec (fwd (thread_of m a) m a) w)"
    and rpc_exec: "exec (rpc m a) w =
      (if own (server_of m a) then exec (local m a) w else exec (fwd (server_of m a) m a) w)"
    and delivers: "\<not> own h \<Longrightarrow> good h m a \<Longrightarrow> exec (fwd h m a) w = exec (raw m a) (println (lines h m a) w)"
begin

definition thread_lines :: "'m \<Rightarrow> 'a \<Rightarrow> string list" where
  "thread_lines m a = (if own (thread_of m a) then [] else lines (thread_of m a) m a)"

definition route_lines :: "'m \<Rightarrow> 'a \<Rightarrow> string list" where
  "route_lines m a = (if own (server_of m a) then thread_lines m a else lines (server_of m a) m a)"

definition routable :: "'m \<Rightarrow> 'a \<Rightarrow> bool" where
  "routable m a \<longleftrightarrow> (if own (server_of m a) then own (thread_of m a) \<or> good (thread_of m a) m a
     else good (server_of m a) m a)"

lemma local_delivers:
  "own (thread_of m a) \<or> good (thread_of m a) m a \<Longrightarrow> exec (local m a) w = exec (raw m a) (println (thread_lines m a) w)"
  by (auto simp: local_exec thread_lines_def delivers)

lemma rpc_delivers:
  "routable m a \<Longrightarrow> exec (rpc m a) w = exec (raw m a) (println (route_lines m a) w)"
  by (auto simp: rpc_exec routable_def route_lines_def local_delivers delivers split: if_splits)

end

section \<open>The handles of the repository meet the contract\<close>

text \<open>What a forwarded call prints, by handle: nothing, the hop to the server, the hop to the thread.\<close>

fun hop_lines :: "string \<Rightarrow> string \<Rightarrow> handle \<Rightarrow> handle \<Rightarrow> string list" where
  "hop_lines r l UnitHandle t = (if t = LocalForward then [l] else [])"
| "hop_lines r l RpcForward t = r # (if t = LocalForward then [l] else [])"
| "hop_lines r l LocalForward t = [l]"

text \<open>
  The handles a method selects. A route ends if the thread is not forwarded to \<^verbatim>\<open>Center\<close>, or
  the call never reaches the thread selection.
\<close>

definition server_handle :: "(kind, 'a) fwd_config \<Rightarrow> 'a \<Rightarrow> handle" where
  "server_handle c args = fs_select kind_select (server c) args"

definition thread_handle :: "(kind, 'a) fwd_config \<Rightarrow> 'a \<Rightarrow> handle" where
  "thread_handle c args = fs_select kind_select (thread c) args"

definition route_ends :: "(kind, 'a) fwd_config \<Rightarrow> 'a \<Rightarrow> bool" where
  "route_ends c args \<longleftrightarrow> server_handle c args = LocalForward \<or> thread_handle c args \<noteq> RpcForward"

lemma forward_sync_simps:
  "forward_sync UnitHandle m a w = default_forward_sync m a w"
  "forward_sync RpcForward m a w =
     call_local kind_select is_own_side forward_sync m a (println [rpc_line (sm_meta m)] w)"
  "forward_sync LocalForward m a w = call_raw m a (println [local_line (sm_meta m)] w)"
  by (subst forward_sync.simps; simp)+

definition good_hop :: "(kind, 'a) fwd_config \<Rightarrow> handle \<Rightarrow> 'a \<Rightarrow> bool" where
  "good_hop c h a \<longleftrightarrow> h = LocalForward \<or> thread_handle c a \<noteq> RpcForward"

definition hop_of :: "string \<Rightarrow> string \<Rightarrow> (kind, 'a) fwd_config \<Rightarrow> handle \<Rightarrow> 'a \<Rightarrow> string list" where
  "hop_of r l c h a = hop_lines r l h (thread_handle c a)"

lemma forward_sync_delivers:
  assumes "\<not> is_own_side h" and "good_hop (sm_config m) h a"
  shows "forward_sync h m a w = call_raw m a
    (println (hop_of (rpc_line (sm_meta m)) (local_line (sm_meta m)) (sm_config m) h a) w)"
proof (cases h)
  case RpcForward
  then have "thread_handle (sm_config m) a = UnitHandle \<or> thread_handle (sm_config m) a = LocalForward"
    using assms(2) by (cases "thread_handle (sm_config m) a") (simp_all add: good_hop_def)
  then show ?thesis using RpcForward
    by (auto simp: forward_sync_simps(2) call_local_def hop_of_def simp flip: thread_handle_def)
      (simp add: forward_sync_simps(3))
qed (use assms in \<open>simp_all add: forward_sync_simps(3) hop_of_def\<close>)

lemma forward_async_delivers:
  assumes "\<not> is_own_side h" and "good_hop (am_config m) h a"
  shows "fut_run (forward_async (Suc (Suc n)) h m a) w = fut_run (call_raw_async m a)
    (println (hop_of (rpc_line_async (am_meta m)) (local_line_async (am_meta m)) (am_config m) h a) w)"
proof (cases h)
  case RpcForward
  then have "thread_handle (am_config m) a = UnitHandle \<or> thread_handle (am_config m) a = LocalForward"
    using assms(2) by (cases "thread_handle (am_config m) a") (simp_all add: good_hop_def)
  then show ?thesis using RpcForward
    by (auto simp: call_local_async_def hop_of_def fut_run_print_bind simp flip: thread_handle_def)
qed (use assms in \<open>simp_all add: fut_run_print_bind hop_of_def\<close>)

interpretation sync: transport
  "\<lambda>x. x" call_raw "\<lambda>m. server_handle (sm_config m)" "\<lambda>m. thread_handle (sm_config m)" is_own_side
  forward_sync "call_local kind_select is_own_side forward_sync" "call_rpc kind_select is_own_side forward_sync"
  "\<lambda>h m. good_hop (sm_config m) h"
  "\<lambda>h m. hop_of (rpc_line (sm_meta m)) (local_line (sm_meta m)) (sm_config m) h"
  by unfold_locales
    (simp_all add: call_local_def call_rpc_def server_handle_def thread_handle_def forward_sync_delivers)

interpretation async: transport
  fut_run call_raw_async "\<lambda>m. server_handle (am_config m)" "\<lambda>m. thread_handle (am_config m)" is_own_side
  "forward_async (Suc (Suc n))" "call_local_async kind_select is_own_side (forward_async (Suc (Suc n)))"
  "call_rpc_async kind_select is_own_side (forward_async (Suc (Suc n)))"
  "\<lambda>h m. good_hop (am_config m) h"
  "\<lambda>h m. hop_of (rpc_line_async (am_meta m)) (local_line_async (am_meta m)) (am_config m) h" for n
  by unfold_locales
    (simp_all add: call_local_async_def call_rpc_async_def server_handle_def thread_handle_def
      forward_async_delivers del: forward_async.simps)

text \<open>A handle type that keeps the provided \<^verbatim>\<open>forward_sync\<close> meets it for every call.\<close>

interpretation provided: transport
  "\<lambda>x. x" call_raw "\<lambda>m. fs_select ksel (server (sm_config m))" "\<lambda>m. fs_select ksel (thread (sm_config m))"
  "\<lambda>h. False" "\<lambda>h. default_forward_sync" "call_local ksel (\<lambda>h. False) (\<lambda>h. default_forward_sync)"
  "call_rpc ksel (\<lambda>h. False) (\<lambda>h. default_forward_sync)" "\<lambda>h m a. True"
  "\<lambda>h m a. [''forward-sync :: '' @ md_path (sm_meta m) @ '' (fall back to raw)'']" for ksel
  by unfold_locales (simp_all add: call_local_def call_rpc_def default_forward_sync_def)


section \<open>The proxy of \<^verbatim>\<open>examples/test.rs\<close>\<close>

record 't forward_proxy =
  fp_target :: 't

definition forward_proxy_new :: "'t \<Rightarrow> 't forward_proxy" where
  "forward_proxy_new target = \<lparr>fp_target = target\<rparr>"

definition as_raw_ref :: "'t forward_proxy \<Rightarrow> 't" where
  "as_raw_ref p = fp_target p"

record target =
  something :: string

definition raw_get_remote_something :: "target \<Rightarrow> ('u, string) act" where
  "raw_get_remote_something self = act_return (''raw '' @ something self)"

definition raw_async_get_remote :: "target \<Rightarrow> ('u, string) fut" where
  "raw_async_get_remote self = fut_act (act_return (''raw async '' @ something self))"

definition get_remote_something :: "target \<Rightarrow> ('u, string) act" where
  "get_remote_something self = raw_get_remote_something self"

definition async_get_remote :: "target \<Rightarrow> ('u, string) fut" where
  "async_get_remote self = raw_async_get_remote self"

definition unit_selector :: "(kind, 'a) forward_selector" where
  "unit_selector = \<lparr>fs_kind = UnitKind, fs_selector = SelUnit\<rparr>"

definition unit_config :: "(kind, 'a) fwd_config" where
  "unit_config = \<lparr>server = unit_selector, thread = unit_selector\<rparr>"

definition proxy_get_remote_something ::
  "('rx \<Rightarrow> ('u, string option) act) \<Rightarrow> target forward_proxy \<Rightarrow> ('u, string completion) act" where
  "proxy_get_remote_something recv self =
     (let meta = \<lparr>md_name = ''something1234'', md_method = ''get_remote_something''\<rparr>;
          method = \<lparr>sm_config = unit_config, sm_meta = meta,
                    sm_method = (\<lambda>target. get_remote_something (as_raw_ref target))\<rparr>
      in act_bind (call_rpc kind_select is_own_side forward_sync method self) (into_sync recv))"

definition proxy_async_get_remote ::
  "nat \<Rightarrow> ('rx \<Rightarrow> ('u, string option) fut) \<Rightarrow> target forward_proxy \<Rightarrow> ('u, string completion) fut" where
  "proxy_async_get_remote n await self =
     (let meta = \<lparr>md_name = ''something1234'', md_method = ''async_get_remote''\<rparr>;
          method = \<lparr>am_config = unit_config, am_meta = meta,
                    am_method = (\<lambda>target. async_get_remote (as_raw_ref target))\<rparr>
      in fut_bind (call_rpc_async kind_select is_own_side (forward_async n) method self) (into_async await))"

section \<open>Properties\<close>

lemma forward_sync_loops:
  fixes m :: "(kind, 'a, 'u, 'r) sync_method" and y :: "('rx, 'r) forward_return \<times> 'u world"
  assumes "forward_sync h m a w = Some y" and "h = RpcForward" and "thread_handle (sm_config m) a = RpcForward"
  shows False
proof -
  have "h = RpcForward \<longrightarrow> thread_handle (sm_config m) a \<noteq> RpcForward"
    using assms(1)
  proof (rule forward_sync.raw_induct[where P = "\<lambda>h m a w y. h = RpcForward \<longrightarrow>
      thread_handle (sm_config m) a \<noteq> RpcForward", rotated])
    fix go :: "handle \<Rightarrow> (kind, 'a, 'u, 'r) sync_method \<Rightarrow> 'a \<Rightarrow> 'u world
        \<Rightarrow> (('rx, 'r) forward_return \<times> 'u world) option"
      and h w and m :: "(kind, 'a, 'u, 'r) sync_method" and a
      and y :: "('rx, 'r) forward_return \<times> 'u world"
    assume IH: "\<And>h m a w y. go h m a w = Some y \<Longrightarrow> h = RpcForward \<longrightarrow> thread_handle (sm_config m) a \<noteq> RpcForward"
      and step: "(case h of UnitHandle \<Rightarrow> default_forward_sync m a w
        | RpcForward \<Rightarrow> call_local kind_select is_own_side go m a (println [rpc_line (sm_meta m)] w)
        | LocalForward \<Rightarrow> call_raw m a (println [local_line (sm_meta m)] w)) = Some y"
    show "h = RpcForward \<longrightarrow> thread_handle (sm_config m) a \<noteq> RpcForward"
    proof (intro impI notI)
      assume "h = RpcForward" and t: "thread_handle (sm_config m) a = RpcForward"
      with step have "go RpcForward m a (println [rpc_line (sm_meta m)] w) = Some y"
        by (simp add: call_local_def flip: thread_handle_def)
      with IH t show False by blast
    qed
  qed
  then show False using assms by simp
qed

lemma sync_routable: "sync.routable m a \<longleftrightarrow> route_ends (sm_config m) a"
  by (cases "server_handle (sm_config m) a"; cases "thread_handle (sm_config m) a")
    (simp_all add: sync.routable_def route_ends_def good_hop_def)

lemma async_routable: "async.routable m a \<longleftrightarrow> route_ends (am_config m) a"
  by (cases "server_handle (am_config m) a"; cases "thread_handle (am_config m) a")
    (simp_all add: async.routable_def route_ends_def good_hop_def)

definition route_prints :: "string \<Rightarrow> string \<Rightarrow> (kind, 'a) fwd_config \<Rightarrow> 'a \<Rightarrow> string list" where
  "route_prints r l c a = hop_lines r l (server_handle c a) (thread_handle c a)"

lemma route_lines_eq:
  "route_ends (sm_config m) a \<Longrightarrow>
   sync.route_lines m a = route_prints (rpc_line (sm_meta m)) (local_line (sm_meta m)) (sm_config m) a"
  by (cases "server_handle (sm_config m) a"; cases "thread_handle (sm_config m) a")
    (simp_all add: sync.route_lines_def sync.thread_lines_def hop_of_def route_prints_def route_ends_def)

lemma route_lines_async_eq:
  "route_ends (am_config m) a \<Longrightarrow>
   async.route_lines m a = route_prints (rpc_line_async (am_meta m)) (local_line_async (am_meta m)) (am_config m) a"
  by (cases "server_handle (am_config m) a"; cases "thread_handle (am_config m) a")
    (simp_all add: async.route_lines_def async.thread_lines_def hop_of_def route_prints_def route_ends_def)

lemma call_rpc_cases:
  fixes m :: "(kind, 'a, 'u, 'r) sync_method"
  shows "(call_rpc kind_select is_own_side forward_sync m a w :: (('rx, 'r) forward_return \<times> 'u world) option) =
     (if route_ends (sm_config m) a
      then call_raw m a (println (route_prints (rpc_line (sm_meta m)) (local_line (sm_meta m)) (sm_config m) a) w)
      else None)"
proof (cases "route_ends (sm_config m) a")
  case True
  then show ?thesis
    using sync.rpc_delivers[OF iffD2[OF sync_routable True]] by (simp only: route_lines_eq if_True)
next
  case False
  then have h: "server_handle (sm_config m) a \<noteq> LocalForward" "thread_handle (sm_config m) a = RpcForward"
    by (auto simp: route_ends_def)
  have "(forward_sync RpcForward m a w' :: (('rx, 'r) forward_return \<times> 'u world) option) = None" for w'
    using forward_sync_loops[of RpcForward m a w'] h(2) by (meson option.exhaust)
  then show ?thesis using h False
    by (cases "server_handle (sm_config m) a")
      (auto simp: call_rpc_def call_local_def simp flip: server_handle_def thread_handle_def)
qed

text \<open>
  C17. A synchronous \<^verbatim>\<open>call_rpc\<close> has two outcomes. If the route ends, it executes the raw method
  exactly once, in the caller's world with the lines of the hops printed, and returns its result
  as \<^verbatim>\<open>Raw\<close>. If the thread is forwarded to the server handle again and the call gets to the
  thread selection, it never returns.
\<close>

theorem call_rpc_outcome:
  fixes m :: "(kind, 'a, 'u, 'r) sync_method"
  shows "(call_rpc kind_select is_own_side forward_sync m a w :: (('rx, 'r) forward_return \<times> 'u world) option) =
     (if route_ends (sm_config m) a
      then call_raw m a (println (route_prints (rpc_line (sm_meta m)) (local_line (sm_meta m)) (sm_config m) a) w)
      else None)"
  by (rule call_rpc_cases)

lemma call_rpc_outcome_witness:
  "call_rpc kind_select is_own_side forward_sync
     \<lparr>sm_config = \<lparr>server = \<lparr>fs_kind = Center, fs_selector = SelUnit\<rparr>,
                    thread = \<lparr>fs_kind = UserThread, fs_selector = SelU32 2\<rparr>\<rparr>,
      sm_meta = \<lparr>md_name = ''T'', md_method = ''f''\<rparr>, sm_method = (\<lambda>n. act_return (n + 1))\<rparr> (4::nat)
     \<lparr>out = [], user = ()\<rparr>
   = Some (Raw 5, \<lparr>out = [arrow @ '' rpc hop :: T::f'', arrow @ '' local hop :: T::f''], user = ()\<rparr>)"
  by (subst call_rpc_outcome)
    (simp add: route_ends_def server_handle_def thread_handle_def fs_select_def route_prints_def call_raw_def
      act_map_def act_return_def println_def rpc_line_def local_line_def md_path_def)

lemma call_rpc_async_delivers:
  assumes "route_ends (am_config m) a" and "2 \<le> n"
  shows "fut_run (call_rpc_async kind_select is_own_side (forward_async n) m a) w =
     fut_run (call_raw_async m a)
       (println (route_prints (rpc_line_async (am_meta m)) (local_line_async (am_meta m)) (am_config m) a) w)"
proof -
  obtain k where "n = Suc (Suc k)" using assms(2) by (auto dest: le_Suc_ex)
  then show ?thesis
    using async.rpc_delivers[OF iffD2[OF async_routable assms(1)]]
    by (simp only: route_lines_async_eq[OF assms(1)])
qed

text \<open>
  C18. Awaiting an asynchronous \<^verbatim>\<open>call_rpc\<close> whose route ends executes the raw future once, after
  printing the lines of the asynchronous hops; a nesting depth of two futures is enough.
\<close>

theorem call_rpc_async_outcome:
  assumes "route_ends (am_config m) a" and "2 \<le> n"
  shows "fut_run (call_rpc_async kind_select is_own_side (forward_async n) m a) w =
     fut_run (call_raw_async m a)
       (println (route_prints (rpc_line_async (am_meta m)) (local_line_async (am_meta m)) (am_config m) a) w)"
  using assms by (rule call_rpc_async_delivers)

lemma call_rpc_async_outcome_witness:
  "fut_run (call_rpc_async kind_select is_own_side (forward_async 2)
     \<lparr>am_config = \<lparr>server = \<lparr>fs_kind = Center, fs_selector = SelUnit\<rparr>,
                    thread = \<lparr>fs_kind = UnitKind, fs_selector = SelUnit\<rparr>\<rparr>,
      am_meta = \<lparr>md_name = ''T'', md_method = ''f''\<rparr>, am_method = (\<lambda>n. Done (n + 1))\<rparr> (4::nat))
     \<lparr>out = [], user = ()\<rparr>
   = Some (Raw 5, \<lparr>out = [arrow @ '' rpc hop (async) :: T::f''], user = ()\<rparr>)"
  by (subst call_rpc_async_outcome)
    (simp_all add: route_ends_def server_handle_def thread_handle_def fs_select_def route_prints_def
      call_raw_async_def fut_map_def act_return_def println_def rpc_line_async_def md_path_def)

text \<open>
  Transparency. A forwarded call followed by the \<^verbatim>\<open>into_sync\<close> or \<^verbatim>\<open>into_async\<close> of the generated code has the
  result of calling the method directly and its effect on the state; only lines are printed.
\<close>

lemma forwarding_transparent:
  assumes "route_ends (sm_config m) a"
  shows "act_bind (call_rpc kind_select is_own_side forward_sync m a) (into_sync recv) w =
     act_map Value (sm_method m a)
       (println (route_prints (rpc_line (sm_meta m)) (local_line (sm_meta m)) (sm_config m) a) w)"
  using assms
  by (simp add: act_bind_def act_map_def call_rpc_cases act_return_def call_raw_def split: option.splits)

lemma forwarding_transparent_async:
  assumes "route_ends (am_config m) a" and "2 \<le> n"
  shows "fut_run (fut_bind (call_rpc_async kind_select is_own_side (forward_async n) m a) (into_async await)) w =
     act_map Value (fut_run (am_method m a))
       (println (route_prints (rpc_line_async (am_meta m)) (local_line_async (am_meta m)) (am_config m) a) w)"
  by (simp add: fut_run_bind act_bind_def call_rpc_async_delivers[OF assms] call_raw_async_def fut_run_map act_map_def
      act_return_def split: option.splits)

text \<open>
  The proxy of \<^verbatim>\<open>examples/test.rs\<close> answers what its target answers, synchronously and
  asynchronously, without a hop and without touching the channel: for a target whose text is
  \<open>x\<close>, \<^verbatim>\<open>raw x\<close> and \<^verbatim>\<open>raw async x\<close>.
\<close>

lemma proxy_answers_target:
  "proxy_get_remote_something recv (forward_proxy_new t) w = Some (Value (''raw '' @ something t), w)
   \<and> fut_run (proxy_async_get_remote (Suc (Suc n)) await (forward_proxy_new t)) w
     = Some (Value (''raw async '' @ something t), w)"
  by (simp add: proxy_get_remote_something_def proxy_async_get_remote_def call_rpc_def call_local_def
      call_rpc_async_def call_local_async_def unit_config_def unit_selector_def fs_select_def
      call_raw_def call_raw_async_def forward_proxy_new_def as_raw_ref_def get_remote_something_def
      async_get_remote_def raw_get_remote_something_def raw_async_get_remote_def fut_run_bind fut_run_map
      act_bind_def act_map_def act_return_def Let_def)

end
