(* ===== verification/ForwardChannel.thy ===== *)
theory ForwardChannel
  imports OneshotSpec ForwardCore
begin

text \<open>
  A forwarded call over the one-shot channel: the composition of \<open>ForwardCore\<close> and the channel of
  \<open>OneshotSpec\<close>. \<^verbatim>\<open>ForwardReturn::Forward\<close> holds the receiver of a one-shot channel. The completed call of the
  receiving thread \<open>i\<close> in a state of the channel, blocking or polled to readiness, is the
  \<open>recv\<close> and \<open>await\<close> that \<^verbatim>\<open>into_sync\<close> and \<^verbatim>\<open>into_async\<close> of \<open>ForwardCore\<close> take as parameters.
\<close>

fun call_result :: "'v ret \<Rightarrow> 'v option option" where
  "call_result (RecvRet x) = Some x"
| "call_result (PollReady x) = Some x"
| "call_result _ = None"

definition chan_recv :: "nat \<Rightarrow> ('v, 'x) chan \<Rightarrow> ('u, 'v option) act" where
  "chan_recv i s w = (case pc s (Rcv i) of Ret r \<Rightarrow> map_option (\<lambda>x. (x, w)) (call_result r) | _ \<Rightarrow> None)"

definition chan_await :: "nat \<Rightarrow> ('v, 'x) chan \<Rightarrow> ('u, 'v option) fut" where
  "chan_await i s = fut_act (chan_recv i s)"

lemma chan_recv_Some:
  "chan_recv i s w = Some (x, w') \<longleftrightarrow> w' = w \<and> (pc s (Rcv i) = Ret (RecvRet x) \<or> pc s (Rcv i) = Ret (PollReady x))"
proof (cases "pc s (Rcv i)")
  case (Ret r)
  then show ?thesis by (cases r) (auto simp: chan_recv_def)
qed (simp_all add: chan_recv_def)

lemma run_into_async:
  "fut_run (into_async (chan_await i) (Forward s)) w
   = act_map (expect ''forwarded async call dropped before completion'') (chan_recv i s) w"
  by (simp add: fut_run_map chan_await_def act_map_def)

text \<open>What the completed call found: the value that was sent, or no value ever.\<close>

lemma chan_recv_outcome:
  assumes "chan_reach f mb ww s" and "chan_recv i s w = Some (x, w')"
  shows "w' = w \<and> (case x of Some v \<Rightarrow> sent s = Some v
    | None \<Rightarrow> (leaving (pc s Snd) \<or> latest s = 8) \<and> (\<forall>t. (chan_step f mb ww)\<^sup>*\<^sup>* s t \<longrightarrow> \<not> is_ready (latest t)))"
proof -
  have p: "pc s (Rcv i) = Ret (RecvRet x) \<or> pc s (Rcv i) = Ret (PollReady x)" and w: "w' = w"
    using assms(2) by (simp_all add: chan_recv_Some)
  obtain \<phi> where \<phi>: "fate_of s \<phi>" using reach_facts(3)[OF assms(1)] by (auto simp: fate_inv_def)
  show ?thesis
  proof (cases x)
    case (Some v)
    then have "\<phi> = Carried (Rcv i) v" using fate_carried[OF \<phi>, of "Rcv i" v] p by auto
    then show ?thesis using \<phi> Some w by (simp add: fate_of_def)
  next
    case None
    then have g: "gives_up (pc s (Rcv i))" using p by auto
    show ?thesis using gave_up_final[OF assms(1) g] None w by auto
  qed
qed

text \<open>
  C40. A forwarded call that is answered over the one-shot channel: when \<^verbatim>\<open>into_sync\<close> or
  \<^verbatim>\<open>into_async\<close> returns, it returns the very value the executing side sent; it panics, with the
  message of its \<^verbatim>\<open>expect\<close>, only if the sender is gone or going or the value was taken, and then
  no value can be offered on the channel any more.
\<close>

theorem forwarded_result:
  assumes "chan_reach f mb ww s"
    and "into_sync (chan_recv i) (Forward s) w = Some (c, w')
      \<or> fut_run (into_async (chan_await i) (Forward s)) w = Some (c, w')"
  shows "w' = w \<and> (case c of Value v \<Rightarrow> sent s = Some v
    | Panics msg \<Rightarrow> msg \<in> {''forwarded sync call dropped before completion'', ''forwarded async call dropped before completion''}
        \<and> (leaving (pc s Snd) \<or> latest s = 8) \<and> (\<forall>t. (chan_step f mb ww)\<^sup>*\<^sup>* s t \<longrightarrow> \<not> is_ready (latest t)))"
proof -
  obtain x msg where x: "chan_recv i s w = Some (x, w')" "c = expect msg x"
    and msg: "msg \<in> {''forwarded sync call dropped before completion'', ''forwarded async call dropped before completion''}"
    using assms(2) unfolding run_into_async by (auto simp: act_map_def split: option.splits)
  show ?thesis using chan_recv_outcome[OF assms(1) x(1)] x(2) msg by (cases x) auto
qed

text \<open>Both outcomes occur: a value is received, and a late receiver panics.\<close>

lemma forwarded_result_witness:
  "\<exists>s. run all_features (=) (=) late_run channel = Some s
     \<and> into_sync (chan_recv 1) (Forward s) \<lparr>out = [], user = ()\<rparr>
       = Some (Panics ''forwarded sync call dropped before completion'', \<lparr>out = [], user = ()\<rparr>)
     \<and> (leaving (pc s Snd) \<or> latest s = 8)"
proof -
  obtain s :: "(nat, nat) chan" where s: "run all_features (=) (=) late_run channel = Some s" "pc s (Rcv 1) = Ret (RecvRet None)"
    using late_run_ok by blast
  have i: "into_sync (chan_recv 1) (Forward s) \<lparr>out = [], user = ()\<rparr>
       = Some (Panics ''forwarded sync call dropped before completion'', \<lparr>out = [], user = ()\<rparr>)"
    using s(2) by (simp add: chan_recv_def act_map_def)
  have "leaving (pc s Snd) \<or> latest s = 8"
    using forwarded_result[OF run_channel[OF s(1)] disjI1[OF i]] by simp
  with s(1) i show ?thesis by blast
qed

end
