(* ===== verification/ForwardSketch.thy ===== *)
theory ForwardSketch
  imports ForwardCore
begin

text \<open>
  The sketch of dynamic forwarding in \<^verbatim>\<open>src/forward/mod.rs\<close>: the registry of proxies and, in its test
  module, the hand-written proxy whose transport is not implemented. \<open>None\<close> is a call that does not
  return a value (\<^verbatim>\<open>todo!\<close> panics).
\<close>

section \<open>The registry\<close>

record 'm sketch_proxy =
  sp_target :: 'm
  sp_methods :: "string \<Rightarrow> unit option"

type_synonym 'm registry = "string \<Rightarrow> 'm sketch_proxy option"

text \<open>The static map starts empty and has no operation that adds to it.\<close>

definition registry_default :: "'m registry" where
  "registry_default = Map.empty"

definition get_forward :: "'m registry \<Rightarrow> string \<Rightarrow> string \<Rightarrow> unit option" where
  "get_forward registry proxy function = (case registry proxy of None \<Rightarrow> None | Some forward \<Rightarrow> Some ())"

lemma get_forward_static: "get_forward registry_default proxy function = None"
  by (simp add: get_forward_def registry_default_def)

section \<open>The hand-written proxy\<close>

record sketch_target = something :: string

definition sketch_get_remote_something :: "sketch_target \<Rightarrow> string" where
  "sketch_get_remote_something t = something t"

definition sketch_async_get_remote :: "string option" where
  "sketch_async_get_remote = None"

record forward_pack =
  fp_proxy :: string
  fp_function :: string
  fp_args :: "u8 list"
  fp_index :: u8

definition sketch_serialize :: "u8 list" where "sketch_serialize = []"

text \<open>\<^verbatim>\<open>T::default()\<close> is the parameter \<open>dflt\<close>.\<close>

definition sketch_deserialize :: "'t \<Rightarrow> u8 list \<Rightarrow> 't" where
  "sketch_deserialize dflt bytes = dflt"

text \<open>The future is dropped without being polled.\<close>

definition sketch_block_on :: "'t \<Rightarrow> ('u, u8 list) fut \<Rightarrow> 't" where
  "sketch_block_on dflt f = sketch_deserialize dflt []"

definition sketch_send_message :: "forward_pack \<Rightarrow> ('u, u8 list) fut" where
  "sketch_send_message msg = Done []"

definition socket_forward_remote :: "string \<Rightarrow> string \<Rightarrow> u8 list \<Rightarrow> ('u, u8 list) fut" where
  "socket_forward_remote proxy function args =
     sketch_send_message \<lparr>fp_proxy = proxy, fp_function = function, fp_args = args, fp_index = 0\<rparr>"

definition sketch_proxy_get_remote_something :: "sketch_target \<Rightarrow> string" where
  "sketch_proxy_get_remote_something target =
     (let args = sketch_serialize;
          f = socket_forward_remote ''CrossSomething'' ''get_remote_something'' args :: (unit, u8 list) fut
      in sketch_block_on [] f)"

definition sketch_proxy_async_get_remote :: "('u, string) fut" where
  "sketch_proxy_async_get_remote =
     (let args = sketch_serialize
      in fut_bind (socket_forward_remote ''CrossSomething'' ''async_get_remote'' args) (\<lambda>bytes. Done (sketch_deserialize [] bytes)))"

text \<open>The proxy answers the default value, whatever its target holds.\<close>

lemma sketch_proxy_default:
  "sketch_proxy_get_remote_something target = []" "fut_run sketch_proxy_async_get_remote w = Some ([], w)"
  by (simp_all add: sketch_proxy_get_remote_something_def sketch_block_on_def sketch_deserialize_def
      sketch_proxy_async_get_remote_def socket_forward_remote_def sketch_send_message_def act_return_def Let_def)

end
