(* ===== verification/AttrConfig.thy ===== *)
theory AttrConfig
  imports Prelude
begin

text \<open>
  The attribute grammar of \<^verbatim>\<open>forward_macro\<close>: the parser that \<^verbatim>\<open>named_attrs_config!\<close>
  generates for \<^verbatim>\<open>#[forward(...)]\<close> and \<^verbatim>\<open>#[forward_proxy(...)]\<close>
  (\<^verbatim>\<open>forward_macro/src/config/macros.rs\<close>, \<^verbatim>\<open>config/mod.rs\<close>), and the search for the attribute
  (\<^verbatim>\<open>parser.rs\<close>). Settings may be positional (elided names, in a fixed order) or named; a
  positional setting may not follow a named one. The parsers of \<^verbatim>\<open>syn\<close> are parameters.
\<close>

section \<open>Tokens, settings and schemas\<close>

datatype token = Ident string | PathSep | EqSign | Comma | Str string | Num int | Paren "token list" | Other nat

text \<open>The type of a setting: \<^verbatim>\<open>PathSelector\<close>, \<^verbatim>\<open>LitStr\<close> or \<^verbatim>\<open>LitInt\<close>.\<close>

datatype attr_ty = TPathSelector | TLitStr | TLitInt

datatype ('p, 'e) attr = PathSelector 'p "'e option" | LitStr string | LitInt int

text \<open>What an invocation of \<^verbatim>\<open>named_attrs_config!\<close> declares, after merging the elided names.\<close>

record schema =
  elided :: "(string \<times> attr_ty) list"
  named :: "(string \<times> attr_ty) list"

definition proxy_config :: schema where
  "proxy_config = \<lparr>elided = [(''name'', TLitStr)], named = [(''name'', TLitStr)]\<rparr>"

definition forward_config :: schema where
  "forward_config =
     \<lparr>elided = [(''server'', TPathSelector), (''thread'', TPathSelector)],
      named = [(''server'', TPathSelector), (''thread'', TPathSelector), (''name'', TLitStr),
               (''timeout'', TLitInt)]\<rparr>"

text \<open>
  The generated struct, one optional field per name. A failed parse is a \<^verbatim>\<open>syn::Error\<close>;
  \<open>Panic\<close> stands for a failing \<^verbatim>\<open>assert!\<close> or \<^verbatim>\<open>unwrap\<close>, \<open>NoFuel\<close> for a loop bound of the model.
\<close>

type_synonym ('p, 'e) config = "string \<Rightarrow> ('p, 'e) attr option"

datatype cfg_error = Syn string | Duplicated | ExpectedNamed | ExpectedComma | ExpectedParens | Panic | NoFuel

definition empty_config :: "('p, 'e) config" where
  "empty_config = (\<lambda>_. None)"

text \<open>The parsers of \<^verbatim>\<open>syn\<close> the code calls, and \<^verbatim>\<open>Path::is_ident\<close>.\<close>

type_synonym 'a parser = "token list \<Rightarrow> (cfg_error, 'a \<times> token list) result"

record ('p, 'e) syn =
  syn_path :: "'p parser"
  syn_is_ident :: "'p \<Rightarrow> string \<Rightarrow> bool"
  syn_expr :: "'e parser"
  syn_str :: "string parser"
  syn_int :: "int parser"

section \<open>The parser\<close>

text \<open>
  \<^verbatim>\<open>impl Parse for PathSelector\<close>. The content of the parentheses must be one expression;
  \<^verbatim>\<open>syn\<close> reports tokens left in it when the whole parse ends, the model at once.
\<close>

definition parse_path_selector :: "('p, 'e) syn \<Rightarrow> ('p, 'e) attr parser" where
  "parse_path_selector sy ts = bind_result (syn_path sy ts) (\<lambda>(path, ts1).
     case ts1 of
       Paren content # ts2 \<Rightarrow>
         if content = [] then Inr (PathSelector path None, ts2)
         else bind_result (syn_expr sy content) (\<lambda>(e, left).
           if left = [] then Inr (PathSelector path (Some e), ts2) else Inl (Syn ''unexpected token''))
     | _ \<Rightarrow> Inr (PathSelector path None, ts1))"

fun parse_attr :: "('p, 'e) syn \<Rightarrow> attr_ty \<Rightarrow> ('p, 'e) attr parser" where
  "parse_attr sy TPathSelector ts = parse_path_selector sy ts"
| "parse_attr sy TLitStr ts = bind_result (syn_str sy ts) (\<lambda>(s, ts1). Inr (LitStr s, ts1))"
| "parse_attr sy TLitInt ts = bind_result (syn_int sy ts) (\<lambda>(n, ts1). Inr (LitInt n, ts1))"

definition set_elided :: "string \<Rightarrow> ('p, 'e) attr \<Rightarrow> ('p, 'e) config \<Rightarrow> (cfg_error, ('p, 'e) config) result" where
  "set_elided name a c = (if c name \<noteq> None then Inl Panic else Inr (c(name \<mapsto> a)))"

definition set_named :: "string \<Rightarrow> ('p, 'e) attr \<Rightarrow> ('p, 'e) config \<Rightarrow> (cfg_error, ('p, 'e) config) result" where
  "set_named name a c = (if c name \<noteq> None then Inl Duplicated else Inr (c(name \<mapsto> a)))"

text \<open>
  \<^verbatim>\<open>NamedAttr::parse::<FORCE>\<close>: a path, and if \<^verbatim>\<open>=\<close> follows (it is consumed) the value of
  the setting the path names. Without \<open>force\<close> anything else is \<open>None\<close>.
\<close>

definition parse_named ::
  "schema \<Rightarrow> ('p, 'e) syn \<Rightarrow> bool \<Rightarrow> ((string \<times> ('p, 'e) attr) option) parser" where
  "parse_named sc sy force ts = bind_result (syn_path sy ts) (\<lambda>(path, ts1).
     let fall = (\<lambda>ts'. if force then Inl ExpectedNamed else Inr (None, ts')) in
     case ts1 of
       EqSign # ts2 \<Rightarrow>
         (case find (\<lambda>(n, _). syn_is_ident sy path n) (named sc) of
            Some (n, ty) \<Rightarrow> bind_result (parse_attr sy ty ts2) (\<lambda>(a, ts3). Inr (Some (n, a), ts3))
          | None \<Rightarrow> fall ts2)
     | _ \<Rightarrow> fall ts1)"

text \<open>
  One turn of the loop: \<open>current\<close> is the rest of the elided names while positional settings
  are allowed, \<open>[]\<close> afterwards. The input is forked before the attempt to read a named
  setting, and the positional setting is read from the fork.
\<close>

definition parse_setting ::
  "schema \<Rightarrow> ('p, 'e) syn \<Rightarrow> (string \<times> attr_ty) list \<Rightarrow> ('p, 'e) config \<Rightarrow>
     ((string \<times> attr_ty) list \<times> ('p, 'e) config) parser" where
  "parse_setting sc sy current c ts =
     (case current of
        (name, ty) # rest \<Rightarrow>
          bind_result (parse_named sc sy False ts) (\<lambda>(r, ts1).
            case r of
              Some (n, a) \<Rightarrow> bind_result (set_named n a c) (\<lambda>c'. Inr (([], c'), ts1))
            | None \<Rightarrow> bind_result (parse_attr sy ty ts) (\<lambda>(a, ts2).
                bind_result (set_elided name a c) (\<lambda>c'. Inr ((rest, c'), ts2))))
      | [] \<Rightarrow>
          bind_result (parse_named sc sy True ts) (\<lambda>(r, ts1).
            case r of
              Some (n, a) \<Rightarrow> bind_result (set_named n a c) (\<lambda>c'. Inr (([], c'), ts1))
            | None \<Rightarrow> Inl Panic))"

fun parse_loop ::
  "schema \<Rightarrow> ('p, 'e) syn \<Rightarrow> nat \<Rightarrow> (string \<times> attr_ty) list \<Rightarrow> ('p, 'e) config \<Rightarrow> token list \<Rightarrow>
     (cfg_error, ('p, 'e) config) result" where
  "parse_loop sc sy 0 current c ts = Inl NoFuel"
| "parse_loop sc sy (Suc fuel) current c ts =
     bind_result (parse_setting sc sy current c ts) (\<lambda>((current', c'), ts1).
       case ts1 of
         [] \<Rightarrow> Inr c'
       | Comma # ts2 \<Rightarrow> if ts2 = [] then Inr c' else parse_loop sc sy fuel current' c' ts2
       | _ \<Rightarrow> Inl ExpectedComma)"

text \<open>\<^verbatim>\<open>impl Parse for $struct\<close>; every turn consumes a token, so the input's length is fuel enough.\<close>

definition parse_config :: "schema \<Rightarrow> ('p, 'e) syn \<Rightarrow> token list \<Rightarrow> (cfg_error, ('p, 'e) config) result" where
  "parse_config sc sy ts =
     (if ts = [] then Inr empty_config
      else parse_loop sc sy (length ts) (elided sc) empty_config ts)"

section \<open>Finding the attribute\<close>

datatype meta = MPath | MNameValue | MList "token list"

record attribute =
  attr_path :: string
  attr_meta :: meta

fun find_forward :: "attribute list \<Rightarrow> (attribute \<times> attribute list) option" where
  "find_forward [] = None"
| "find_forward (a # as) =
     (if attr_path a = ''forward'' then Some (a, as)
      else map_option (\<lambda>(f, rest). (f, a # rest)) (find_forward as))"

text \<open>\<^verbatim>\<open>parse_forward_config\<close>: the first \<^verbatim>\<open>forward\<close> attribute is removed from the list and parsed.\<close>

definition parse_forward_config ::
  "('p, 'e) syn \<Rightarrow> attribute list \<Rightarrow> (cfg_error, ('p, 'e) config) result \<times> attribute list" where
  "parse_forward_config sy attrs =
     (case find_forward attrs of
        None \<Rightarrow> (Inr empty_config, attrs)
      | Some (a, rest) \<Rightarrow>
          (case attr_meta a of
             MPath \<Rightarrow> Inr empty_config
           | MNameValue \<Rightarrow> Inl ExpectedParens
           | MList ts \<Rightarrow> parse_config forward_config sy ts, rest))"

definition parse_proxy_config :: "('p, 'e) syn \<Rightarrow> token list \<Rightarrow> (cfg_error, ('p, 'e) config) result" where
  "parse_proxy_config sy ts = parse_config proxy_config sy ts"

section \<open>What \<^verbatim>\<open>syn\<close> documents\<close>

text \<open>
  A parser consumes a non-empty prefix of the input; a path starts with an identifier or
  \<^verbatim>\<open>::\<close>, and an error of a parser is a \<^verbatim>\<open>syn::Error\<close>.
\<close>

definition consumes :: "'a parser \<Rightarrow> bool" where
  "consumes P \<longleftrightarrow> (\<forall>ts. case P ts of Inr (_, r) \<Rightarrow> length r < length ts | Inl e \<Rightarrow> (\<exists>m. e = Syn m))"

definition path_start :: "token list \<Rightarrow> bool" where
  "path_start ts \<longleftrightarrow> (case ts of Ident _ # _ \<Rightarrow> True | PathSep # _ \<Rightarrow> True | _ \<Rightarrow> False)"

definition syn_ok :: "('p, 'e) syn \<Rightarrow> bool" where
  "syn_ok sy \<longleftrightarrow> consumes (syn_path sy) \<and> consumes (syn_expr sy) \<and> consumes (syn_str sy) \<and> consumes (syn_int sy)
     \<and> (\<forall>ts p r. syn_path sy ts = Inr (p, r) \<longrightarrow> path_start ts)"

lemma consumesD:
  assumes "consumes P"
  shows "P ts = Inr (a, r) \<Longrightarrow> length r < length ts" and "P ts = Inl e \<Longrightarrow> \<exists>m. e = Syn m"
proof -
  have c: "case P ts of Inr (_, r) \<Rightarrow> length r < length ts | Inl e \<Rightarrow> (\<exists>m. e = Syn m)"
    using assms by (simp add: consumes_def)
  show "P ts = Inr (a, r) \<Longrightarrow> length r < length ts" "P ts = Inl e \<Longrightarrow> \<exists>m. e = Syn m" using c by simp_all
qed

text \<open>A harmless result: the input got shorter, or a proper error.\<close>

definition sane :: "token list \<Rightarrow> (cfg_error, 'a \<times> token list) result \<Rightarrow> bool" where
  "sane ts r \<longleftrightarrow> (case r of Inr (_, ts') \<Rightarrow> length ts' < length ts | Inl e \<Rightarrow> e \<noteq> Panic \<and> e \<noteq> NoFuel)"

lemma consumes_sane: "consumes P \<Longrightarrow> sane ts (P ts)"
  using consumesD[of P ts] unfolding sane_def by (auto split: sum.splits prod.splits)

lemma sane_bind:
  assumes "sane ts r" and "\<And>a ts'. r = Inr (a, ts') \<Longrightarrow> length ts' < length ts \<Longrightarrow> sane ts (g (a, ts'))"
  shows "sane ts (bind_result r g)"
  using assms by (cases r) (auto simp: sane_def split: sum.splits)

section \<open>No panic, no endless loop\<close>

lemma syn_okD:
  assumes "syn_ok sy"
  shows "consumes (syn_path sy)" and "consumes (syn_expr sy)" and "consumes (syn_str sy)" and "consumes (syn_int sy)"
    and "syn_path sy ts = Inr (p, r) \<Longrightarrow> path_start ts"
  using assms by (simp_all add: syn_ok_def)

lemma sane_less: "sane ts' r \<Longrightarrow> length ts' \<le> length ts \<Longrightarrow> sane ts r"
  by (auto simp: sane_def split: sum.splits)

lemma parse_path_selector_sane:
  fixes sy :: "('a, 'e) syn"
  assumes "syn_ok sy"
  shows "sane ts (parse_path_selector sy ts)"
  unfolding parse_path_selector_def
proof (rule sane_bind[OF consumes_sane[OF syn_okD(1)[OF assms]]])
  fix path :: 'a and ts1 :: "token list" assume l: "length ts1 < length ts"
  have "sane ts (bind_result (syn_expr sy content) (\<lambda>(e, left).
      if left = [] then Inr (PathSelector path (Some e), ts2) else Inl (Syn ''unexpected token'')))"
    if "ts1 = Paren content # ts2" for content ts2
    using consumesD(2)[OF syn_okD(2)[OF assms], of content] that l
    by (cases "syn_expr sy content") (auto simp: sane_def)
  then show "sane ts (case (path, ts1) of (path, ts1) \<Rightarrow> case ts1 of
       Paren content # ts2 \<Rightarrow>
         if content = [] then Inr (PathSelector path None, ts2)
         else bind_result (syn_expr sy content) (\<lambda>(e, left).
           if left = [] then Inr (PathSelector path (Some e), ts2) else Inl (Syn ''unexpected token''))
     | _ \<Rightarrow> Inr (PathSelector path None, ts1))"
    using l by (auto simp: sane_def split: list.splits token.splits)
qed

lemma parse_attr_sane:
  assumes "syn_ok sy"
  shows "sane ts (parse_attr sy ty ts)"
proof (cases ty)
  case TPathSelector
  then show ?thesis using parse_path_selector_sane[OF assms] by simp
next
  case TLitStr
  then show ?thesis
    by (auto intro!: sane_bind[OF consumes_sane[OF syn_okD(3)[OF assms]]] simp: sane_def[of _ "Inr _"])
next
  case TLitInt
  then show ?thesis
    by (auto intro!: sane_bind[OF consumes_sane[OF syn_okD(4)[OF assms]]] simp: sane_def[of _ "Inr _"])
qed

lemma parse_named_sane:
  fixes sy :: "('a, 'e) syn"
  assumes "syn_ok sy"
  shows "sane ts (parse_named sc sy force ts)"
  unfolding parse_named_def
proof (rule sane_bind[OF consumes_sane[OF syn_okD(1)[OF assms]]])
  fix path :: 'a and ts1 :: "token list" assume l: "length ts1 < length ts"
  have setting: "sane ts (bind_result (parse_attr sy ty ts2) (\<lambda>(a, ts3). Inr (Some (n, a), ts3)))"
    if "length ts2 < length ts" for ty ts2 and n :: string
  proof (rule sane_less[of ts2])
    show "sane ts2 (bind_result (parse_attr sy ty ts2) (\<lambda>(a, ts3). Inr (Some (n, a), ts3)))"
      by (rule sane_bind[OF parse_attr_sane[OF assms]]) (simp add: sane_def)
  qed (use that in simp)
  show "sane ts (case (path, ts1) of (path, ts1) \<Rightarrow>
      let fall = (\<lambda>ts'. if force then Inl ExpectedNamed else Inr (None, ts')) in
      case ts1 of
        EqSign # ts2 \<Rightarrow>
          (case find (\<lambda>(n, _). syn_is_ident sy path n) (named sc) of
             Some (n, ty) \<Rightarrow> bind_result (parse_attr sy ty ts2) (\<lambda>(a, ts3). Inr (Some (n, a), ts3))
           | None \<Rightarrow> fall ts2)
      | _ \<Rightarrow> fall ts1)"
    using setting l
    by (auto simp: Let_def sane_def[of _ "Inl _"] sane_def[of _ "Inr _"] split: list.splits token.splits option.splits)
qed

text \<open>While positional settings are allowed only they have been set, in their order.\<close>

definition positions_free :: "(string \<times> attr_ty) list \<Rightarrow> ('p, 'e) config \<Rightarrow> bool" where
  "positions_free current c \<longleftrightarrow> distinct (map fst current) \<and> (\<forall>n \<in> fst ` set current. c n = None)"

lemma set_elided_free:
  assumes "positions_free ((name, ty) # rest) c"
  shows "set_elided name a c = Inr (c(name \<mapsto> a))" and "positions_free rest (c(name \<mapsto> a))"
  using assms by (auto simp: positions_free_def set_elided_def)

lemma parse_setting_sane:
  assumes ok: "syn_ok sy" and pf: "positions_free current c"
  shows "sane ts (parse_setting sc sy current c ts)"
    and "parse_setting sc sy current c ts = Inr ((current', c'), ts') \<Longrightarrow> positions_free current' c'"
proof -
  show "sane ts (parse_setting sc sy current c ts)"
  proof (cases current)
    case Nil
    have "sane ts (case (r, ts1) of (r, ts1) \<Rightarrow> case r of
        Some (n, a) \<Rightarrow> bind_result (set_named n a c) (\<lambda>c'. Inr (([], c'), ts1)) | None \<Rightarrow> Inl Panic)"
      if "parse_named sc sy True ts = Inr (r, ts1)" "length ts1 < length ts" for r ts1
      using that by (auto simp: sane_def set_named_def parse_named_def bind_result_def Let_def
          split: option.splits sum.splits list.splits token.splits if_splits)
    then show ?thesis unfolding parse_setting_def Nil list.case
      by (rule sane_bind[OF parse_named_sane[OF ok]])
  next
    case (Cons x rest)
    obtain name ty where x: "x = (name, ty)" by (cases x)
    note se = set_elided_free[OF pf[unfolded Cons x]]
    have pos: "sane ts (bind_result (parse_attr sy ty ts) (\<lambda>(a, ts2).
        bind_result (set_elided name a c) (\<lambda>c'. Inr ((rest, c'), ts2))))"
      by (rule sane_bind[OF parse_attr_sane[OF ok]]) (simp add: se sane_def)
    show ?thesis unfolding parse_setting_def Cons x list.case prod.case
      by (rule sane_bind[OF parse_named_sane[OF ok]])
        (use pos in \<open>auto simp: set_named_def sane_def[of _ "Inr _"] sane_def[of _ "Inl _"] split: option.splits\<close>)
  qed
  show "positions_free current' c'" if "parse_setting sc sy current c ts = Inr ((current', c'), ts')"
  proof (cases current)
    case Nil
    then show ?thesis using that by (auto simp: parse_setting_def set_named_def positions_free_def elim!: bind_result_InrE
        split: option.splits if_splits)
  next
    case (Cons x rest)
    obtain name ty where x: "x = (name, ty)" by (cases x)
    note se = set_elided_free[OF pf[unfolded Cons x]]
    show ?thesis using that se
      by (auto simp: Cons x parse_setting_def set_named_def positions_free_def[of "[]"] elim!: bind_result_InrE
          split: option.splits if_splits)
  qed
qed

lemma parse_loop_sane:
  assumes ok: "syn_ok sy"
  shows "positions_free current c \<Longrightarrow> length ts \<le> fuel \<Longrightarrow> ts \<noteq> [] \<Longrightarrow>
    parse_loop sc sy fuel current c ts \<noteq> Inl Panic \<and> parse_loop sc sy fuel current c ts \<noteq> Inl NoFuel"
proof (induction fuel arbitrary: current c ts)
  case (Suc fuel)
  note ps = parse_setting_sane[OF ok Suc.prems(1), where ts = ts and sc = sc]
  show ?case
  proof (cases "parse_setting sc sy current c ts")
    case (Inl e)
    then show ?thesis using ps(1) by (simp add: sane_def)
  next
    case (Inr r)
    then obtain current' c' ts1 where r: "parse_setting sc sy current c ts = Inr ((current', c'), ts1)" by (cases r) auto
    note pf = ps(2)[OF r]
    have l: "length ts1 < length ts" using ps(1) r by (simp add: sane_def)
    then have "ts1 = Comma # ts2 \<Longrightarrow> ts2 \<noteq> [] \<Longrightarrow> parse_loop sc sy fuel current' c' ts2 \<noteq> Inl Panic
        \<and> parse_loop sc sy fuel current' c' ts2 \<noteq> Inl NoFuel" for ts2
      using Suc.IH[OF pf, of ts2] Suc.prems(2) by simp
    then show ?thesis by (auto simp: r split: list.splits token.splits)
  qed
qed simp

section \<open>Written settings\<close>

text \<open>
  A setting as the user writes it, and what a list of settings means: positional ones fill
  the elided names in order until the first named one, a name may be set once.
\<close>

datatype ('p, 'e) item = Pos "('p, 'e) attr" | Nam string "('p, 'e) attr"

fun meaning ::
  "schema \<Rightarrow> (string \<times> attr_ty) list \<Rightarrow> ('p, 'e) config \<Rightarrow> ('p, 'e) item list \<Rightarrow> (cfg_error, ('p, 'e) config) result" where
  "meaning sc current c [] = Inr c"
| "meaning sc ((name, ty) # rest) c (Pos a # is) = meaning sc rest (c(name \<mapsto> a)) is"
| "meaning sc [] c (Pos a # is) = Inl ExpectedNamed"
| "meaning sc current c (Nam n a # is) =
     (if map_of (named sc) n = None then Inl (if current = [] then ExpectedNamed else ExpectedComma)
      else if c n \<noteq> None then Inl Duplicated
      else meaning sc [] (c(n \<mapsto> a)) is)"

text \<open>How paths and expressions are written, and the well-typed settings.\<close>

record ('p, 'e) printer =
  pr_path :: "'p \<Rightarrow> token list"
  pr_expr :: "'e \<Rightarrow> token list"

fun attr_type :: "('p, 'e) attr \<Rightarrow> attr_ty" where
  "attr_type (PathSelector _ _) = TPathSelector"
| "attr_type (LitStr _) = TLitStr"
| "attr_type (LitInt _) = TLitInt"

fun render_attr :: "('p, 'e) printer \<Rightarrow> ('p, 'e) attr \<Rightarrow> token list" where
  "render_attr pr (PathSelector p None) = pr_path pr p"
| "render_attr pr (PathSelector p (Some e)) = pr_path pr p @ [Paren (pr_expr pr e)]"
| "render_attr pr (LitStr s) = [Str s]"
| "render_attr pr (LitInt n) = [Num n]"

fun render_item :: "('p, 'e) printer \<Rightarrow> ('p, 'e) item \<Rightarrow> token list" where
  "render_item pr (Pos a) = render_attr pr a"
| "render_item pr (Nam n a) = Ident n # EqSign # render_attr pr a"

fun render :: "('p, 'e) printer \<Rightarrow> ('p, 'e) item list \<Rightarrow> token list" where
  "render pr [] = []"
| "render pr [i] = render_item pr i"
| "render pr (i # j # is) = render_item pr i @ Comma # render pr (j # is)"

fun typed :: "schema \<Rightarrow> ('p, 'e) item \<Rightarrow> bool" where
  "typed sc (Pos a) = (attr_type a = TPathSelector)"
| "typed sc (Nam n a) = (map_of (named sc) n \<in> {None, Some (attr_type a)})"

text \<open>The parsers of \<^verbatim>\<open>syn\<close> read back what is written, up to a token that cannot continue it.\<close>

definition stops :: "token list \<Rightarrow> bool" where
  "stops r \<longleftrightarrow> (case r of [] \<Rightarrow> True | Comma # _ \<Rightarrow> True | EqSign # _ \<Rightarrow> True | Paren _ # _ \<Rightarrow> True | _ \<Rightarrow> False)"

definition reads :: "('p, 'e) syn \<Rightarrow> ('p, 'e) printer \<Rightarrow> bool" where
  "reads sy pr \<longleftrightarrow> (\<forall>p r. stops r \<longrightarrow> syn_path sy (pr_path pr p @ r) = Inr (p, r))
     \<and> (\<forall>n. \<exists>p. pr_path pr p = [Ident n] \<and> (\<forall>m. syn_is_ident sy p m \<longleftrightarrow> m = n))
     \<and> (\<forall>e. pr_expr pr e \<noteq> [] \<and> syn_expr sy (pr_expr pr e) = Inr (e, []))
     \<and> (\<forall>s r. syn_str sy (Str s # r) = Inr (s, r)) \<and> (\<forall>n r. syn_int sy (Num n # r) = Inr (n, r))"

lemma readsD:
  assumes "reads sy pr"
  shows "stops r \<Longrightarrow> syn_path sy (pr_path pr p @ r) = Inr (p, r)"
    and "\<exists>p. pr_path pr p = [Ident n] \<and> (\<forall>m. syn_is_ident sy p m \<longleftrightarrow> m = n)"
    and "pr_expr pr e \<noteq> []" and "syn_expr sy (pr_expr pr e) = Inr (e, [])"
    and "syn_str sy (Str s # r) = Inr (s, r)" and "syn_int sy (Num k # r) = Inr (k, r)"
  using assms by (simp_all add: reads_def)

definition ends :: "token list \<Rightarrow> bool" where
  "ends r \<longleftrightarrow> (case r of [] \<Rightarrow> True | Comma # _ \<Rightarrow> True | EqSign # _ \<Rightarrow> True | _ \<Rightarrow> False)"

lemma ends_stops: "ends r \<Longrightarrow> stops r"
  by (auto simp: ends_def stops_def split: list.splits token.splits)

lemma read_attr:
  assumes rd: "reads sy pr" and r: "ends r" and ty: "attr_type a = ty"
  shows "parse_attr sy ty (render_attr pr a @ r) = Inr (a, r)"
proof (cases a)
  case (PathSelector p e)
  show ?thesis
  proof (cases e)
    case None
    then show ?thesis using PathSelector ty[symmetric] readsD(1)[OF rd ends_stops[OF r]] r
      by (auto simp: parse_path_selector_def ends_def split: list.splits token.splits)
  next
    case (Some e')
    have "stops (Paren (pr_expr pr e') # r)" by (simp add: stops_def)
    then show ?thesis using PathSelector Some ty[symmetric] readsD(1)[OF rd] readsD(3,4)[OF rd]
      by (simp add: parse_path_selector_def)
  qed
qed (use ty[symmetric] readsD(5,6)[OF rd] in simp_all)

lemma find_named: "find (\<lambda>(m, _). m = n) xs = map_option (Pair n) (map_of xs n)"
  by (induction xs) auto

lemma read_name:
  assumes "reads sy pr"
  obtains p where "syn_path sy (Ident n # EqSign # ts) = Inr (p, EqSign # ts)"
    and "find (\<lambda>(m, _). syn_is_ident sy p m) xs = map_option (Pair n) (map_of xs n)"
proof -
  obtain p where p: "pr_path pr p = [Ident n]" "\<And>m. syn_is_ident sy p m \<longleftrightarrow> m = n"
    using readsD(2)[OF assms] by blast
  have "syn_path sy (Ident n # EqSign # ts) = Inr (p, EqSign # ts)"
    using readsD(1)[OF assms, of "EqSign # ts" p] p(1) by (simp add: stops_def)
  moreover have "find (\<lambda>(m, _). syn_is_ident sy p m) xs = map_option (Pair n) (map_of xs n)"
    using find_named[of n xs] by (simp add: p(2))
  ultimately show thesis by (rule that)
qed


text \<open>One written setting, before the end or a comma.\<close>

definition sep :: "token list \<Rightarrow> bool" where
  "sep r \<longleftrightarrow> r = [] \<or> (\<exists>r'. r = Comma # r')"

lemma sep_ends: "sep r \<Longrightarrow> ends r"
  by (auto simp: sep_def ends_def)

lemma read_named:
  assumes rd: "reads sy pr" and r: "sep r" and n: "map_of (named sc) n = Some (attr_type a)"
  shows "parse_setting sc sy current c (render_item pr (Nam n a) @ r) =
    (if c n \<noteq> None then Inl Duplicated else Inr (([], c(n \<mapsto> a)), r))"
proof -
  obtain p where p: "syn_path sy (Ident n # EqSign # render_attr pr a @ r) = Inr (p, EqSign # render_attr pr a @ r)"
    "find (\<lambda>(m, _). syn_is_ident sy p m) (named sc) = map_option (Pair n) (map_of (named sc) n)"
    using read_name[OF rd] by blast
  then have "parse_named sc sy force (render_item pr (Nam n a) @ r) = Inr (Some (n, a), r)" for force
    using read_attr[OF rd sep_ends[OF r] refl] n by (simp add: parse_named_def Let_def)
  then show ?thesis by (simp add: parse_setting_def set_named_def split: list.split)
qed

lemma read_unknown:
  assumes rd: "reads sy pr" and n: "map_of (named sc) n = None"
  shows "parse_setting sc sy [] c (render_item pr (Nam n a) @ r) = Inl ExpectedNamed"
    and "c m = None \<Longrightarrow> \<exists>c'. parse_setting sc sy ((m, TPathSelector) # rest) c (render_item pr (Nam n a) @ r)
      = Inr ((rest, c'), EqSign # render_attr pr a @ r)"
proof -
  obtain p where p: "syn_path sy (Ident n # EqSign # render_attr pr a @ r) = Inr (p, EqSign # render_attr pr a @ r)"
    "find (\<lambda>(m, _). syn_is_ident sy p m) (named sc) = map_option (Pair n) (map_of (named sc) n)"
    using read_name[OF rd] by blast
  show "parse_setting sc sy [] c (render_item pr (Nam n a) @ r) = Inl ExpectedNamed"
    using p n by (simp add: parse_setting_def parse_named_def)
  show "\<exists>c'. parse_setting sc sy ((m, TPathSelector) # rest) c (render_item pr (Nam n a) @ r)
      = Inr ((rest, c'), EqSign # render_attr pr a @ r)" if "c m = None"
    using p n that by (simp add: parse_setting_def parse_named_def parse_path_selector_def set_elided_def)
qed

lemma read_pos:
  assumes rd: "reads sy pr" and r: "sep r" and ty: "attr_type a = TPathSelector"
  shows "parse_setting sc sy [] c (render_attr pr a @ r) = Inl ExpectedNamed"
    and "c m = None \<Longrightarrow> parse_setting sc sy ((m, TPathSelector) # rest) c (render_attr pr a @ r)
      = Inr ((rest, c(m \<mapsto> a)), r)"
proof -
  obtain p e where a: "a = PathSelector p e" using ty by (cases a) auto
  have pth: "\<exists>ts'. syn_path sy (render_attr pr a @ r) = Inr (p, ts') \<and> (\<forall>ts2. ts' \<noteq> EqSign # ts2)"
  proof (cases e)
    case None
    then show ?thesis using readsD(1)[OF rd ends_stops[OF sep_ends[OF r]], of p] r a by (auto simp: sep_def)
  next
    case (Some e')
    have "stops (Paren (pr_expr pr e') # r)" by (simp add: stops_def)
    then show ?thesis using readsD(1)[OF rd, of _ p] a Some by fastforce
  qed
  then obtain ts' where ts': "syn_path sy (render_attr pr a @ r) = Inr (p, ts')" "\<And>ts2. ts' \<noteq> EqSign # ts2" by blast
  have none: "parse_named sc sy False (render_attr pr a @ r) = Inr (None, ts')"
    and force: "parse_named sc sy True (render_attr pr a @ r) = Inl ExpectedNamed"
    using ts' by (simp_all add: parse_named_def Let_def split: list.split token.split)
  show "parse_setting sc sy [] c (render_attr pr a @ r) = Inl ExpectedNamed"
    using force by (simp add: parse_setting_def)
  show "parse_setting sc sy ((m, TPathSelector) # rest) c (render_attr pr a @ r) = Inr ((rest, c(m \<mapsto> a)), r)"
    if "c m = None"
    using none read_attr[OF rd sep_ends[OF r] ty] that by (simp add: parse_setting_def set_elided_def)
qed

lemma render_item_ne: "syn_ok sy \<Longrightarrow> reads sy pr \<Longrightarrow> render_item pr i \<noteq> []"
proof -
  assume ok: "syn_ok sy" and rd: "reads sy pr"
  have "pr_path pr p \<noteq> []" for p
    using consumesD(1)[OF syn_okD(1)[OF ok], of "pr_path pr p" p "[]"] readsD(1)[OF rd, of "[]" p]
    by (auto simp: stops_def)
  then have "render_attr pr a \<noteq> []" for a by (cases "(pr, a)" rule: render_attr.cases) auto
  then show ?thesis by (cases i) auto
qed

lemma render_ne: "syn_ok sy \<Longrightarrow> reads sy pr \<Longrightarrow> is \<noteq> [] \<Longrightarrow> render pr is \<noteq> []"
  by (cases "(pr, is)" rule: render.cases) (auto simp: render_item_ne)

text \<open>The outcome of one written setting, in the terms of \<open>meaning\<close>.\<close>

lemma loop_item:
  assumes ok: "syn_ok sy" and rd: "reads sy pr" and r: "sep r" and ty: "typed sc i"
    and pf: "positions_free current c" and el: "\<forall>(m, t) \<in> set current. t = TPathSelector"
  shows "(\<exists>e. parse_setting sc sy current c (render_item pr i @ r) = Inl e \<and> (\<forall>is. meaning sc current c (i # is) = Inl e))
    \<or> (\<exists>current' c' t. parse_setting sc sy current c (render_item pr i @ r) = Inr ((current', c'), EqSign # t)
        \<and> (\<forall>is. meaning sc current c (i # is) = Inl ExpectedComma))
    \<or> (\<exists>current' c'. parse_setting sc sy current c (render_item pr i @ r) = Inr ((current', c'), r)
        \<and> (\<forall>is. meaning sc current c (i # is) = meaning sc current' c' is)
        \<and> (\<forall>(m, t) \<in> set current'. t = TPathSelector))"
proof (cases i)
  case (Pos a)
  then have a: "attr_type a = TPathSelector" using ty by simp
  show ?thesis
  proof (cases current)
    case Nil
    then show ?thesis using Pos read_pos(1)[OF rd r a] by simp
  next
    case (Cons x rest)
    then obtain m where x: "x = (m, TPathSelector)" using el by (cases x) auto
    moreover have "c m = None" using pf Cons x by (simp add: positions_free_def)
    ultimately show ?thesis using Pos Cons el read_pos(2)[OF rd r a, of c m] by simp
  qed
next
  case (Nam n a)
  show ?thesis
  proof (cases "map_of (named sc) n")
    case None
    show ?thesis
    proof (cases current)
      case Nil
      then show ?thesis using Nam None read_unknown(1)[OF rd None] by simp
    next
      case (Cons x rest)
      then obtain m where x: "x = (m, TPathSelector)" using el by (cases x) auto
      moreover have "c m = None" using pf Cons x by (simp add: positions_free_def)
      ultimately show ?thesis using Nam None Cons read_unknown(2)[OF rd None, of c m rest a r] by auto
    qed
  next
    case (Some t)
    then have "map_of (named sc) n = Some (attr_type a)" using ty Nam by simp
    then show ?thesis using Nam read_named[OF rd r, of sc n a current c] by (cases current) auto
  qed
qed

lemma parse_render_loop:
  assumes ok: "syn_ok sy" and rd: "reads sy pr"
  shows "is \<noteq> [] \<Longrightarrow> \<forall>i \<in> set is. typed sc i \<Longrightarrow> positions_free current c \<Longrightarrow>
    \<forall>(m, t) \<in> set current. t = TPathSelector \<Longrightarrow> length (render pr is) \<le> fuel \<Longrightarrow>
    parse_loop sc sy fuel current c (render pr is) = meaning sc current c is"
proof (induction "is" arbitrary: current c fuel)
  case (Cons i "is")
  have ne: "render_item pr i \<noteq> []" by (rule render_item_ne[OF ok rd])
  define r where "r = (if is = [] then [] else Comma # render pr is)"
  have rr: "render pr (i # is) = render_item pr i @ r" unfolding r_def by (cases "is") auto
  have sr: "sep r" by (simp add: sep_def r_def)
  obtain fuel' where f: "fuel = Suc fuel'" using Cons.prems(5) ne rr by (cases fuel) auto
  have len: "length r \<le> fuel'" using Cons.prems(5) ne rr f by (cases "render_item pr i") auto
  have ty: "typed sc i" "\<forall>j \<in> set is. typed sc j" using Cons.prems(2) by auto
  from loop_item[OF ok rd sr ty(1) Cons.prems(3,4)] show ?case
  proof (elim disjE exE conjE)
    fix current' c'
    assume s: "parse_setting sc sy current c (render_item pr i @ r) = Inr ((current', c'), r)"
      and m: "\<forall>is. meaning sc current c (i # is) = meaning sc current' c' is"
      and el: "\<forall>(m, t) \<in> set current'. t = TPathSelector"
    show ?thesis
    proof (cases "is")
      case Nil
      then show ?thesis using s m by (simp add: rr f r_def)
    next
      case (Cons j js)
      then have ne': "is \<noteq> []" by simp
      have "parse_loop sc sy fuel' current' c' (render pr is) = meaning sc current' c' is"
        by (rule Cons.IH[OF ne' ty(2) parse_setting_sane(2)[OF ok Cons.prems(3) s] el]) (use len ne' in \<open>simp add: r_def\<close>)
      then show ?thesis using s m ne' render_ne[OF ok rd ne'] by (simp add: rr f r_def)
    qed
  qed (simp_all add: rr f)
qed simp

section \<open>Properties\<close>

text \<open>One-segment paths and integer selectors, for the concrete inputs below.\<close>

definition simple_syn :: "(string, int) syn" where
  "simple_syn = \<lparr>
     syn_path = (\<lambda>ts. case ts of Ident n # r \<Rightarrow> Inr (n, r) | _ \<Rightarrow> Inl (Syn ''expected identifier'')),
     syn_is_ident = (=),
     syn_expr = (\<lambda>ts. case ts of Num n # r \<Rightarrow> Inr (n, r) | _ \<Rightarrow> Inl (Syn ''expected expression'')),
     syn_str = (\<lambda>ts. case ts of Str s # r \<Rightarrow> Inr (s, r) | _ \<Rightarrow> Inl (Syn ''expected string literal'')),
     syn_int = (\<lambda>ts. case ts of Num n # r \<Rightarrow> Inr (n, r) | _ \<Rightarrow> Inl (Syn ''expected integer literal''))\<rparr>"

definition simple_printer :: "(string, int) printer" where
  "simple_printer = \<lparr>pr_path = (\<lambda>n. [Ident n]), pr_expr = (\<lambda>n. [Num n])\<rparr>"

lemma simple_ok: "syn_ok simple_syn" and simple_reads: "reads simple_syn simple_printer"
  by (auto simp: syn_ok_def consumes_def simple_syn_def path_start_def reads_def simple_printer_def
      split: list.splits token.splits)

lemma schema_free: "positions_free (elided forward_config) empty_config" "positions_free (elided proxy_config) empty_config"
  by (simp_all add: positions_free_def forward_config_def proxy_config_def empty_config_def)

text \<open>
  C15. The grammar of \<^verbatim>\<open>#[forward(...)]\<close>. For every list of written settings of the right
  types the parser computes their meaning: positional paths fill \<^verbatim>\<open>server\<close> and \<^verbatim>\<open>thread\<close> in
  this order, named settings in any order, each at most once (also against a positional
  one), no positional setting after a named one, no unknown name.
\<close>

theorem forward_config_grammar:
  assumes "syn_ok sy" and "reads sy pr" and "\<forall>i \<in> set is. typed forward_config i"
  shows "parse_config forward_config sy (render pr is)
    = meaning forward_config (elided forward_config) empty_config is"
proof (cases "is = []")
  case False
  have "\<forall>(m, t) \<in> set (elided forward_config). t = TPathSelector" by (simp add: forward_config_def)
  from parse_render_loop[OF assms(1,2) False assms(3) schema_free(1) this order_refl] show ?thesis
    using render_ne[OF assms(1,2) False] by (simp add: parse_config_def)
qed (simp add: parse_config_def)

lemma forward_config_grammar_witness:
  "parse_config forward_config simple_syn
     [Ident ''Game'', Comma, Ident ''name'', EqSign, Str ''brief'', Comma, Ident ''thread'', EqSign,
      Ident ''UserThread'', Paren [Num 2]]
   = Inr (empty_config(''server'' \<mapsto> PathSelector ''Game'' None, ''name'' \<mapsto> LitStr ''brief'',
       ''thread'' \<mapsto> PathSelector ''UserThread'' (Some 2)))"
proof -
  let ?is = "[Pos (PathSelector ''Game'' None), Nam ''name'' (LitStr ''brief''),
    Nam ''thread'' (PathSelector ''UserThread'' (Some 2))] :: (string, int) item list"
  have "\<forall>i \<in> set ?is. typed forward_config i" by (simp add: forward_config_def)
  from forward_config_grammar[OF simple_ok simple_reads this] show ?thesis
    by (simp add: simple_printer_def forward_config_def empty_config_def)
qed

text \<open>
  On any input at all, parsing either attribute ends with a configuration or a
  \<^verbatim>\<open>syn::Error\<close>: the loop terminates, the \<^verbatim>\<open>assert!\<close> in \<^verbatim>\<open>set_elided\<close> and the \<^verbatim>\<open>unwrap\<close> never fail.
\<close>

lemma config_parser_total:
  assumes "syn_ok sy"
  shows "parse_config forward_config sy ts \<notin> {Inl Panic, Inl NoFuel}
    \<and> parse_proxy_config sy ts \<notin> {Inl Panic, Inl NoFuel}"
proof (cases "ts = []")
  case False
  then show ?thesis
    using parse_loop_sane[OF assms schema_free(1) order_refl False]
      parse_loop_sane[OF assms schema_free(2) order_refl False]
    by (simp add: parse_config_def parse_proxy_config_def)
qed (simp add: parse_config_def parse_proxy_config_def)

lemma config_parser_total_witness:
  "parse_config forward_config simple_syn [Comma, Num 3, EqSign] \<notin> {Inl Panic, Inl NoFuel}"
  using config_parser_total[OF simple_ok] by blast

text \<open>
  \<^verbatim>\<open>#[forward_proxy(...)]\<close> accepts the name only in the form \<^verbatim>\<open>name = "..."\<close>: although the
  macro declares the name as elidable, an input that starts with the literal is always a
  \<^verbatim>\<open>syn::Error\<close>, because the attempt to read a named setting fails on it.
\<close>

lemma proxy_name_not_positional:
  assumes "syn_ok sy"
  shows "\<exists>m. parse_proxy_config sy (Str s # ts) = Inl (Syn m)"
proof -
  have "\<not> path_start (Str s # ts)" by (simp add: path_start_def)
  then obtain m where "syn_path sy (Str s # ts) = Inl (Syn m)"
    using syn_okD(5)[OF assms] consumesD(2)[OF syn_okD(1)[OF assms]]
    by (cases "syn_path sy (Str s # ts)") (auto, metis)
  then have "parse_proxy_config sy (Str s # ts) = Inl (Syn m)"
    by (simp add: parse_proxy_config_def parse_config_def parse_setting_def parse_named_def proxy_config_def)
  then show ?thesis by blast
qed

lemma proxy_name_not_positional_witness:
  "parse_proxy_config simple_syn [Str ''Player''] \<noteq> Inr (empty_config(''name'' \<mapsto> LitStr ''Player''))
   \<and> parse_proxy_config simple_syn [Ident ''name'', EqSign, Str ''Player'']
      = Inr (empty_config(''name'' \<mapsto> LitStr ''Player''))"
proof
  show "parse_proxy_config simple_syn [Str ''Player''] \<noteq> Inr (empty_config(''name'' \<mapsto> LitStr ''Player''))"
    using proxy_name_not_positional[OF simple_ok, of "''Player''" "[]"] by auto
  show "parse_proxy_config simple_syn [Ident ''name'', EqSign, Str ''Player'']
      = Inr (empty_config(''name'' \<mapsto> LitStr ''Player''))"
    by (simp add: parse_proxy_config_def parse_config_def parse_setting_def parse_named_def proxy_config_def
        simple_syn_def set_named_def empty_config_def)
qed

lemma find_forward_None: "find_forward attrs = None \<longleftrightarrow> (\<forall>a \<in> set attrs. attr_path a \<noteq> ''forward'')"
  by (induction attrs) auto

lemma find_forward_Some:
  "find_forward attrs = Some (a, rest) \<Longrightarrow> \<exists>pre post. attrs = pre @ a # post \<and> rest = pre @ post
     \<and> attr_path a = ''forward'' \<and> (\<forall>b \<in> set pre. attr_path b \<noteq> ''forward'')"
proof (induction attrs arbitrary: rest)
  case (Cons b attrs)
  show ?case
  proof (cases "attr_path b = ''forward''")
    case True
    then have "a = b" "rest = attrs" using Cons.prems by auto
    then show ?thesis using True by (intro exI[of _ "[]"] exI[of _ attrs]) simp
  next
    case False
    then obtain rest' where r: "find_forward attrs = Some (a, rest')" "rest = b # rest'"
      using Cons.prems by auto
    from Cons.IH[OF r(1)] obtain pre post where "attrs = pre @ a # post" "rest' = pre @ post"
      "attr_path a = ''forward''" "\<forall>b \<in> set pre. attr_path b \<noteq> ''forward''" by blast
    then show ?thesis using False r(2) by (intro exI[of _ "b # pre"] exI[of _ post]) simp
  qed
qed simp

text \<open>
  \<^verbatim>\<open>parse_forward_config\<close> takes the first \<^verbatim>\<open>forward\<close> attribute out of the method's list,
  leaves the other attributes in their order, and gives the empty configuration for a bare
  \<^verbatim>\<open>#[forward]\<close> or when there is none.
\<close>

lemma forward_attribute_removed:
  shows "(case parse_forward_config sy attrs of (r, rest) \<Rightarrow>
    (r = Inr empty_config \<and> rest = attrs \<and> (\<forall>a \<in> set attrs. attr_path a \<noteq> ''forward''))
    \<or> (\<exists>pre a post. attrs = pre @ a # post \<and> rest = pre @ post \<and> attr_path a = ''forward''
        \<and> (\<forall>b \<in> set pre. attr_path b \<noteq> ''forward'')
        \<and> r = (case attr_meta a of MPath \<Rightarrow> Inr empty_config | MNameValue \<Rightarrow> Inl ExpectedParens
             | MList ts \<Rightarrow> parse_config forward_config sy ts)))"
proof (cases "find_forward attrs")
  case None
  then show ?thesis using find_forward_None[of attrs] by (simp add: parse_forward_config_def)
next
  case (Some x)
  obtain a rest where x: "x = (a, rest)" by (cases x)
  from find_forward_Some[OF Some[unfolded x]] obtain pre post where "attrs = pre @ a # post" "rest = pre @ post"
    "attr_path a = ''forward''" "\<forall>b \<in> set pre. attr_path b \<noteq> ''forward''" by blast
  then show ?thesis using Some x by (simp add: parse_forward_config_def) blast
qed

lemma forward_attribute_removed_witness:
  "snd (parse_forward_config simple_syn
     [\<lparr>attr_path = ''doc'', attr_meta = MNameValue\<rparr>, \<lparr>attr_path = ''forward'', attr_meta = MPath\<rparr>])
   = [\<lparr>attr_path = ''doc'', attr_meta = MNameValue\<rparr>]"
proof -
  let ?a = "[\<lparr>attr_path = ''doc'', attr_meta = MNameValue\<rparr>, \<lparr>attr_path = ''forward'', attr_meta = MPath\<rparr>]"
  have "\<exists>x \<in> set ?a. attr_path x = ''forward''" by simp
  then show ?thesis using forward_attribute_removed[where sy = simple_syn and attrs = ?a]
    by (simp add: parse_forward_config_def)
qed

end
