(* ===== verification/MacroGen.thy ===== *)
theory MacroGen
  imports AttrConfig
begin

text \<open>
  The code generator of \<^verbatim>\<open>forward_macro/src/lib.rs\<close>: from an \<^verbatim>\<open>impl\<close> block and its attributes it
  builds the block without the \<^verbatim>\<open>forward\<close> attributes and a second block for
  \<^verbatim>\<open>ForwardProxy<Target>\<close> whose methods call through the forwarding runtime. The configuration
  parser is that of \<open>AttrConfig\<close>. Syntax that the generator only copies is a token list.
\<close>

section \<open>The syntax tree\<close>

type_synonym code = "token list"

text \<open>\<^verbatim>\<open>syn::FnArg\<close>: a receiver with its \<^verbatim>\<open>mut\<close> and type, or a pattern with a type.\<close>

datatype fn_arg = Receiver bool code | Typed code code

record fn_sig =
  sig_ident :: string
  sig_async :: bool
  sig_inputs :: "fn_arg list"
  sig_rest :: code

record 'blk impl_fn =
  fn_attrs :: "attribute list"
  fn_vis :: code
  fn_defaultness :: bool
  fn_sig :: fn_sig
  fn_block :: 'blk

datatype 'blk impl_item = Fn "'blk impl_fn" | OtherItem code

text \<open>\<^verbatim>\<open>self_ty\<close> of the generated block is \<^verbatim>\<open>::forward::ForwardProxy<..>\<close>.\<close>

datatype self_ty = SelfTy code | ForwardProxyOf self_ty

text \<open>The trait's path is the list of its segments' identifiers.\<close>

record 'blk item_impl =
  im_attrs :: "attribute list"
  im_defaultness :: bool
  im_unsafety :: bool
  im_generics :: code
  im_trait :: "string list option"
  im_self :: self_ty
  im_items :: "'blk impl_item list"

section \<open>Generated code\<close>

text \<open>The patterns of the generated tuples: an identifier with its \<^verbatim>\<open>mut\<close>, or a copied pattern.\<close>

datatype gen_pat = PatIdent bool string | PatCopy code

text \<open>\<open>None\<close> stands for the unit value \<^verbatim>\<open>()\<close>.\<close>

record ('p, 'e) selector_lit =
  gs_kind :: "'p option"
  gs_selector :: "'e option"

datatype method_struct = ForwardAsyncMethod | ForwardSyncMethod

datatype method_call = AwaitBoth | IntoSync

text \<open>
  The generated block: the configuration, the two names of the metadata, the method type, the
  closure's tuple type and pattern, the method it calls and with which arguments, the argument
  tuple and the final call.
\<close>

record ('p, 'e) proxy_block =
  gb_server :: "('p, 'e) selector_lit"
  gb_thread :: "('p, 'e) selector_lit"
  gb_proxy_name :: string
  gb_forward_name :: string
  gb_struct :: method_struct
  gb_closure_args :: "code list"
  gb_destruct :: "gen_pat list"
  gb_callee :: string
  gb_call_args :: "code list"
  gb_struct_args :: "gen_pat list"
  gb_call :: method_call

section \<open>Operations\<close>

text \<open>The typed fields of a parsed configuration.\<close>

definition cfg_selector :: "('p, 'e) config \<Rightarrow> string \<Rightarrow> ('p \<times> 'e option) option" where
  "cfg_selector c n = (case c n of Some (PathSelector p s) \<Rightarrow> Some (p, s) | _ \<Rightarrow> None)"

definition cfg_str :: "('p, 'e) config \<Rightarrow> string \<Rightarrow> string option" where
  "cfg_str c n = (case c n of Some (LitStr s) \<Rightarrow> Some s | _ \<Rightarrow> None)"

definition gen_selector :: "('p \<times> 'e option) option \<Rightarrow> ('p, 'e) selector_lit" where
  "gen_selector o_sel = (case o_sel of
      Some (path, sel) \<Rightarrow> (case sel of
          Some v \<Rightarrow> \<lparr>gs_kind = Some path, gs_selector = Some v\<rparr>
        | None \<Rightarrow> \<lparr>gs_kind = Some path, gs_selector = None\<rparr>)
    | None \<Rightarrow> \<lparr>gs_kind = None, gs_selector = None\<rparr>)"

fun arg_type :: "fn_arg \<Rightarrow> code" where
  "arg_type (Receiver m ty) = ty"
| "arg_type (Typed p ty) = ty"

fun destruct_arg :: "fn_arg \<Rightarrow> gen_pat" where
  "destruct_arg (Receiver m ty) = PatIdent m ''target''"
| "destruct_arg (Typed p ty) = PatCopy p"

fun struct_arg :: "fn_arg \<Rightarrow> gen_pat" where
  "struct_arg (Receiver m ty) = PatIdent m ''self''"
| "struct_arg (Typed p ty) = PatCopy p"

text \<open>The tokens of the body of a proxy method.\<close>

definition gen_body :: "string \<Rightarrow> ('p, 'e) config \<Rightarrow> fn_sig \<Rightarrow> ('p, 'e) proxy_block" where
  "gen_body proxy_name c sg = \<lparr>
     gb_server = gen_selector (cfg_selector c ''server''),
     gb_thread = gen_selector (cfg_selector c ''thread''),
     gb_proxy_name = proxy_name,
     gb_forward_name = (case cfg_str c ''name'' of Some n \<Rightarrow> n | None \<Rightarrow> sig_ident sg),
     gb_struct = (if sig_async sg then ForwardAsyncMethod else ForwardSyncMethod),
     gb_closure_args = map arg_type (sig_inputs sg),
     gb_destruct = map destruct_arg (sig_inputs sg),
     gb_callee = sig_ident sg,
     gb_call_args = [],
     gb_struct_args = map struct_arg (sig_inputs sg),
     gb_call = (if sig_async sg then AwaitBoth else IntoSync)\<rparr>"

lemma gen_body_simps:
  "gb_proxy_name (gen_body name c sg) = name"
  "gb_struct (gen_body name c sg) = (if sig_async sg then ForwardAsyncMethod else ForwardSyncMethod)"
  "gb_call (gen_body name c sg) = (if sig_async sg then AwaitBoth else IntoSync)"
  "gb_callee (gen_body name c sg) = sig_ident sg" "gb_call_args (gen_body name c sg) = []"
  "gb_closure_args (gen_body name c sg) = map arg_type (sig_inputs sg)"
  "gb_destruct (gen_body name c sg) = map destruct_arg (sig_inputs sg)"
  "gb_struct_args (gen_body name c sg) = map struct_arg (sig_inputs sg)"
  by (simp_all add: gen_body_def)

definition proxy_fn :: "('p, 'e) proxy_block \<Rightarrow> 'blk impl_fn \<Rightarrow> ('p, 'e) proxy_block impl_fn" where
  "proxy_fn body f = \<lparr>fn_attrs = fn_attrs f, fn_vis = fn_vis f, fn_defaultness = fn_defaultness f,
     fn_sig = fn_sig f, fn_block = body\<rparr>"

text \<open>
  The body is built by \<^verbatim>\<open>parse_quote!\<close>, which panics when its tokens do not parse as a block. Whether they do is
  \<^verbatim>\<open>syn\<close>'s: \<open>quotes\<close> is a parameter. Of \<^verbatim>\<open>syn\<close> we use that \<^verbatim>\<open>mut\<close> starts no expression: the argument tuple
  \<^verbatim>\<open>let args = (mut self,)\<close> does not parse.
\<close>

datatype gen_error = ErrOf cfg_error | BadQuote

definition or_err :: "(cfg_error, 'a) result \<Rightarrow> (gen_error, 'a) result" where
  "or_err = map_sum ErrOf id"

definition parse_quote :: "(('p, 'e) proxy_block \<Rightarrow> bool) \<Rightarrow> ('p, 'e) proxy_block \<Rightarrow> (gen_error, ('p, 'e) proxy_block) result" where
  "parse_quote quotes b = (if quotes b then Inr b else Inl BadQuote)"

fun mut_ident :: "gen_pat \<Rightarrow> bool" where
  "mut_ident (PatIdent m x) = m"
| "mut_ident (PatCopy p) = False"

definition rejects_mut :: "(('p, 'e) proxy_block \<Rightarrow> bool) \<Rightarrow> bool" where
  "rejects_mut quotes \<longleftrightarrow> (\<forall>b. quotes b \<longrightarrow> (\<forall>a \<in> set (gb_struct_args b). \<not> mut_ident a))"

text \<open>
  The loop over the items: the items of the original block, whose methods lose their attribute,
  and the items of the proxy block. The first bad attribute or body ends it.
\<close>

fun expand_items ::
  "('p, 'e) syn \<Rightarrow> (('p, 'e) proxy_block \<Rightarrow> bool) \<Rightarrow> string \<Rightarrow> 'blk impl_item list \<Rightarrow>
     (gen_error, 'blk impl_item list \<times> ('p, 'e) proxy_block impl_item list) result" where
  "expand_items sy quotes name [] = Inr ([], [])"
| "expand_items sy quotes name (Fn f # items) =
     (case parse_forward_config sy (fn_attrs f) of (r, rest) \<Rightarrow>
        bind_result (or_err r) (\<lambda>c. let f' = f\<lparr>fn_attrs := rest\<rparr> in
          bind_result (parse_quote quotes (gen_body name c (fn_sig f'))) (\<lambda>body.
          bind_result (expand_items sy quotes name items) (\<lambda>(os, ps). Inr (Fn f' # os, Fn (proxy_fn body f') # ps)))))"
| "expand_items sy quotes name (OtherItem x # items) =
     bind_result (expand_items sy quotes name items) (\<lambda>(os, ps). Inr (OtherItem x # os, OtherItem x # ps))"

definition missing_name :: cfg_error where "missing_name = Syn ''missing proxy name''"

definition get_default_name :: "'blk item_impl \<Rightarrow> (cfg_error, string) result" where
  "get_default_name im = (case im_trait im of
      None \<Rightarrow> Inl missing_name
    | Some path \<Rightarrow> if path = [] then Inl missing_name else Inr (last path))"

text \<open>\<^verbatim>\<open>parse\<close>: \<open>parse_impl\<close> is \<^verbatim>\<open>syn::parse\<close> of the annotated item.\<close>

definition expand_proxy ::
  "('p, 'e) syn \<Rightarrow> (('p, 'e) proxy_block \<Rightarrow> bool) \<Rightarrow> ('i \<Rightarrow> (cfg_error, 'blk item_impl) result) \<Rightarrow> token list \<Rightarrow> 'i \<Rightarrow>
     (gen_error, 'blk item_impl \<times> ('p, 'e) proxy_block item_impl) result" where
  "expand_proxy sy quotes parse_impl attrs input =
     bind_result (or_err (parse_proxy_config sy attrs)) (\<lambda>pc.
     bind_result (or_err (parse_impl input)) (\<lambda>im.
     bind_result (or_err (case cfg_str pc ''name'' of Some n \<Rightarrow> Inr n | None \<Rightarrow> get_default_name im)) (\<lambda>name.
     bind_result (expand_items sy quotes name (im_items im)) (\<lambda>(os, ps).
     Inr (im\<lparr>im_items := os\<rparr>,
       \<lparr>im_attrs = im_attrs im, im_defaultness = im_defaultness im, im_unsafety = im_unsafety im,
        im_generics = im_generics im, im_trait = im_trait im, im_self = ForwardProxyOf (im_self im), im_items = ps\<rparr>)))))"

text \<open>\<^verbatim>\<open>forward_proxy\<close>: both blocks, the error as code that does not compile, or a panic of the macro.\<close>

datatype ('blk, 'g) expansion = Expanded "'blk item_impl" "'g item_impl" | CompileError cfg_error | MacroPanic

definition forward_proxy ::
  "('p, 'e) syn \<Rightarrow> (('p, 'e) proxy_block \<Rightarrow> bool) \<Rightarrow> ('i \<Rightarrow> (cfg_error, 'blk item_impl) result) \<Rightarrow> token list \<Rightarrow> 'i \<Rightarrow>
     ('blk, ('p, 'e) proxy_block) expansion" where
  "forward_proxy sy quotes parse_impl attrs input = (case expand_proxy sy quotes parse_impl attrs input of
      Inr (im, px) \<Rightarrow> Expanded im px
    | Inl (ErrOf e) \<Rightarrow> if e = Panic then MacroPanic else CompileError e
    | Inl BadQuote \<Rightarrow> MacroPanic)"

section \<open>The exported file\<close>

text \<open>
  \<^verbatim>\<open>export_to_file\<close>: a directory is the reversed list of its components, its parent is the tail.
  The file system is a parameter: what exists, and which directories and files can be created.
\<close>

type_synonym path = "string list"

record file_sys =
  fs_exists :: "path \<Rightarrow> bool"
  fs_mkdirs :: "path \<Rightarrow> bool"
  fs_create :: "path \<Rightarrow> bool"

definition generated_dir :: "path \<Rightarrow> path" where
  "generated_dir d = ''forward'' # ''generated'' # ''target'' # d"

definition export_name :: "string \<Rightarrow> path \<Rightarrow> path" where
  "export_name postfix d = (''forward_proxy_'' @ postfix @ ''.rs'') # generated_dir d"

text \<open>The result, and the file that was written.\<close>

definition export_here :: "file_sys \<Rightarrow> string \<Rightarrow> path \<Rightarrow> (bool \<times> path option) option" where
  "export_here fs postfix d =
     (if \<not> fs_exists fs (''target'' # d) then None
      else if \<not> fs_mkdirs fs (generated_dir d) then Some (False, None)
      else if fs_create fs (export_name postfix d) then Some (True, Some (export_name postfix d))
      else None)"

fun export_up :: "file_sys \<Rightarrow> string \<Rightarrow> path \<Rightarrow> bool \<times> path option" where
  "export_up fs postfix [] = (case export_here fs postfix [] of Some r \<Rightarrow> r | None \<Rightarrow> (False, None))"
| "export_up fs postfix (c # d) = (case export_here fs postfix (c # d) of Some r \<Rightarrow> r | None \<Rightarrow> export_up fs postfix d)"

definition export_to_file :: "file_sys \<Rightarrow> path option \<Rightarrow> string \<Rightarrow> bool \<times> path option" where
  "export_to_file fs manifest_dir postfix = (case manifest_dir of
      None \<Rightarrow> (False, None) | Some d \<Rightarrow> export_up fs postfix d)"

section \<open>Items\<close>

text \<open>What the expansion does to an item of the original block, and what a block shows of an item.\<close>

definition stripped :: "attribute list \<Rightarrow> attribute list" where
  "stripped attrs = (case find_forward attrs of None \<Rightarrow> attrs | Some (a, rest) \<Rightarrow> rest)"

fun strip_item :: "'blk impl_item \<Rightarrow> 'blk impl_item" where
  "strip_item (Fn f) = Fn (f\<lparr>fn_attrs := stripped (fn_attrs f)\<rparr>)"
| "strip_item (OtherItem x) = OtherItem x"

fun interface :: "'blk impl_item \<Rightarrow> (attribute list \<times> code \<times> bool \<times> fn_sig) + code" where
  "interface (Fn f) = Inl (fn_attrs f, fn_vis f, fn_defaultness f, fn_sig f)"
| "interface (OtherItem x) = Inr x"

text \<open>The body the generator owes to an item of the source, with the item's own configuration.\<close>

definition item_body ::
  "('p, 'e) syn \<Rightarrow> (('p, 'e) proxy_block \<Rightarrow> bool) \<Rightarrow> string \<Rightarrow> 'blk impl_item \<Rightarrow> (gen_error, ('p, 'e) proxy_block impl_item) result" where
  "item_body sy quotes name it = (case it of
      Fn f \<Rightarrow> bind_result (or_err (fst (parse_forward_config sy (fn_attrs f)))) (\<lambda>c.
        bind_result (parse_quote quotes (gen_body name c (fn_sig f))) (\<lambda>body.
        Inr (Fn (proxy_fn body (f\<lparr>fn_attrs := stripped (fn_attrs f)\<rparr>)))))
    | OtherItem x \<Rightarrow> Inr (OtherItem x))"

lemma or_err_simps [simp]:
  "or_err (Inr x) = Inr x" "or_err (Inl e) = Inl (ErrOf e)"
  "or_err r = Inr x \<longleftrightarrow> r = Inr x" "or_err r = Inl g \<longleftrightarrow> (\<exists>e. r = Inl e \<and> g = ErrOf e)"
  by (cases r; auto simp: or_err_def)+

lemma parse_quote_simps [simp]:
  "parse_quote quotes b = Inr b' \<longleftrightarrow> quotes b \<and> b' = b" "parse_quote quotes b = Inl g \<longleftrightarrow> \<not> quotes b \<and> g = BadQuote"
  by (auto simp: parse_quote_def)

lemma snd_parse_forward: "snd (parse_forward_config sy attrs) = stripped attrs"
  by (simp add: parse_forward_config_def stripped_def split: option.split prod.split)

lemma expand_items_Cons:
  "expand_items sy quotes name (it # items) =
     bind_result (item_body sy quotes name it) (\<lambda>p.
     bind_result (expand_items sy quotes name items) (\<lambda>(os, ps). Inr (strip_item it # os, p # ps)))"
proof (cases it)
  case (Fn f)
  obtain r rest where r: "parse_forward_config sy (fn_attrs f) = (r, rest)"
    by (cases "parse_forward_config sy (fn_attrs f)")
  then have "rest = stripped (fn_attrs f)" using snd_parse_forward[of sy "fn_attrs f"] by simp
  then show ?thesis using Fn r by (cases r) (simp_all add: item_body_def parse_quote_def Let_def)
qed (simp add: item_body_def)

lemma item_body_Inr:
  "item_body sy quotes name it = Inr p \<longleftrightarrow>
     (\<exists>x. it = OtherItem x \<and> p = OtherItem x)
   \<or> (\<exists>f c. it = Fn f \<and> fst (parse_forward_config sy (fn_attrs f)) = Inr c \<and> quotes (gen_body name c (fn_sig f))
       \<and> p = Fn (proxy_fn (gen_body name c (fn_sig f)) (f\<lparr>fn_attrs := stripped (fn_attrs f)\<rparr>)))"
  by (cases it) (auto simp: item_body_def bind_result_def split: sum.splits)

lemma item_body_Inl:
  "item_body sy quotes name it = Inl g \<longleftrightarrow>
     (\<exists>f. it = Fn f \<and> ((\<exists>e. fst (parse_forward_config sy (fn_attrs f)) = Inl e \<and> g = ErrOf e)
       \<or> (\<exists>c. fst (parse_forward_config sy (fn_attrs f)) = Inr c \<and> \<not> quotes (gen_body name c (fn_sig f)) \<and> g = BadQuote)))"
  by (cases it) (auto simp: item_body_def bind_result_def split: sum.splits)

lemma item_body_interface: "item_body sy quotes name it = Inr p \<Longrightarrow> interface p = interface (strip_item it)"
  by (auto simp: item_body_Inr proxy_fn_def)

lemma expand_items_Inr:
  "expand_items sy quotes name items = Inr (os, ps) \<Longrightarrow>
   os = map strip_item items \<and> map Inr ps = map (item_body sy quotes name) items"
  by (induction items arbitrary: os ps)
    (auto simp: expand_items_Cons simp del: expand_items.simps(2,3) elim!: bind_result_InrE)

text \<open>The first item whose body is not built decides the error.\<close>

lemma expand_items_Inl:
  "expand_items sy quotes name items = Inl g \<longleftrightarrow>
   (\<exists>pre it post. items = pre @ it # post \<and> item_body sy quotes name it = Inl g
      \<and> (\<forall>x \<in> set pre. \<exists>p. item_body sy quotes name x = Inr p))"
proof (induction items)
  case (Cons it items)
  show ?case
  proof (cases "item_body sy quotes name it")
    case (Inl g')
    then have "expand_items sy quotes name (it # items) = Inl g \<longleftrightarrow> item_body sy quotes name it = Inl g"
      by (simp add: expand_items_Cons del: expand_items.simps)
    also have "\<dots> \<longleftrightarrow> (\<exists>pre x post. it # items = pre @ x # post \<and> item_body sy quotes name x = Inl g
      \<and> (\<forall>y \<in> set pre. \<exists>p. item_body sy quotes name y = Inr p))" (is "_ \<longleftrightarrow> ?r")
    proof
      assume "item_body sy quotes name it = Inl g"
      then show ?r by (intro exI[of _ "[]"] exI[of _ it] exI[of _ items]) simp
    next
      assume ?r
      then obtain pre x post where "it # items = pre @ x # post" "item_body sy quotes name x = Inl g"
        "\<forall>y \<in> set pre. \<exists>p. item_body sy quotes name y = Inr p" by blast
      then show "item_body sy quotes name it = Inl g" using Inl by (cases pre) auto
    qed
    finally show ?thesis .
  next
    case (Inr p)
    have "expand_items sy quotes name (it # items) = Inl g \<longleftrightarrow> expand_items sy quotes name items = Inl g"
      using Inr by (cases "expand_items sy quotes name items") (auto simp: expand_items_Cons simp del: expand_items.simps)
    also have "\<dots> \<longleftrightarrow> (\<exists>pre x post. it # items = pre @ x # post \<and> item_body sy quotes name x = Inl g
      \<and> (\<forall>y \<in> set pre. \<exists>p. item_body sy quotes name y = Inr p))" (is "_ \<longleftrightarrow> ?r")
    proof
      assume "expand_items sy quotes name items = Inl g"
      then obtain pre x post where "items = pre @ x # post" "item_body sy quotes name x = Inl g"
        "\<forall>y \<in> set pre. \<exists>p. item_body sy quotes name y = Inr p" unfolding Cons.IH by blast
      then show ?r using Inr by (intro exI[of _ "it # pre"] exI[of _ x] exI[of _ post]) auto
    next
      assume ?r
      then obtain pre x post where g: "it # items = pre @ x # post" "item_body sy quotes name x = Inl g"
        "\<forall>y \<in> set pre. \<exists>p. item_body sy quotes name y = Inr p" by blast
      then obtain pre' where "pre = it # pre'" using Inr by (cases pre) auto
      then show "expand_items sy quotes name items = Inl g" unfolding Cons.IH using g by auto
    qed
    finally show ?thesis .
  qed
qed simp

lemma expandedD:
  assumes "forward_proxy sy quotes parse_impl attrs input = Expanded im px"
  obtains pc src name where "parse_proxy_config sy attrs = Inr pc" and "parse_impl input = Inr src"
    and "(case cfg_str pc ''name'' of Some n \<Rightarrow> Inr n | None \<Rightarrow> get_default_name src) = Inr name"
    and "im = src\<lparr>im_items := map strip_item (im_items src)\<rparr>"
    and "map Inr (im_items px) = map (item_body sy quotes name) (im_items src)"
    and "im_attrs px = im_attrs src" and "im_defaultness px = im_defaultness src" and "im_unsafety px = im_unsafety src"
    and "im_generics px = im_generics src" and "im_trait px = im_trait src" and "im_self px = ForwardProxyOf (im_self src)"
proof -
  have e: "expand_proxy sy quotes parse_impl attrs input = Inr (im, px)"
    using assms by (auto simp: forward_proxy_def split: sum.splits prod.splits gen_error.splits if_splits)
  obtain pc where pc: "parse_proxy_config sy attrs = Inr pc" using e by (auto simp: expand_proxy_def elim!: bind_result_InrE)
  obtain src where src: "parse_impl input = Inr src" using e pc by (auto simp: expand_proxy_def elim!: bind_result_InrE)
  obtain name where name: "(case cfg_str pc ''name'' of Some n \<Rightarrow> Inr n | None \<Rightarrow> get_default_name src) = Inr name"
    using e pc src by (auto simp: expand_proxy_def elim!: bind_result_InrE)
  obtain os ps where items: "expand_items sy quotes name (im_items src) = Inr (os, ps)"
    using e pc src name by (auto simp: expand_proxy_def elim!: bind_result_InrE)
  show thesis
    using that[OF pc src name] expand_items_Inr[OF items] e pc src name items by (auto simp: expand_proxy_def)
qed

section \<open>Properties\<close>

text \<open>
  C38. What an expansion keeps: the annotated block comes out unchanged but for the \<^verbatim>\<open>forward\<close>
  attribute of each method; the proxy block implements the same trait with the same generics,
  attributes and items in the same order, each method with the same signature, visibility and
  remaining attributes, for the type \<^verbatim>\<open>ForwardProxy<Target>\<close>.
\<close>

theorem expansion_interface:
  assumes "forward_proxy sy quotes parse_impl attrs input = Expanded im px"
  shows "\<exists>src. parse_impl input = Inr src \<and> im = src\<lparr>im_items := map strip_item (im_items src)\<rparr>
    \<and> map interface (im_items px) = map interface (im_items im)
    \<and> im_self px = ForwardProxyOf (im_self src) \<and> im_trait px = im_trait src \<and> im_generics px = im_generics src
    \<and> im_attrs px = im_attrs src \<and> im_defaultness px = im_defaultness src \<and> im_unsafety px = im_unsafety src"
proof -
  from assms obtain pc src name where s: "parse_impl input = Inr src"
    "im = src\<lparr>im_items := map strip_item (im_items src)\<rparr>"
    "map Inr (im_items px) = map (item_body sy quotes name) (im_items src)"
    "im_attrs px = im_attrs src" "im_defaultness px = im_defaultness src" "im_unsafety px = im_unsafety src"
    "im_generics px = im_generics src" "im_trait px = im_trait src" "im_self px = ForwardProxyOf (im_self src)"
    by (rule expandedD) blast
  have "map interface ps = map interface (map strip_item items)" if "map Inr ps = map (item_body sy quotes name) items" for ps items
    using that
  proof (induction items arbitrary: ps)
    case (Cons it items)
    then obtain p ps' where "ps = p # ps'" "item_body sy quotes name it = Inr p" "map Inr ps' = map (item_body sy quotes name) items"
      by (cases ps) auto
    then show ?case using Cons.IH item_body_interface[of sy quotes name it p] by simp
  qed simp
  from this[OF s(3)] show ?thesis using s by auto
qed

lemma in_proxyD:
  assumes "map Inr (im_items px) = map (item_body sy quotes name) items" and "Fn g \<in> set (im_items px)"
  obtains f c where "Fn f \<in> set items" and "fst (parse_forward_config sy (fn_attrs f)) = Inr c"
    and "quotes (gen_body name c (fn_sig f))"
    and "g = proxy_fn (gen_body name c (fn_sig f)) (f\<lparr>fn_attrs := stripped (fn_attrs f)\<rparr>)"
proof -
  have "(Inr (Fn g) :: (gen_error, _) result) \<in> set (map Inr (im_items px))" using assms(2) by simp
  then obtain it where it: "it \<in> set items" "item_body sy quotes name it = Inr (Fn g)" unfolding assms(1) by auto
  then show thesis using that unfolding item_body_Inr by blast
qed

text \<open>
  How an expansion ends without code, in the order in which the generator works: the attribute of the
  macro, the item, an inherent \<^verbatim>\<open>impl\<close> without a name, the first method whose body is not built.
\<close>

lemma expand_proxy_Inl:
  "expand_proxy sy quotes parse_impl attrs input = Inl g \<longleftrightarrow>
     (\<exists>e. parse_proxy_config sy attrs = Inl e \<and> g = ErrOf e)
   \<or> (\<exists>pc. parse_proxy_config sy attrs = Inr pc \<and>
       ((\<exists>e. parse_impl input = Inl e \<and> g = ErrOf e)
        \<or> (\<exists>src. parse_impl input = Inr src \<and>
            (let name = (case cfg_str pc ''name'' of Some n \<Rightarrow> Inr n | None \<Rightarrow> get_default_name src)
             in (\<exists>e. name = Inl e \<and> g = ErrOf e) \<or> (\<exists>n. name = Inr n \<and> expand_items sy quotes n (im_items src) = Inl g)))))"
  by (auto simp: expand_proxy_def bind_result_def Let_def split: sum.splits prod.splits option.splits)

lemma export_up_nearest:
  assumes "fs_exists fs (''target'' # a)" and "fs_mkdirs fs (generated_dir a)" and "fs_create fs (export_name pf a)"
    and "\<forall>k < length cs. \<not> fs_exists fs (''target'' # drop k cs @ a)"
  shows "export_to_file fs (Some (cs @ a)) pf = (True, Some (export_name pf a))"
  using assms(4)
proof (induction cs)
  case Nil
  then show ?case using assms(1-3) by (cases a) (simp_all add: export_to_file_def export_here_def)
next
  case (Cons c cs)
  have "\<forall>k < length cs. \<not> fs_exists fs (''target'' # drop k cs @ a)"
  proof (intro allI impI)
    fix k assume "k < length cs"
    then show "\<not> fs_exists fs (''target'' # drop k cs @ a)" using Cons.prems[rule_format, of "Suc k"] by simp
  qed
  then have "export_up fs pf (cs @ a) = (True, Some (export_name pf a))" using Cons.IH by (simp add: export_to_file_def)
  moreover have "export_here fs pf (c # cs @ a) = None" using Cons.prems[rule_format, of 0] by (simp add: export_here_def)
  ultimately show ?case by (simp add: export_to_file_def)
qed

section \<open>A concrete expansion\<close>

text \<open>
  One method with a receiver and one argument, \<^verbatim>\<open>#[forward(Center)] async fn ping(&self, n: i32)\<close>, and
  one item that is not a method.
\<close>

definition ex_sig :: fn_sig where
  "ex_sig = \<lparr>sig_ident = ''ping'', sig_async = True,
     sig_inputs = [Receiver False [Ident ''Self''], Typed [Ident ''n''] [Ident ''i32'']], sig_rest = []\<rparr>"

definition ex_fn :: "unit impl_fn" where
  "ex_fn = \<lparr>fn_attrs = [\<lparr>attr_path = ''forward'', attr_meta = MList [Ident ''Center'']\<rparr>], fn_vis = [],
     fn_defaultness = False, fn_sig = ex_sig, fn_block = ()\<rparr>"

definition ex_impl :: "unit item_impl" where
  "ex_impl = \<lparr>im_attrs = [], im_defaultness = False, im_unsafety = False, im_generics = [],
     im_trait = Some [''game'', ''TargetTrait''], im_self = SelfTy [Ident ''Target''],
     im_items = [OtherItem [Ident ''type''], Fn ex_fn]\<rparr>"

definition ex_config :: "(string, int) config" where
  "ex_config = empty_config(''server'' \<mapsto> PathSelector ''Center'' None)"

definition ex_proxy_fn :: "(string, int) proxy_block impl_fn" where
  "ex_proxy_fn = proxy_fn (gen_body ''TargetTrait'' ex_config ex_sig) (ex_fn\<lparr>fn_attrs := []\<rparr>)"

text \<open>The least that \<^verbatim>\<open>syn\<close> refuses.\<close>

definition no_mut :: "(string, int) proxy_block \<Rightarrow> bool" where
  "no_mut b \<longleftrightarrow> list_all (\<lambda>a. \<not> mut_ident a) (gb_struct_args b)"

lemma no_mut_rejects: "rejects_mut no_mut"
  by (simp add: rejects_mut_def no_mut_def list_all_iff)

definition ex_proxy :: "(string, int) proxy_block item_impl" where
  "ex_proxy = \<lparr>im_attrs = [], im_defaultness = False, im_unsafety = False, im_generics = [],
     im_trait = Some [''game'', ''TargetTrait''], im_self = ForwardProxyOf (SelfTy [Ident ''Target'']),
     im_items = [OtherItem [Ident ''type''], Fn ex_proxy_fn]\<rparr>"

lemma ex_parse: "parse_forward_config simple_syn (fn_attrs ex_fn) = (Inr ex_config, [])"
  by (simp add: ex_fn_def parse_forward_config_def parse_config_def parse_setting_def parse_named_def
      parse_path_selector_def forward_config_def simple_syn_def set_elided_def ex_config_def empty_config_def Let_def)

lemma ex_expansion:
  "forward_proxy simple_syn no_mut (\<lambda>_ :: unit. Inr ex_impl) [] ()
   = Expanded (ex_impl\<lparr>im_items := [OtherItem [Ident ''type''], Fn (ex_fn\<lparr>fn_attrs := []\<rparr>)]\<rparr>) ex_proxy"
proof -
  have sig: "fn_sig ex_fn = ex_sig" by (simp add: ex_fn_def)
  have ok: "parse_quote no_mut (gen_body n c ex_sig) = Inr (gen_body n c ex_sig)" for n c
    by (simp add: no_mut_def gen_body_simps ex_sig_def)
  have "expand_items simple_syn no_mut ''TargetTrait'' (im_items ex_impl)
    = Inr ([OtherItem [Ident ''type''], Fn (ex_fn\<lparr>fn_attrs := []\<rparr>)], [OtherItem [Ident ''type''], Fn ex_proxy_fn])"
    by (simp add: ex_impl_def ex_parse ex_proxy_fn_def sig ok Let_def del: parse_quote_simps)
  then show ?thesis
    by (simp add: forward_proxy_def expand_proxy_def parse_proxy_config_def parse_config_def cfg_str_def
        empty_config_def get_default_name_def ex_proxy_def) (simp add: ex_impl_def)
qed

lemma expansion_interface_witness:
  "\<exists>src. src = ex_impl \<and> map interface (im_items ex_proxy)
     = map interface [OtherItem [Ident ''type''], Fn (ex_fn\<lparr>fn_attrs := []\<rparr>)]"
  using expansion_interface[OF ex_expansion] by auto

end
