(* ===== verification/DebugFmt.thy ===== *)
theory DebugFmt
  imports Prelude
begin

text \<open>
  The \<^verbatim>\<open>Debug\<close> output of strings and options as the standard library writes it, for the components
  that print their data this way. Characters are the bytes of the string; those above 127 are
  taken as parts of printable characters.
\<close>

section \<open>Strings\<close>

definition hex_digit :: "nat \<Rightarrow> char" where
  "hex_digit k = (if k < 10 then char_of (48 + k) else char_of (87 + k))"

text \<open>\<^verbatim>\<open>char::escape_debug\<close>, in a string: single quotes are left alone.\<close>

definition esc_char :: "char \<Rightarrow> string" where
  "esc_char c = (let n = of_char c :: nat in
     if n = 0 then [CHR 0x5C, CHR ''0'']
     else if n = 9 then [CHR 0x5C, CHR ''t'']
     else if n = 10 then [CHR 0x5C, CHR ''n'']
     else if n = 13 then [CHR 0x5C, CHR ''r'']
     else if n = 34 \<or> n = 92 then [CHR 0x5C, c]
     else if n < 16 then [CHR 0x5C, CHR ''u'', CHR 0x7B, hex_digit n, CHR 0x7D]
     else if n < 32 \<or> n = 127 then [CHR 0x5C, CHR ''u'', CHR 0x7B, hex_digit (n div 16), hex_digit (n mod 16), CHR 0x7D]
     else [c])"

definition debug_str :: "string \<Rightarrow> string" where
  "debug_str s = [CHR 0x22] @ concat (map esc_char s) @ [CHR 0x22]"

definition debug_opt :: "('a \<Rightarrow> string) \<Rightarrow> 'a option \<Rightarrow> string" where
  "debug_opt f x = (case x of None \<Rightarrow> ''None'' | Some a \<Rightarrow> ''Some('' @ f a @ '')'')"

section \<open>Nothing is lost\<close>

text \<open>Reading one character back.\<close>

definition hex_value :: "char \<Rightarrow> nat" where
  "hex_value c = (let n = of_char c in if n < 58 then n - 48 else n - 87)"

definition unesc :: "string \<Rightarrow> (char \<times> string) option" where
  "unesc s = (case s of [] \<Rightarrow> None | x # r \<Rightarrow>
     if x \<noteq> CHR 0x5C then Some (x, r) else (case r of [] \<Rightarrow> None | y # q \<Rightarrow>
       if y = CHR ''0'' then Some (CHR 0x00, q)
       else if y = CHR ''t'' then Some (CHR 0x09, q)
       else if y = CHR ''n'' then Some (CHR 0x0A, q)
       else if y = CHR ''r'' then Some (CHR 0x0D, q)
       else if y \<noteq> CHR ''u'' then Some (y, q)
       else (case q of b # h # z # p \<Rightarrow> if z = CHR 0x7D then Some (char_of (hex_value h), p)
           else Some (char_of (16 * hex_value h + hex_value z), tl p) | _ \<Rightarrow> None)))"

lemma of_hex_digit [simp]: "k < 16 \<Longrightarrow> of_char (hex_digit k) = (if k < 10 then 48 + k else 87 + k)"
  by (simp add: hex_digit_def)

lemma hex_value_digit [simp]: "k < 16 \<Longrightarrow> hex_value (hex_digit k) = k"
  by (simp add: hex_value_def Let_def)

lemma hex_digit_not_brace [simp]: "k < 16 \<Longrightarrow> hex_digit k \<noteq> CHR 0x7D"
proof
  assume k: "k < 16" and "hex_digit k = CHR 0x7D"
  then have "hex_value (CHR 0x7D) = k" using hex_value_digit[OF k] by simp
  moreover have "hex_value (CHR 0x7D) = 38" by (simp add: hex_value_def)
  ultimately show False using k by simp
qed

lemma unesc_esc [simp]: "unesc (esc_char c @ r) = Some (c, r)"
proof -
  define n where "n = (of_char c :: nat)"
  have c: "c = char_of n" by (simp add: n_def)
  have n: "n < 256" unfolding n_def by (simp add: of_char_def)
  consider "n = 0" | "n = 9" | "n = 10" | "n = 13" | "n = 34" | "n = 92" | "n \<notin> {0, 9, 10, 13}" "n < 16"
    | "16 \<le> n" "n < 32" | "n = 127" | "32 \<le> n" "n \<notin> {34, 92, 127}" by fastforce
  then show ?thesis
  proof cases
    case 7
    then show ?thesis using c by (simp add: unesc_def esc_char_def n_def[symmetric] Let_def)
  next
    case 8
    then have "n div 16 < 16" "n mod 16 < 16" by auto
    then show ?thesis using 8 c by (simp add: unesc_def esc_char_def n_def[symmetric] Let_def)
  next
    case 10
    then have "c \<noteq> CHR 0x5C" using n_def by auto
    moreover have "esc_char c = [c]" using 10 by (simp add: esc_char_def n_def[symmetric] Let_def)
    ultimately show ?thesis by (simp add: unesc_def)
  qed (use c in \<open>simp_all add: unesc_def esc_char_def n_def[symmetric] Let_def char_of_def bit_0\<close>)
qed


lemma esc_char_quote: "esc_char c @ r \<noteq> CHR 0x22 # r'"
proof
  assume e: "esc_char c @ r = CHR 0x22 # r'"
  then have "unesc (CHR 0x22 # r') = Some (c, r)" using unesc_esc[of c r] by simp
  then have "c = CHR 0x22" by (simp add: unesc_def)
  with e show False by (simp add: esc_char_def)
qed

lemma esc_char_cont: "esc_char c @ r = esc_char d @ r' \<longleftrightarrow> c = d \<and> r = r'"
proof
  assume e: "esc_char c @ r = esc_char d @ r'"
  have "Some (c, r) = Some (d, r')" unfolding unesc_esc[symmetric] e ..
  then show "c = d \<and> r = r'" by simp
qed simp

text \<open>A printed string determines the string, whatever follows it.\<close>

lemma esc_concat_cont:
  "concat (map esc_char s) @ CHR 0x22 # r = concat (map esc_char t) @ CHR 0x22 # r' \<longleftrightarrow> s = t \<and> r = r'"
proof (induction s arbitrary: t)
  case Nil
  show ?case by (cases t) (simp_all add: esc_char_quote esc_char_quote[symmetric])
next
  case (Cons c s)
  show ?case
  proof (cases t)
    case Nil
    then show ?thesis by (simp add: esc_char_quote)
  next
    case (Cons d t')
    then show ?thesis using Cons.IH[of t'] by (simp add: esc_char_cont)
  qed
qed

lemma debug_str_cont: "debug_str s @ r = debug_str t @ r' \<longleftrightarrow> s = t \<and> r = r'"
  by (simp add: debug_str_def esc_concat_cont)

lemma debug_str_inj [simp]: "debug_str s = debug_str t \<longleftrightarrow> s = t"
  using debug_str_cont[of s "[]" t "[]"] by simp

lemma debug_opt_cont:
  "debug_opt debug_str x @ r = debug_opt debug_str y @ r' \<longleftrightarrow> x = y \<and> r = r'"
  by (cases x; cases y) (auto simp: debug_opt_def debug_str_cont)

end
