(* ===== verification/MacroTotal.thy ===== *)
theory MacroTotal
  imports MacroGen DebugFmt
begin

text \<open>
  How an expansion of \<open>MacroGen\<close> can end: with code, with an error, or with a panic of \<^verbatim>\<open>parse_quote!\<close>. Also the
  \<^verbatim>\<open>Debug\<close> output of the configurations.
\<close>

section \<open>Debug output\<close>

text \<open>
  \<^verbatim>\<open>impl Debug for ForwardConfig\<close> and \<^verbatim>\<open>ProxyConfig\<close>. How \<^verbatim>\<open>quote\<close> prints a path, an expression and a
  literal is a parameter; the name of a proxy is printed by its value.
\<close>

record ('p, 'e) token_text =
  tt_path :: "'p \<Rightarrow> string"
  tt_expr :: "'e \<Rightarrow> string"
  tt_str :: "string \<Rightarrow> string"
  tt_int :: "int \<Rightarrow> string"

definition cfg_int :: "('p, 'e) config \<Rightarrow> string \<Rightarrow> int option" where
  "cfg_int c n = (case c n of Some (LitInt i) \<Rightarrow> Some i | _ \<Rightarrow> None)"

definition selector_text :: "('p, 'e) token_text \<Rightarrow> 'p \<times> 'e option \<Rightarrow> string" where
  "selector_text tt v = (case v of
      (path, Some s) \<Rightarrow> tt_path tt path @ ''('' @ tt_expr tt s @ '')''
    | (path, None) \<Rightarrow> tt_path tt path)"

definition debug_forward_config :: "('p, 'e) token_text \<Rightarrow> ('p, 'e) config \<Rightarrow> string" where
  "debug_forward_config tt c =
     ''ForwardConfig { server: '' @ debug_opt debug_str (map_option (selector_text tt) (cfg_selector c ''server''))
     @ '', thread: '' @ debug_opt debug_str (map_option (selector_text tt) (cfg_selector c ''thread''))
     @ '', name: '' @ debug_opt debug_str (map_option (tt_str tt) (cfg_str c ''name''))
     @ '', timeout: '' @ debug_opt debug_str (map_option (tt_int tt) (cfg_int c ''timeout'')) @ '' }''"

definition debug_proxy_config :: "('p, 'e) config \<Rightarrow> string" where
  "debug_proxy_config c = ''ProxyConfig { name: '' @ debug_opt debug_str (cfg_str c ''name'') @ '' }''"

text \<open>The output tells configurations apart that differ in the text of a field.\<close>

lemma debug_forward_config_inj:
  "debug_forward_config tt c = debug_forward_config tt d \<longleftrightarrow>
     map_option (selector_text tt) (cfg_selector c ''server'') = map_option (selector_text tt) (cfg_selector d ''server'')
   \<and> map_option (selector_text tt) (cfg_selector c ''thread'') = map_option (selector_text tt) (cfg_selector d ''thread'')
   \<and> map_option (tt_str tt) (cfg_str c ''name'') = map_option (tt_str tt) (cfg_str d ''name'')
   \<and> map_option (tt_int tt) (cfg_int c ''timeout'') = map_option (tt_int tt) (cfg_int d ''timeout'')"
  unfolding debug_forward_config_def same_append_eq debug_opt_cont by blast

lemma debug_proxy_config_inj: "debug_proxy_config c = debug_proxy_config d \<longleftrightarrow> cfg_str c ''name'' = cfg_str d ''name''"
  unfolding debug_proxy_config_def same_append_eq debug_opt_cont by blast

section \<open>Property\<close>

text \<open>
  C16. Every expansion ends, on any attribute and any item, whatever \<^verbatim>\<open>syn\<close> makes of them (its parsers consume
  what they read, \<open>syn_ok\<close>): with the two blocks, with
  an error, or with a panic of \<^verbatim>\<open>parse_quote!\<close>. No \<^verbatim>\<open>assert!\<close> or \<^verbatim>\<open>unwrap\<close> of the parser fails, and the loops over the
  settings and the items end. It panics exactly when, of the methods that cannot be built, the first has a good
  attribute but a body that \<^verbatim>\<open>syn\<close> does not parse. As \<^verbatim>\<open>mut\<close> starts no expression, a block with a method that takes
  \<^verbatim>\<open>&mut self\<close> is never expanded.
\<close>

theorem expansion_total:
  fixes parse_impl :: "'i \<Rightarrow> (cfg_error, 'blk item_impl) result"
  assumes "syn_ok sy" and "parse_impl input \<notin> {Inl Panic, Inl NoFuel}"
  shows "expand_proxy sy quotes parse_impl attrs input \<notin> {Inl (ErrOf Panic), Inl (ErrOf NoFuel)}
    \<and> (forward_proxy sy quotes parse_impl attrs input = MacroPanic \<longleftrightarrow>
        (\<exists>pc src name pre f c post. parse_proxy_config sy attrs = Inr pc \<and> parse_impl input = Inr src
          \<and> (case cfg_str pc ''name'' of Some n \<Rightarrow> Inr n | None \<Rightarrow> get_default_name src) = Inr name
          \<and> im_items src = pre @ Fn f # post \<and> fst (parse_forward_config sy (fn_attrs f)) = Inr c
          \<and> \<not> quotes (gen_body name c (fn_sig f)) \<and> (\<forall>x \<in> set pre. \<exists>p. item_body sy quotes name x = Inr p)))
    \<and> (rejects_mut quotes \<and> parse_impl input = Inr block \<and> Fn g \<in> set (im_items block) \<and> Receiver True ty \<in> set (sig_inputs (fn_sig g))
        \<longrightarrow> (\<forall>im px. forward_proxy sy quotes parse_impl attrs input \<noteq> Expanded im px))"
proof (intro conjI impI allI)
  have fwd: "fst (parse_forward_config sy as) \<notin> {Inl Panic, Inl NoFuel}" for as
    using config_parser_total[OF assms(1)]
    by (auto simp: parse_forward_config_def split: option.splits prod.splits meta.splits)
  have items: "expand_items sy quotes n items \<notin> {Inl (ErrOf Panic), Inl (ErrOf NoFuel)}" for n and items :: "'blk impl_item list"
    using fwd by (auto simp: expand_items_Inl item_body_Inl)
  show total: "expand_proxy sy quotes parse_impl attrs input \<notin> {Inl (ErrOf Panic), Inl (ErrOf NoFuel)}"
    using items config_parser_total[OF assms(1)] assms(2)
    by (auto simp: expand_proxy_Inl Let_def get_default_name_def missing_name_def split: option.splits if_splits)
  have "forward_proxy sy quotes parse_impl attrs input = MacroPanic \<longleftrightarrow> expand_proxy sy quotes parse_impl attrs input = Inl BadQuote"
    using total by (auto simp: forward_proxy_def split: sum.splits gen_error.splits if_splits)
  also have "\<dots> \<longleftrightarrow> (\<exists>pc src name. parse_proxy_config sy attrs = Inr pc \<and> parse_impl input = Inr src
      \<and> (case cfg_str pc ''name'' of Some n \<Rightarrow> Inr n | None \<Rightarrow> get_default_name src) = Inr name
      \<and> expand_items sy quotes name (im_items src) = Inl BadQuote)"
    by (auto simp: expand_proxy_Inl Let_def)
  finally show "forward_proxy sy quotes parse_impl attrs input = MacroPanic \<longleftrightarrow>
      (\<exists>pc src name pre f c post. parse_proxy_config sy attrs = Inr pc \<and> parse_impl input = Inr src
        \<and> (case cfg_str pc ''name'' of Some n \<Rightarrow> Inr n | None \<Rightarrow> get_default_name src) = Inr name
        \<and> im_items src = pre @ Fn f # post \<and> fst (parse_forward_config sy (fn_attrs f)) = Inr c
        \<and> \<not> quotes (gen_body name c (fn_sig f)) \<and> (\<forall>x \<in> set pre. \<exists>p. item_body sy quotes name x = Inr p))"
    unfolding expand_items_Inl item_body_Inl by blast
next
  fix im px
  assume m: "rejects_mut quotes \<and> parse_impl input = Inr block \<and> Fn g \<in> set (im_items block) \<and> Receiver True ty \<in> set (sig_inputs (fn_sig g))"
  show "forward_proxy sy quotes parse_impl attrs input \<noteq> Expanded im px"
  proof
    assume "forward_proxy sy quotes parse_impl attrs input = Expanded im px"
    then obtain pc src name where s: "parse_impl input = Inr src" "map Inr (im_items px) = map (item_body sy quotes name) (im_items src)"
      by (rule expandedD) blast
    have "item_body sy quotes name (Fn g) \<in> set (map (item_body sy quotes name) (im_items src))" using m s(1) by auto
    then obtain p where "item_body sy quotes name (Fn g) = Inr p" unfolding s(2)[symmetric] by auto
    then obtain c where "quotes (gen_body name c (fn_sig g))" by (auto simp: item_body_Inr)
    moreover have "struct_arg (Receiver True ty) \<in> set (gb_struct_args (gen_body name c (fn_sig g)))"
      unfolding gen_body_simps set_map using m by (intro imageI) simp
    ultimately have "\<not> mut_ident (struct_arg (Receiver True ty))" using m unfolding rejects_mut_def by blast
    then show False by simp
  qed
qed

text \<open>A bad attribute is an error; \<^verbatim>\<open>&mut self\<close> is a panic.\<close>

definition ex_mut_impl :: "unit item_impl" where
  "ex_mut_impl = ex_impl\<lparr>im_items := [Fn (ex_fn\<lparr>fn_sig := ex_sig\<lparr>sig_inputs := [Receiver True [Ident ''Self'']]\<rparr>\<rparr>)]\<rparr>"

lemma expansion_total_witness:
  "expand_proxy simple_syn no_mut (\<lambda>_ :: unit. Inr ex_impl) [Comma, Num 3] () \<notin> {Inl (ErrOf Panic), Inl (ErrOf NoFuel)}
   \<and> forward_proxy simple_syn no_mut (\<lambda>_ :: unit. Inr ex_mut_impl) [] () = MacroPanic"
proof
  show "expand_proxy simple_syn no_mut (\<lambda>_ :: unit. Inr ex_impl) [Comma, Num 3] () \<notin> {Inl (ErrOf Panic), Inl (ErrOf NoFuel)}"
    using expansion_total[OF simple_ok, of "\<lambda>_ :: unit. Inr ex_impl" "()" no_mut "[Comma, Num 3]"] by blast
  have "parse_proxy_config simple_syn [] = Inr empty_config" by (simp add: parse_proxy_config_def parse_config_def)
  moreover have "(case cfg_str empty_config ''name'' of Some n \<Rightarrow> Inr n | None \<Rightarrow> get_default_name ex_mut_impl) = Inr ''TargetTrait''"
    by (simp add: cfg_str_def empty_config_def get_default_name_def ex_mut_impl_def ex_impl_def)
  moreover have "im_items ex_mut_impl = [] @ Fn (ex_fn\<lparr>fn_sig := ex_sig\<lparr>sig_inputs := [Receiver True [Ident ''Self'']]\<rparr>\<rparr>) # []"
    by (simp add: ex_mut_impl_def)
  moreover have "\<not> no_mut (gen_body ''TargetTrait'' ex_config (ex_sig\<lparr>sig_inputs := [Receiver True [Ident ''Self'']]\<rparr>))"
    by (simp add: no_mut_def gen_body_simps)
  moreover have "fst (parse_forward_config simple_syn (fn_attrs (ex_fn\<lparr>fn_sig := ex_sig\<lparr>sig_inputs := [Receiver True [Ident ''Self'']]\<rparr>\<rparr>))) = Inr ex_config"
    using ex_parse by simp
  ultimately have "\<exists>pc src name pre f c post. parse_proxy_config simple_syn [] = Inr pc
      \<and> (Inr ex_mut_impl :: (cfg_error, _) result) = Inr src
      \<and> (case cfg_str pc ''name'' of Some n \<Rightarrow> Inr n | None \<Rightarrow> get_default_name src) = Inr name
      \<and> im_items src = pre @ Fn f # post \<and> fst (parse_forward_config simple_syn (fn_attrs f)) = Inr c
      \<and> \<not> no_mut (gen_body name c (fn_sig f)) \<and> (\<forall>x \<in> set pre. \<exists>p. item_body simple_syn no_mut name x = Inr p)"
    by (intro exI[of _ empty_config] exI[of _ ex_mut_impl] exI[of _ "''TargetTrait''"] exI[of _ "[]"]
        exI[of _ "ex_fn\<lparr>fn_sig := ex_sig\<lparr>sig_inputs := [Receiver True [Ident ''Self'']]\<rparr>\<rparr>"] exI[of _ ex_config]) simp
  then show "forward_proxy simple_syn no_mut (\<lambda>_ :: unit. Inr ex_mut_impl) [] () = MacroPanic"
    using expansion_total[OF simple_ok, of "\<lambda>_ :: unit. Inr ex_mut_impl" "()" no_mut "[]"] by simp
qed

end
