(* ===== verification/ProxyMeaning.thy ===== *)
theory ProxyMeaning
  imports MacroGen ForwardCore
begin

text \<open>
  What the code that \<^verbatim>\<open>#[forward_proxy]\<close> generates does when it runs on the runtime crate: the bodies of
  \<open>MacroGen\<close> as method objects of \<open>ForwardCore\<close>. The meaning of the user's kinds, selectors and methods is a
  parameter, instantiated by the handles of \<^verbatim>\<open>examples/test.rs\<close>.
\<close>

section \<open>The meaning of a generated body\<close>

text \<open>\<open>kind_of\<close> and \<open>sel_of\<close> evaluate the path and the selector expression of a setting; \<^verbatim>\<open>()\<close> where there is none.\<close>

definition lit_selector :: "('p \<Rightarrow> kind) \<Rightarrow> ('e \<Rightarrow> 'a selector) \<Rightarrow> ('p, 'e) selector_lit \<Rightarrow> (kind, 'a) forward_selector" where
  "lit_selector kind_of sel_of l = \<lparr>
     fs_kind = (case gs_kind l of None \<Rightarrow> UnitKind | Some p \<Rightarrow> kind_of p),
     fs_selector = (case gs_selector l of None \<Rightarrow> SelUnit | Some e \<Rightarrow> sel_of e)\<rparr>"

definition block_config :: "('p \<Rightarrow> kind) \<Rightarrow> ('e \<Rightarrow> 'a selector) \<Rightarrow> ('p, 'e) proxy_block \<Rightarrow> (kind, 'a) fwd_config" where
  "block_config kind_of sel_of b =
     \<lparr>server = lit_selector kind_of sel_of (gb_server b), thread = lit_selector kind_of sel_of (gb_thread b)\<rparr>"

definition block_meta :: "('p, 'e) proxy_block \<Rightarrow> metadata" where
  "block_meta b = \<lparr>md_name = gb_proxy_name b, md_method = gb_forward_name b\<rparr>"

text \<open>
  The body of a method that takes \<^verbatim>\<open>&self\<close> and nothing else: the tuple is the proxy, the closure takes its
  target, and calls the method of the callee's name on it. No other body compiles: \<^verbatim>\<open>as_raw_ref\<close> gives a shared
  reference, on which a method that takes \<^verbatim>\<open>self\<close> or \<^verbatim>\<open>&mut self\<close> cannot be called, and a further argument is not
  passed on. \<open>shared_self\<close> is the type \<^verbatim>\<open>&Self\<close> of the receiver (\<open>Other 38\<close> is the token \<^verbatim>\<open>&\<close>).
\<close>

definition shared_self :: code where
  "shared_self = [Other 38, Ident ''Self'']"

definition takes_self :: "('p, 'e) proxy_block \<Rightarrow> bool" where
  "takes_self b \<longleftrightarrow> gb_closure_args b = [shared_self] \<and> gb_destruct b = [PatIdent False ''target'']
     \<and> gb_struct_args b = [PatIdent False ''self''] \<and> gb_call_args b = []"

definition run_sync_body ::
  "('p \<Rightarrow> kind) \<Rightarrow> ('e \<Rightarrow> 't forward_proxy selector) \<Rightarrow> (string \<Rightarrow> 't \<Rightarrow> ('u, 'r) act) \<Rightarrow> ('rx \<Rightarrow> ('u, 'r option) act)
   \<Rightarrow> ('p, 'e) proxy_block \<Rightarrow> ('t forward_proxy \<Rightarrow> ('u, 'r completion) act) option" where
  "run_sync_body kind_of sel_of methods recv b =
     (if gb_struct b = ForwardSyncMethod \<and> gb_call b = IntoSync \<and> takes_self b
      then Some (\<lambda>self.
        let config = block_config kind_of sel_of b; meta = block_meta b;
            method = \<lparr>sm_config = config, sm_meta = meta, sm_method = (\<lambda>target. methods (gb_callee b) (as_raw_ref target))\<rparr>
        in act_bind (call_rpc kind_select is_own_side forward_sync method self) (into_sync recv))
      else None)"

definition run_async_body ::
  "nat \<Rightarrow> ('p \<Rightarrow> kind) \<Rightarrow> ('e \<Rightarrow> 't forward_proxy selector) \<Rightarrow> (string \<Rightarrow> 't \<Rightarrow> ('u, 'r) fut) \<Rightarrow> ('rx \<Rightarrow> ('u, 'r option) fut)
   \<Rightarrow> ('p, 'e) proxy_block \<Rightarrow> ('t forward_proxy \<Rightarrow> ('u, 'r completion) fut) option" where
  "run_async_body n kind_of sel_of methods await b =
     (if gb_struct b = ForwardAsyncMethod \<and> gb_call b = AwaitBoth \<and> takes_self b
      then Some (\<lambda>self.
        let config = block_config kind_of sel_of b; meta = block_meta b;
            method = \<lparr>am_config = config, am_meta = meta, am_method = (\<lambda>target. methods (gb_callee b) (as_raw_ref target))\<rparr>
        in fut_bind (call_rpc_async kind_select is_own_side (forward_async n) method self) (into_async await))
      else None)"

section \<open>What the attribute asks for\<close>

text \<open>The route that a \<^verbatim>\<open>#[forward(...)]\<close> attribute describes, read off its parsed settings.\<close>

fun selector_of :: "('p \<Rightarrow> kind) \<Rightarrow> ('e \<Rightarrow> 'a selector) \<Rightarrow> ('p \<times> 'e option) option \<Rightarrow> (kind, 'a) forward_selector" where
  "selector_of kind_of sel_of None = unit_selector"
| "selector_of kind_of sel_of (Some (p, None)) = \<lparr>fs_kind = kind_of p, fs_selector = SelUnit\<rparr>"
| "selector_of kind_of sel_of (Some (p, Some e)) = \<lparr>fs_kind = kind_of p, fs_selector = sel_of e\<rparr>"

definition attr_config :: "('p \<Rightarrow> kind) \<Rightarrow> ('e \<Rightarrow> 'a selector) \<Rightarrow> ('p, 'e) config \<Rightarrow> (kind, 'a) fwd_config" where
  "attr_config kind_of sel_of c =
     \<lparr>server = selector_of kind_of sel_of (cfg_selector c ''server''), thread = selector_of kind_of sel_of (cfg_selector c ''thread'')\<rparr>"

definition attr_meta :: "string \<Rightarrow> ('p, 'e) config \<Rightarrow> string \<Rightarrow> metadata" where
  "attr_meta proxy c ident = \<lparr>md_name = proxy, md_method = (case cfg_str c ''name'' of Some n \<Rightarrow> n | None \<Rightarrow> ident)\<rparr>"

definition attr_prints :: "(metadata \<Rightarrow> string) \<Rightarrow> (metadata \<Rightarrow> string) \<Rightarrow> (kind, 'a) fwd_config \<Rightarrow> metadata \<Rightarrow> 'a \<Rightarrow> string list" where
  "attr_prints r l c md = route_prints (r md) (l md) c"

lemma lit_selector_of: "lit_selector kind_of sel_of (gen_selector s) = selector_of kind_of sel_of s"
  by (cases "(kind_of, sel_of, s)" rule: selector_of.cases)
    (simp_all add: lit_selector_def gen_selector_def unit_selector_def)

lemma gen_body_meaning:
  "block_config kind_of sel_of (gen_body name c sg) = attr_config kind_of sel_of c"
  "block_meta (gen_body name c sg) = attr_meta name c (sig_ident sg)"
  by (simp_all add: block_config_def block_meta_def attr_config_def attr_meta_def gen_body_def lit_selector_of)

lemma takes_self_gen: "takes_self (gen_body name c sg) \<longleftrightarrow> sig_inputs sg = [Receiver False shared_self]"
proof -
  have "a = Receiver False shared_self" if "arg_type a = shared_self" "destruct_arg a = PatIdent False ''target''" for a
    using that by (cases a) auto
  then show ?thesis by (auto simp: takes_self_def gen_body_simps map_eq_Cons_conv)
qed

section \<open>Property\<close>

text \<open>
  C19. From the attribute to the call. In every expansion, the proxy method generated for a method that takes \<^verbatim>\<open>&self\<close>
  and nothing else behaves like the method it stands for, wherever the route that the method's own \<^verbatim>\<open>#[forward(...)]\<close>
  attribute asks for ends (C17): the call on the proxy runs the method of that name on the target exactly once, after printing the hops
  of that route under the name of the proxy and of the setting \<^verbatim>\<open>name\<close>, and gives its result; synchronous methods by
  \<^verbatim>\<open>into_sync\<close>, asynchronous ones when awaited.
\<close>

theorem generated_forwarding:
  fixes parse_impl :: "'i \<Rightarrow> (cfg_error, 'blk item_impl) result"
  assumes "forward_proxy sy quotes parse_impl attrs input = Expanded im px" and "Fn g \<in> set (im_items px)"
    and "sig_inputs (fn_sig g) = [Receiver False shared_self]" and "2 \<le> n"
  shows "\<exists>src f c. parse_impl input = Inr src \<and> Fn f \<in> set (im_items src) \<and> fn_sig f = fn_sig g
    \<and> fst (parse_forward_config sy (fn_attrs f)) = Inr c
    \<and> (let ident = sig_ident (fn_sig g); config = attr_config kind_of sel_of c;
           md = attr_meta (gb_proxy_name (fn_block g)) c ident
       in if sig_async (fn_sig g)
         then \<exists>body. run_async_body n kind_of sel_of afn await (fn_block g) = Some body \<and>
           (\<forall>p w. route_ends config p \<longrightarrow> fut_run (body p) w =
             act_map Value (fut_run (afn ident (as_raw_ref p))) (println (attr_prints rpc_line_async local_line_async config md p) w))
         else \<exists>body. run_sync_body kind_of sel_of sfn recv (fn_block g) = Some body \<and>
           (\<forall>p w. route_ends config p \<longrightarrow> body p w =
             act_map Value (sfn ident (as_raw_ref p)) (println (attr_prints rpc_line local_line config md p) w)))"
proof -
  from assms(1) obtain pc src name where s: "parse_impl input = Inr src"
    "map Inr (im_items px) = map (item_body sy quotes name) (im_items src)"
    by (rule expandedD) blast
  obtain f :: "'blk impl_fn" and c where f: "Fn f \<in> set (im_items src)" "fst (parse_forward_config sy (fn_attrs f)) = Inr c"
    and g: "g = proxy_fn (gen_body name c (fn_sig f)) (f\<lparr>fn_attrs := stripped (fn_attrs f)\<rparr>)"
    by (rule in_proxyD[OF s(2) assms(2)]) (rule that)
  have b: "fn_block g = gen_body name c (fn_sig g)" "fn_sig f = fn_sig g" using g by (simp_all add: proxy_fn_def)
  have self: "takes_self (gen_body name c (fn_sig g))" using assms(3) by (auto simp: takes_self_gen)
  show ?thesis
    by (rule exI[of _ src], rule exI[of _ f], rule exI[of _ c])
      (simp add: s(1) f b self Let_def run_async_body_def run_sync_body_def gen_body_simps gen_body_meaning attr_prints_def
        forwarding_transparent forwarding_transparent_async assms(4))
qed

section \<open>The proxy of the example\<close>

text \<open>
  The macro on the \<^verbatim>\<open>impl CrossSomething for Target\<close> of \<^verbatim>\<open>examples/test.rs\<close>, with the name that the hand-written
  proxy uses: what \<^verbatim>\<open>#[forward_proxy(name = "something1234")]\<close> would generate there.
\<close>

definition demo_fn :: "string \<Rightarrow> bool \<Rightarrow> unit impl_fn" where
  "demo_fn ident is_async = \<lparr>fn_attrs = [], fn_vis = [], fn_defaultness = False,
     fn_sig = \<lparr>sig_ident = ident, sig_async = is_async, sig_inputs = [Receiver False shared_self],
       sig_rest = [Ident ''String'']\<rparr>, fn_block = ()\<rparr>"

definition demo_impl :: "unit item_impl" where
  "demo_impl = \<lparr>im_attrs = [], im_defaultness = False, im_unsafety = False, im_generics = [],
     im_trait = Some [''CrossSomething''], im_self = SelfTy [Ident ''Target''],
     im_items = [Fn (demo_fn ''get_remote_something'' False), Fn (demo_fn ''async_get_remote'' True)]\<rparr>"

definition demo_proxy_fn :: "unit impl_fn \<Rightarrow> (string, int) proxy_block impl_fn" where
  "demo_proxy_fn f = proxy_fn (gen_body ''something1234'' empty_config (fn_sig f)) f"

definition demo_proxy :: "(string, int) proxy_block item_impl" where
  "demo_proxy = \<lparr>im_attrs = [], im_defaultness = False, im_unsafety = False, im_generics = [],
     im_trait = Some [''CrossSomething''], im_self = ForwardProxyOf (SelfTy [Ident ''Target'']),
     im_items = map (Fn \<circ> demo_proxy_fn) [demo_fn ''get_remote_something'' False, demo_fn ''async_get_remote'' True]\<rparr>"

lemma demo_expansion:
  "forward_proxy simple_syn no_mut (\<lambda>_ :: unit. Inr demo_impl) [Ident ''name'', EqSign, Str ''something1234''] ()
   = Expanded demo_impl demo_proxy"
proof -
  have attrs: "parse_proxy_config simple_syn [Ident ''name'', EqSign, Str ''something1234'']
      = Inr (empty_config(''name'' \<mapsto> LitStr ''something1234'') :: (string, int) config)"
    by (simp add: parse_proxy_config_def proxy_config_def parse_config_def parse_setting_def parse_named_def
        simple_syn_def set_named_def empty_config_def Let_def)
  have none: "parse_forward_config simple_syn [] = (Inr empty_config, [])" by (simp add: parse_forward_config_def)
  have ok: "parse_quote no_mut (gen_body n c (fn_sig (demo_fn i a))) = Inr (gen_body n c (fn_sig (demo_fn i a)))" for n c i a
    by (simp add: no_mut_def gen_body_simps demo_fn_def)
  have fns: "fn_attrs (demo_fn i a) = []" "(demo_fn i a)\<lparr>fn_attrs := []\<rparr> = demo_fn i a" for i a by (simp_all add: demo_fn_def)
  show ?thesis
    by (simp add: forward_proxy_def expand_proxy_def attrs cfg_str_def demo_impl_def demo_proxy_def)
      (simp add: fns none ok demo_proxy_fn_def Let_def del: parse_quote_simps)
qed

text \<open>The methods of the trait for \<^verbatim>\<open>Target\<close>.\<close>

definition demo_methods :: "string \<Rightarrow> target \<Rightarrow> ('u, string) act" where
  "demo_methods ident = (if ident = ''get_remote_something'' then get_remote_something else (\<lambda>_ _. None))"

definition demo_futures :: "string \<Rightarrow> target \<Rightarrow> ('u, string) fut" where
  "demo_futures ident = (if ident = ''async_get_remote'' then async_get_remote else (\<lambda>_. Seg (\<lambda>_. None)))"

text \<open>The hand-written proxy of the example is what the macro generates.\<close>

lemma demo_proxy_meaning:
  "run_sync_body kind_of sel_of demo_methods recv
     (fn_block (demo_proxy_fn (demo_fn ''get_remote_something'' False)))
   = Some (proxy_get_remote_something recv)"
  "run_async_body n kind_of sel_of demo_futures await
     (fn_block (demo_proxy_fn (demo_fn ''async_get_remote'' True)))
   = Some (proxy_async_get_remote n await)"
  by (simp_all add: run_sync_body_def run_async_body_def demo_proxy_fn_def proxy_fn_def demo_fn_def takes_self_gen gen_body_meaning
      gen_body_simps attr_config_def attr_meta_def cfg_selector_def cfg_str_def empty_config_def unit_config_def
      demo_methods_def demo_futures_def proxy_get_remote_something_def proxy_async_get_remote_def fun_eq_iff Let_def)

lemma generated_forwarding_witness:
  "\<exists>body. run_sync_body (\<lambda>_ :: string. Center) (\<lambda>_ :: int. SelUnit) demo_methods (\<lambda>_ :: unit. act_return None)
      (fn_block (demo_proxy_fn (demo_fn ''get_remote_something'' False))) = Some body
    \<and> body (forward_proxy_new \<lparr>something = ''x''\<rparr>) \<lparr>out = [], user = ()\<rparr> = Some (Value ''raw x'', \<lparr>out = [], user = ()\<rparr>)"
proof -
  let ?g = "demo_proxy_fn (demo_fn ''get_remote_something'' False)"
  have g: "Fn ?g \<in> set (im_items demo_proxy)" "sig_inputs (fn_sig ?g) = [Receiver False shared_self]"
    by (simp_all add: demo_proxy_def demo_proxy_fn_def proxy_fn_def demo_fn_def)
  have sg: "sig_async (fn_sig ?g) = False" "sig_ident (fn_sig ?g) = ''get_remote_something''"
    by (simp_all add: demo_proxy_fn_def proxy_fn_def demo_fn_def)
  have config: "attr_config (\<lambda>_. Center) (\<lambda>_. SelUnit) (empty_config :: (string, int) config) = unit_config"
    by (simp add: attr_config_def cfg_selector_def empty_config_def unit_config_def)
  obtain f c body where f: "Fn f \<in> set (im_items demo_impl)" "fst (parse_forward_config simple_syn (fn_attrs f)) = Inr c"
    and body: "run_sync_body (\<lambda>_ :: string. Center) (\<lambda>_ :: int. SelUnit) (demo_methods :: string \<Rightarrow> target \<Rightarrow> (unit, string) act) (\<lambda>_ :: unit. act_return None) (fn_block ?g) = Some body"
    and runs: "\<forall>p w. route_ends (attr_config (\<lambda>_. Center) (\<lambda>_. SelUnit) c) p \<longrightarrow> body p w =
      act_map Value (demo_methods ''get_remote_something'' (as_raw_ref p))
        (println (attr_prints rpc_line local_line (attr_config (\<lambda>_. Center) (\<lambda>_. SelUnit) c)
          (attr_meta (gb_proxy_name (fn_block ?g)) c ''get_remote_something'') p) w)"
    using generated_forwarding[OF demo_expansion g order_refl, of "\<lambda>_. Center" "\<lambda>_. SelUnit" "demo_futures :: string \<Rightarrow> target \<Rightarrow> (unit, string) fut"
        "\<lambda>_ :: unit. Done None" demo_methods "\<lambda>_ :: unit. act_return None"]
    unfolding Let_def sg if_False by blast
  have "c = empty_config" using f by (auto simp: demo_impl_def demo_fn_def parse_forward_config_def)
  with runs have "body (forward_proxy_new \<lparr>something = ''x''\<rparr>) \<lparr>out = [], user = ()\<rparr> = Some (Value ''raw x'', \<lparr>out = [], user = ()\<rparr>)"
    by (simp add: config route_ends_def thread_handle_def server_handle_def unit_config_def unit_selector_def fs_select_def
      attr_prints_def route_prints_def demo_methods_def get_remote_something_def raw_get_remote_something_def as_raw_ref_def
      forward_proxy_new_def act_map_def act_return_def)
  with body show ?thesis by blast
qed

end
