(* ===== verification/Practice.thy ===== *)
theory Practice
  imports ForwardCore
begin

text \<open>
  \<^verbatim>\<open>examples/rpc/practice.rs\<close>: forwarding along a plan of RPC and executor hops. The cursor that
  walks the plan, the executors that run one job at a time, and the player service behind the
  proxy. A call is a computation of \<open>ForwardCore\<close> over the shared state of the runtime; its
  completion is a value or a panic with the literal message of the source, and a caller that
  blocks for ever has no completion (\<open>None\<close>).
\<close>

section \<open>Data\<close>

type_synonym i32 = "32 word"

datatype step = Rpc string | Thread string

datatype location = AtClient | AtRpc string | AtThread string

fun show_location :: "location \<Rightarrow> string" where
  "show_location AtClient = ''client''"
| "show_location (AtRpc name) = ''rpc::'' @ name"
| "show_location (AtThread name) = ''thread::'' @ name"

record profile =
  pr_id :: u64
  pr_name :: string
  pr_level :: u32
  pr_score :: i32

text \<open>
  An executor thread waits for commands, runs a job, or has ended: it was shut down, or a job
  panicked and unwound the thread.
\<close>

datatype exec_status = Idle_exec | Running | Ended

record runtime =
  rpc_sites :: "string \<Rightarrow> string option"
  executors :: "string \<Rightarrow> exec_status option"
  players :: "u64 \<Rightarrow> profile option"
  poisoned :: bool

type_synonym 'r call = "(runtime, 'r completion) act"

definition call_bind :: "'a call \<Rightarrow> ('a \<Rightarrow> 'b call) \<Rightarrow> 'b call" where
  "call_bind x k = act_bind x (\<lambda>r. case r of Value a \<Rightarrow> k a | Panics msg \<Rightarrow> act_return (Panics msg))"

definition print_line :: "string \<Rightarrow> unit call" where
  "print_line l w = Some (Value (), println [l] w)"

definition set_exec :: "string \<Rightarrow> exec_status \<Rightarrow> runtime world \<Rightarrow> runtime world" where
  "set_exec name st w = w\<lparr>user := (user w)\<lparr>executors := (executors (user w))(name \<mapsto> st)\<rparr>\<rparr>"

section \<open>Executors\<close>

text \<open>
  \<^verbatim>\<open>execute_sync\<close>: the job is queued and the caller waits for its result. The thread takes it
  when it is waiting for commands. When the executor is running a job of the same call chain,
  the caller is (a job waiting for) its own thread and waits for ever. When the thread has
  ended, the queue's receiver is gone and the \<^verbatim>\<open>send\<close> fails. A job that panics ends the
  thread, and the caller sees its result sender dropped.
\<close>

definition execute_with :: "string \<Rightarrow> string \<Rightarrow> string \<Rightarrow> string \<Rightarrow> 'r call \<Rightarrow> 'r call" where
  "execute_with scheduling deliver receive name job w =
     (let w1 = println [''[executor::'' @ name @ scheduling] w in
      case executors (user w1) name of
        Some Idle_exec \<Rightarrow>
          (case job (set_exec name Running w1) of
             None \<Rightarrow> None
           | Some (Value r, w2) \<Rightarrow> Some (Value r, set_exec name Idle_exec w2)
           | Some (Panics msg, w2) \<Rightarrow> Some (Panics receive, set_exec name Ended w2))
      | Some Running \<Rightarrow> None
      | _ \<Rightarrow> Some (Panics deliver, w1))"

definition execute_sync :: "string \<Rightarrow> 'r call \<Rightarrow> 'r call" where
  "execute_sync = execute_with ''] scheduling sync job'' ''deliver sync task'' ''receive sync result''"

definition execute_async :: "string \<Rightarrow> 'r call \<Rightarrow> 'r call" where
  "execute_async = execute_with ''] scheduling async job'' ''deliver async task'' ''local executor stopped''"

definition shutdown_executor :: "string \<Rightarrow> unit call" where
  "shutdown_executor name w =
     Some (Value (), set_exec name Ended (println [''[executor::'' @ name @ ''] shutting down''] w))"

text \<open>\<^verbatim>\<open>Registry::shutdown\<close>; \<open>order\<close> is the iteration order of the executor map.\<close>

fun shutdown :: "string list \<Rightarrow> unit call" where
  "shutdown [] = act_return (Value ())"
| "shutdown (name # order) = call_bind (shutdown_executor name) (\<lambda>_. shutdown order)"

section \<open>The cursor\<close>

definition clone_for_rpc :: "location \<Rightarrow> string \<Rightarrow> location call" where
  "clone_for_rpc loc srv w = (case rpc_sites (user w) srv of
      None \<Rightarrow> Some (Panics (''unknown rpc target: '' @ srv), w)
    | Some site \<Rightarrow> Some (Value (AtRpc srv),
        println [''['' @ show_location loc @ ''] preparing remote context '' @ site] w))"

text \<open>The registry lookup of an executor and the call on it.\<close>

definition on_executor :: "(string \<Rightarrow> 'r call \<Rightarrow> 'r call) \<Rightarrow> string \<Rightarrow> 'r call \<Rightarrow> 'r call" where
  "on_executor ex name job w =
     (if executors (user w) name = None
      then Some (Panics ''thread registered for forwarding'', w) else ex name job w)"

text \<open>
  \<^verbatim>\<open>handler\<close> is applied where the plan ends, with the location only printed.
\<close>

function exec_sync_cursor ::
  "location \<Rightarrow> step list \<Rightarrow> nat \<Rightarrow> string \<Rightarrow> 'a \<Rightarrow> ('a \<Rightarrow> 'r call) \<Rightarrow> 'r call" where
  "exec_sync_cursor loc plan index meth args handler =
     (if length plan \<le> index
      then call_bind (print_line (''['' @ show_location loc @ ''] executing '' @ meth)) (\<lambda>_. handler args)
      else case plan ! index of
        Rpc srv \<Rightarrow>
          if loc = AtRpc srv then exec_sync_cursor loc plan (index + 1) meth args handler
          else call_bind (print_line (''['' @ show_location loc @ ''] forwarding '' @ meth @ '' via RPC -> '' @ srv))
            (\<lambda>_. call_bind (clone_for_rpc loc srv)
              (\<lambda>loc'. exec_sync_cursor loc' plan (index + 1) meth args handler))
      | Thread name \<Rightarrow>
          if loc = AtThread name then exec_sync_cursor loc plan (index + 1) meth args handler
          else call_bind (print_line (''['' @ show_location loc @ ''] forwarding '' @ meth @ '' to local executor '' @ name))
            (\<lambda>_. on_executor execute_sync name
              (exec_sync_cursor (AtThread name) plan (index + 1) meth args handler)))"
  by pat_completeness auto
termination by (relation "measure (\<lambda>(loc, plan, index, meth, args, handler). length plan - index)") auto

text \<open>
  The call of \<^verbatim>\<open>exec_async_cursor\<close> together with the await of the future it returns.
\<close>

function exec_async_cursor ::
  "location \<Rightarrow> step list \<Rightarrow> nat \<Rightarrow> string \<Rightarrow> 'a \<Rightarrow> ('a \<Rightarrow> 'r call) \<Rightarrow> 'r call" where
  "exec_async_cursor loc plan index meth args handler =
     (if length plan \<le> index
      then call_bind (print_line (''['' @ show_location loc @ ''] executing '' @ meth)) (\<lambda>_. handler args)
      else case plan ! index of
        Rpc srv \<Rightarrow>
          if loc = AtRpc srv then exec_async_cursor loc plan (index + 1) meth args handler
          else call_bind (print_line (''['' @ show_location loc @ ''] asynchronously forwarding '' @ meth
              @ '' via RPC -> '' @ srv))
            (\<lambda>_. call_bind (clone_for_rpc loc srv)
              (\<lambda>loc'. exec_async_cursor loc' plan (index + 1) meth args handler))
      | Thread name \<Rightarrow>
          if loc = AtThread name then exec_async_cursor loc plan (index + 1) meth args handler
          else call_bind (print_line (''['' @ show_location loc @ ''] asynchronously forwarding '' @ meth
              @ '' to local executor '' @ name))
            (\<lambda>_. on_executor execute_async name
              (exec_async_cursor (AtThread name) plan (index + 1) meth args handler)))"
  by pat_completeness auto
termination by (relation "measure (\<lambda>(loc, plan, index, meth, args, handler). length plan - index)") auto

declare exec_sync_cursor.simps [simp del] exec_async_cursor.simps [simp del]

definition run_sync :: "location \<Rightarrow> step list \<Rightarrow> string \<Rightarrow> 'a \<Rightarrow> ('a \<Rightarrow> 'r call) \<Rightarrow> 'r call" where
  "run_sync loc plan meth args handler = exec_sync_cursor loc plan 0 meth args handler"

text \<open>
  \<^verbatim>\<open>into_async_handler\<close>: the closure holds its handler in an option, which its only call empties; the box is
  an \<^verbatim>\<open>FnOnce\<close>, so the \<^verbatim>\<open>expect\<close> never fails.
\<close>

definition take_handler :: "('a \<Rightarrow> 'r call) option \<Rightarrow> 'a \<Rightarrow> 'r call" where
  "take_handler handler_opt args = (case handler_opt of
      None \<Rightarrow> act_return (Panics ''forward handler should be invoked exactly once'')
    | Some inner \<Rightarrow> inner args)"

definition into_async_handler :: "('a \<Rightarrow> 'r call) \<Rightarrow> 'a \<Rightarrow> 'r call" where
  "into_async_handler handler = take_handler (Some handler)"

lemma into_async_handler_id [simp]: "into_async_handler handler = handler"
  by (simp add: into_async_handler_def take_handler_def fun_eq_iff)

definition run_async :: "location \<Rightarrow> step list \<Rightarrow> string \<Rightarrow> 'a \<Rightarrow> ('a \<Rightarrow> 'r call) \<Rightarrow> 'r call" where
  "run_async loc plan meth args handler = exec_async_cursor loc plan 0 meth args (into_async_handler handler)"

section \<open>The player service\<close>

definition initial_players :: "u64 \<Rightarrow> profile option" where
  "initial_players =
     [1001 \<mapsto> \<lparr>pr_id = 1001, pr_name = ''Alice'', pr_level = 7, pr_score = 120\<rparr>,
      2002 \<mapsto> \<lparr>pr_id = 2002, pr_name = ''Bob'', pr_level = 12, pr_score = 980\<rparr>,
      3003 \<mapsto> \<lparr>pr_id = 3003, pr_name = ''Carol'', pr_level = 3, pr_score = 45\<rparr>]"

definition bootstrap :: runtime where
  "bootstrap = \<lparr>rpc_sites = [''cluster-alpha'' \<mapsto> ''cluster-alpha''],
     executors = [''worker-io'' \<mapsto> Idle_exec, ''worker-async'' \<mapsto> Idle_exec],
     players = initial_players, poisoned = False\<rparr>"

definition fetch_profile :: "u64 \<Rightarrow> profile call" where
  "fetch_profile player_id =
     call_bind (print_line (''[service] fetching profile for player '' @ dec (unat player_id)))
       (\<lambda>_ w. if poisoned (user w) then Some (Panics ''store poisoned'', w)
         else Some (Value (case players (user w) player_id of
             Some p \<Rightarrow> p
           | None \<Rightarrow> \<lparr>pr_id = player_id, pr_name = ''Unknown'', pr_level = 1, pr_score = 0\<rparr>), w))"

definition add_overflows :: "i32 \<Rightarrow> i32 \<Rightarrow> bool" where
  "add_overflows a b \<longleftrightarrow> sint (a + b) \<noteq> sint a + sint b"

definition entry_or_insert :: "u64 \<Rightarrow> (u64 \<Rightarrow> profile option) \<Rightarrow> profile" where
  "entry_or_insert player_id st = (case st player_id of
      Some p \<Rightarrow> p
    | None \<Rightarrow> \<lparr>pr_id = player_id, pr_name = ''AutoGenerated'', pr_level = 1, pr_score = 0\<rparr>)"

text \<open>
  \<^verbatim>\<open>entry.score += delta\<close> wraps, or with overflow checks (\<open>checked\<close>, a debug build) panics
  while the lock is held, which leaves the entry inserted and the mutex poisoned.
\<close>

definition update_score_async :: "bool \<Rightarrow> u64 \<Rightarrow> i32 \<Rightarrow> i32 call" where
  "update_score_async checked player_id delta =
     call_bind (print_line (''[service] updating score for player '' @ dec (unat player_id)
         @ '' by delta '' @ dec_int (sint delta)))
       (\<lambda>_ w. if poisoned (user w) then Some (Panics ''store poisoned'', w)
         else let u = user w; entry = entry_or_insert player_id (players u) in
           if checked \<and> add_overflows (pr_score entry) delta
           then Some (Panics ''attempt to add with overflow'',
             w\<lparr>user := u\<lparr>players := (players u)(player_id \<mapsto> entry), poisoned := True\<rparr>\<rparr>)
           else let entry' = entry\<lparr>pr_score := pr_score entry + delta\<rparr>
             in Some (Value (pr_score entry'), w\<lparr>user := u\<lparr>players := (players u)(player_id \<mapsto> entry')\<rparr>\<rparr>))"

definition proxy_fetch_profile :: "location \<Rightarrow> u64 \<Rightarrow> profile call" where
  "proxy_fetch_profile loc player_id =
     run_sync loc [Rpc ''cluster-alpha'', Thread ''worker-io''] ''PlayerOps::fetch_profile'' player_id fetch_profile"

definition proxy_update_score :: "bool \<Rightarrow> location \<Rightarrow> u64 \<Rightarrow> i32 \<Rightarrow> i32 call" where
  "proxy_update_score checked loc player_id delta =
     run_async loc [Rpc ''cluster-alpha'', Thread ''worker-async''] ''PlayerOps::update_score''
       (player_id, delta) (\<lambda>(id, change). update_score_async checked id change)"


section \<open>The plan as a list\<close>

text \<open>
  Reference form of both cursors: recursion over the remaining steps, for any way \<open>ex\<close> of
  running a job on an executor.
\<close>

fun walk :: "(string \<Rightarrow> 'r call \<Rightarrow> 'r call) \<Rightarrow> string \<Rightarrow> string \<Rightarrow> location \<Rightarrow> step list \<Rightarrow> 'r call \<Rightarrow> 'r call" where
  "walk ex verb meth loc [] fin =
     call_bind (print_line (''['' @ show_location loc @ ''] executing '' @ meth)) (\<lambda>_. fin)"
| "walk ex verb meth loc (Rpc srv # steps) fin =
     (if loc = AtRpc srv then walk ex verb meth loc steps fin
      else call_bind (print_line (''['' @ show_location loc @ verb @ meth @ '' via RPC -> '' @ srv))
        (\<lambda>_. call_bind (clone_for_rpc loc srv) (\<lambda>loc'. walk ex verb meth loc' steps fin)))"
| "walk ex verb meth loc (Thread name # steps) fin =
     (if loc = AtThread name then walk ex verb meth loc steps fin
      else call_bind (print_line (''['' @ show_location loc @ verb @ meth @ '' to local executor '' @ name))
        (\<lambda>_. on_executor ex name (walk ex verb meth (AtThread name) steps fin)))"

lemma exec_sync_cursor_walk:
  "exec_sync_cursor loc plan i meth args h = walk execute_sync ''] forwarding '' meth loc (drop i plan) (h args)"
proof (induction loc plan i meth args h rule: exec_sync_cursor.induct)
  case (1 loc plan index meth args handler)
  show ?case
  proof (cases "length plan \<le> index")
    case False
    then have d: "drop index plan = plan ! index # drop (Suc index) plan" by (simp add: Cons_nth_drop_Suc)
    show ?thesis using 1 False d
      by (cases "plan ! index") (simp_all add: exec_sync_cursor.simps[of loc plan index])
  qed (simp add: exec_sync_cursor.simps)
qed

lemma exec_async_cursor_walk:
  "exec_async_cursor loc plan i meth args h =
     walk execute_async ''] asynchronously forwarding '' meth loc (drop i plan) (h args)"
proof (induction loc plan i meth args h rule: exec_async_cursor.induct)
  case (1 loc plan index meth args handler)
  show ?case
  proof (cases "length plan \<le> index")
    case False
    then have d: "drop index plan = plan ! index # drop (Suc index) plan" by (simp add: Cons_nth_drop_Suc)
    show ?thesis using 1 False d
      by (cases "plan ! index") (simp_all add: exec_async_cursor.simps[of loc plan index])
  qed (simp add: exec_async_cursor.simps)
qed

text \<open>The executors a plan enters, in order, and the lines it prints on its way.\<close>

fun hops :: "location \<Rightarrow> step list \<Rightarrow> string list" where
  "hops loc [] = []"
| "hops loc (Rpc srv # steps) = hops (AtRpc srv) steps"
| "hops loc (Thread name # steps) =
     (if loc = AtThread name then hops loc steps else name # hops (AtThread name) steps)"

fun sites_known :: "(string \<Rightarrow> string option) \<Rightarrow> step list \<Rightarrow> bool" where
  "sites_known sites [] = True"
| "sites_known sites (Rpc srv # steps) = (sites srv \<noteq> None \<and> sites_known sites steps)"
| "sites_known sites (Thread name # steps) = sites_known sites steps"

fun walk_lines ::
  "(string \<Rightarrow> string) \<Rightarrow> string \<Rightarrow> string \<Rightarrow> (string \<Rightarrow> string option) \<Rightarrow> location \<Rightarrow> step list \<Rightarrow> string list" where
  "walk_lines sched verb meth sites loc [] = [''['' @ show_location loc @ ''] executing '' @ meth]"
| "walk_lines sched verb meth sites loc (Rpc srv # steps) =
     (if loc = AtRpc srv then walk_lines sched verb meth sites loc steps
      else [''['' @ show_location loc @ verb @ meth @ '' via RPC -> '' @ srv,
            ''['' @ show_location loc @ ''] preparing remote context '' @ the (sites srv)]
           @ walk_lines sched verb meth sites (AtRpc srv) steps)"
| "walk_lines sched verb meth sites loc (Thread name # steps) =
     (if loc = AtThread name then walk_lines sched verb meth sites loc steps
      else [''['' @ show_location loc @ verb @ meth @ '' to local executor '' @ name, sched name]
           @ walk_lines sched verb meth sites (AtThread name) steps)"

text \<open>A computation that neither reads nor changes the executors.\<close>

definition framed :: "'r call \<Rightarrow> bool" where
  "framed fin \<longleftrightarrow> (\<forall>n st w. fin (set_exec n st w) = map_option (map_prod id (set_exec n st)) (fin w))"

lemma framedD: "framed fin \<Longrightarrow> fin w = Some (r, w') \<Longrightarrow> fin (set_exec n st w) = Some (r, set_exec n st w')"
  by (simp add: framed_def)

lemma set_exec_simps [simp]:
  "executors (user (set_exec n st w)) = (executors (user w))(n \<mapsto> st)"
  "rpc_sites (user (set_exec n st w)) = rpc_sites (user w)"
  "set_exec n st (set_exec n st' w) = set_exec n st w"
  "set_exec n st (println ls w) = println ls (set_exec n st w)"
  by (simp_all add: set_exec_def println_def)

lemma set_exec_swap: "n \<noteq> m \<Longrightarrow> set_exec n st (set_exec m st' w) = set_exec m st' (set_exec n st w)"
  by (simp add: set_exec_def fun_upd_twist)

lemma set_exec_same: "executors (user w) n = Some st \<Longrightarrow> set_exec n st w = w"
  by (simp add: set_exec_def fun_upd_idem)

lemma framed_keeps:
  assumes "framed fin" and "fin w = Some (r, w')" and "executors (user w) n = Some st"
  shows "executors (user w') n = Some st"
proof -
  have "fin (set_exec n st w) = Some (r, set_exec n st w')" by (rule framedD[OF assms(1,2)])
  then have "w' = set_exec n st w'" using assms(2,3) by (simp add: set_exec_same)
  then have "executors (user w') = (executors (user w'))(n \<mapsto> st)" by (metis set_exec_simps(1))
  then show ?thesis by (metis fun_upd_same)
qed

text \<open>Executors whose threads have been unwound.\<close>

definition end_execs :: "string list \<Rightarrow> runtime world \<Rightarrow> runtime world" where
  "end_execs ns w = foldr (\<lambda>n. set_exec n Ended) ns w"

lemma end_execs_simps [simp]:
  "end_execs [] w = w" "end_execs (n # ns) w = set_exec n Ended (end_execs ns w)"
  by (simp_all add: end_execs_def)

lemma end_execs_set:
  "n \<notin> set ns \<Longrightarrow> set_exec n st (end_execs ns (set_exec n st' w)) = set_exec n st (end_execs ns w)"
proof (induction ns)
  case (Cons m ns)
  then show ?case by (simp add: set_exec_swap[of n m])
qed simp

section \<open>The contract of an executor\<close>

locale executor_call =
  fixes ex :: "string \<Rightarrow> 'r call \<Rightarrow> 'r call"
    and sched :: "string \<Rightarrow> string"
    and lost :: string
  assumes ex_value: "executors (user w) n = Some Idle_exec \<Longrightarrow>
      job (set_exec n Running (println [sched n] w)) = Some (Value r, w') \<Longrightarrow>
      ex n job w = Some (Value r, set_exec n Idle_exec w')"
    and ex_panic: "executors (user w) n = Some Idle_exec \<Longrightarrow>
      job (set_exec n Running (println [sched n] w)) = Some (Panics msg, w') \<Longrightarrow>
      ex n job w = Some (Panics lost, set_exec n Ended w')"
    and ex_hangs: "executors (user w) n = Some Idle_exec \<Longrightarrow>
      job (set_exec n Running (println [sched n] w)) = None \<Longrightarrow> ex n job w = None"
    and ex_running: "executors (user w) n = Some Running \<Longrightarrow> ex n job w = None"
begin

lemmas call_simps = call_bind_def act_bind_def print_line_def clone_for_rpc_def on_executor_def

lemma walk_value:
  assumes "framed fin"
  shows "distinct (hops loc steps) \<Longrightarrow> (\<And>n. n \<in> set (hops loc steps) \<Longrightarrow> executors (user w) n = Some Idle_exec) \<Longrightarrow>
    sites_known (rpc_sites (user w)) steps \<Longrightarrow>
    fin (println (walk_lines sched verb meth (rpc_sites (user w)) loc steps) w) = Some (Value r, w') \<Longrightarrow>
    walk ex verb meth loc steps fin w = Some (Value r, w')"
proof (induction loc steps arbitrary: w w' rule: hops.induct)
  case (1 loc)
  then show ?case by (simp add: call_simps)
next
  case (2 loc srv steps)
  then show ?case by (auto simp: call_simps)
next
  case (3 loc name steps)
  show ?case
  proof (cases "loc = AtThread name")
    case False
    let ?l = "''['' @ show_location loc @ verb @ meth @ '' to local executor '' @ name"
    let ?w = "set_exec name Running (println [?l, sched name] w)"
    let ?lines = "walk_lines sched verb meth (rpc_sites (user w)) (AtThread name) steps"
    have idle: "executors (user w) name = Some Idle_exec" using 3(4) False by simp
    have fin: "fin (println ([?l, sched name] @ ?lines) w) = Some (Value r, w')" using 3(6) False by simp
    have "walk ex verb meth (AtThread name) steps fin ?w = Some (Value r, set_exec name Running w')"
    proof (rule 3(2)[OF False])
      show "fin (println (walk_lines sched verb meth (rpc_sites (user ?w)) (AtThread name) steps) ?w)
          = Some (Value r, set_exec name Running w')"
        using framedD[OF assms fin, of name Running] by simp
    qed (use 3 False in auto)
    then have "ex name (walk ex verb meth (AtThread name) steps fin) (println [?l] w)
        = Some (Value r, set_exec name Idle_exec (set_exec name Running w'))"
      by (intro ex_value) (simp_all add: idle)
    moreover have "executors (user w') name = Some Idle_exec"
      by (rule framed_keeps[OF assms fin]) (simp add: idle)
    ultimately show ?thesis using False idle by (simp add: call_simps set_exec_same)
  qed (use 3 in auto)
qed

lemma walk_stuck:
  "(\<And>n. n \<in> set (hops loc steps) \<Longrightarrow> executors (user w) n \<in> {Some Idle_exec, Some Running}) \<Longrightarrow>
   sites_known (rpc_sites (user w)) steps \<Longrightarrow>
   \<not> distinct (hops loc steps) \<or> (\<exists>n \<in> set (hops loc steps). executors (user w) n = Some Running) \<Longrightarrow>
   walk ex verb meth loc steps fin w = None"
proof (induction loc steps arbitrary: w rule: hops.induct)
  case (2 loc srv steps)
  show ?case
  proof (cases "loc = AtRpc srv")
    case True
    then show ?thesis using 2 by simp
  next
    case False
    then show ?thesis using 2(2,3,4) by (auto simp: call_simps intro!: 2(1)) blast+
  qed
next
  case (3 loc name steps)
  show ?case
  proof (cases "loc = AtThread name")
    case False
    let ?l = "''['' @ show_location loc @ verb @ meth @ '' to local executor '' @ name"
    let ?w = "set_exec name Running (println [?l, sched name] w)"
    have st: "executors (user w) name \<in> {Some Idle_exec, Some Running}" using 3(3) False by simp
    have "ex name (walk ex verb meth (AtThread name) steps fin) (println [?l] w) = None"
    proof (cases "executors (user w) name = Some Running")
      case True
      then show ?thesis by (simp add: ex_running)
    next
      case not_running: False
      have "walk ex verb meth (AtThread name) steps fin ?w = None"
      proof (rule 3(2)[OF False])
        show "\<not> distinct (hops (AtThread name) steps)
          \<or> (\<exists>n \<in> set (hops (AtThread name) steps). executors (user ?w) n = Some Running)"
          using 3(5) False not_running by auto
      qed (use 3 False in auto)
      then show ?thesis using st not_running by (intro ex_hangs) auto
    qed
    then show ?thesis using False st by (auto simp: call_simps)
  qed (use 3 in auto)
qed simp

lemma walk_panic:
  assumes "framed fin"
  shows "distinct (hops loc steps) \<Longrightarrow> (\<And>n. n \<in> set (hops loc steps) \<Longrightarrow> executors (user w) n = Some Idle_exec) \<Longrightarrow>
    sites_known (rpc_sites (user w)) steps \<Longrightarrow>
    fin (println (walk_lines sched verb meth (rpc_sites (user w)) loc steps) w) = Some (Panics msg, w') \<Longrightarrow>
    walk ex verb meth loc steps fin w =
      Some (Panics (if hops loc steps = [] then msg else lost), end_execs (hops loc steps) w')"
proof (induction loc steps arbitrary: w w' rule: hops.induct)
  case (1 loc)
  then show ?case by (simp add: call_simps)
next
  case (2 loc srv steps)
  then show ?case by (auto simp: call_simps)
next
  case (3 loc name steps)
  show ?case
  proof (cases "loc = AtThread name")
    case False
    let ?l = "''['' @ show_location loc @ verb @ meth @ '' to local executor '' @ name"
    let ?w = "set_exec name Running (println [?l, sched name] w)"
    let ?lines = "walk_lines sched verb meth (rpc_sites (user w)) (AtThread name) steps"
    have idle: "executors (user w) name = Some Idle_exec" using 3(4) False by simp
    have fin: "fin (println ([?l, sched name] @ ?lines) w) = Some (Panics msg, w')" using 3(6) False by simp
    have "walk ex verb meth (AtThread name) steps fin ?w =
      Some (Panics (if hops (AtThread name) steps = [] then msg else lost),
        end_execs (hops (AtThread name) steps) (set_exec name Running w'))"
    proof (rule 3(2)[OF False])
      show "fin (println (walk_lines sched verb meth (rpc_sites (user ?w)) (AtThread name) steps) ?w)
          = Some (Panics msg, set_exec name Running w')"
        using framedD[OF assms fin, of name Running] by simp
    qed (use 3 False in auto)
    then have "ex name (walk ex verb meth (AtThread name) steps fin) (println [?l] w)
        = Some (Panics lost, set_exec name Ended (end_execs (hops (AtThread name) steps) (set_exec name Running w')))"
      by (intro ex_panic) (simp_all add: idle)
    moreover have "name \<notin> set (hops (AtThread name) steps)" using 3(3) False by simp
    ultimately show ?thesis using False idle by (simp add: call_simps end_execs_set)
  qed (use 3 in auto)
qed

end

interpretation sync_exec: executor_call execute_sync "\<lambda>n. ''[executor::'' @ n @ ''] scheduling sync job''"
  "''receive sync result''"
  by unfold_locales (simp_all add: execute_sync_def execute_with_def Let_def)

interpretation async_exec: executor_call execute_async "\<lambda>n. ''[executor::'' @ n @ ''] scheduling async job''"
  "''local executor stopped''"
  by unfold_locales (simp_all add: execute_async_def execute_with_def Let_def)


section \<open>Properties of the cursor\<close>

definition sync_lines :: "string \<Rightarrow> (string \<Rightarrow> string option) \<Rightarrow> location \<Rightarrow> step list \<Rightarrow> string list" where
  "sync_lines = walk_lines (\<lambda>n. ''[executor::'' @ n @ ''] scheduling sync job'') ''] forwarding ''"

definition async_lines :: "string \<Rightarrow> (string \<Rightarrow> string option) \<Rightarrow> location \<Rightarrow> step list \<Rightarrow> string list" where
  "async_lines = walk_lines (\<lambda>n. ''[executor::'' @ n @ ''] scheduling async job'') ''] asynchronously forwarding ''"

text \<open>The plan can be walked: known sites, and executors that wait for commands.\<close>

definition plan_ready :: "location \<Rightarrow> step list \<Rightarrow> runtime world \<Rightarrow> bool" where
  "plan_ready loc plan w \<longleftrightarrow> sites_known (rpc_sites (user w)) plan \<and> distinct (hops loc plan)
     \<and> (\<forall>n \<in> set (hops loc plan). executors (user w) n = Some Idle_exec)"

lemma sync_cursor_value:
  assumes "framed (handler args)" and "plan_ready loc (drop i plan) w"
    and "handler args (println (sync_lines meth (rpc_sites (user w)) loc (drop i plan)) w) = Some (Value r, w')"
  shows "exec_sync_cursor loc plan i meth args handler w = Some (Value r, w')"
  using sync_exec.walk_value[OF assms(1)] assms(2,3)
  by (simp add: plan_ready_def exec_sync_cursor_walk sync_lines_def)

lemma async_cursor_value:
  assumes "framed (handler args)" and "plan_ready loc (drop i plan) w"
    and "handler args (println (async_lines meth (rpc_sites (user w)) loc (drop i plan)) w) = Some (Value r, w')"
  shows "exec_async_cursor loc plan i meth args handler w = Some (Value r, w')"
  using async_exec.walk_value[OF assms(1)] assms(2,3)
  by (simp add: plan_ready_def exec_async_cursor_walk async_lines_def)

lemma sync_cursor_panic:
  assumes "framed (handler args)" and "plan_ready loc (drop i plan) w" and "hops loc (drop i plan) \<noteq> []"
    and "handler args (println (sync_lines meth (rpc_sites (user w)) loc (drop i plan)) w) = Some (Panics msg, w')"
  shows "exec_sync_cursor loc plan i meth args handler w =
    Some (Panics ''receive sync result'', end_execs (hops loc (drop i plan)) w')"
  using sync_exec.walk_panic[OF assms(1)] assms(2-4)
  by (simp add: plan_ready_def exec_sync_cursor_walk sync_lines_def)

lemma async_cursor_panic:
  assumes "framed (handler args)" and "plan_ready loc (drop i plan) w" and "hops loc (drop i plan) \<noteq> []"
    and "handler args (println (async_lines meth (rpc_sites (user w)) loc (drop i plan)) w) = Some (Panics msg, w')"
  shows "exec_async_cursor loc plan i meth args handler w =
    Some (Panics ''local executor stopped'', end_execs (hops loc (drop i plan)) w')"
  using async_exec.walk_panic[OF assms(1)] assms(2-4)
  by (simp add: plan_ready_def exec_async_cursor_walk async_lines_def)

text \<open>
  C20. A plan that enters each executor once delivers the call: the handler is executed once,
  in the caller's state, after the lines of every hop, and its value is returned, with every
  executor waiting for commands again. This holds for the synchronous and the asynchronous cursor.
\<close>

theorem plan_delivers:
  assumes "framed (handler args)" and "plan_ready loc (drop i plan) w"
  shows "(handler args (println (sync_lines meth (rpc_sites (user w)) loc (drop i plan)) w) = Some (Value r, w')
      \<longrightarrow> exec_sync_cursor loc plan i meth args handler w = Some (Value r, w'))
    \<and> (handler args (println (async_lines meth (rpc_sites (user w)) loc (drop i plan)) w) = Some (Value r, w')
      \<longrightarrow> exec_async_cursor loc plan i meth args handler w = Some (Value r, w'))"
  using sync_cursor_value[of handler args, OF assms] async_cursor_value[of handler args, OF assms] by blast

lemma framed_fetch: "framed (fetch_profile player_id)"
  by (simp add: framed_def fetch_profile_def call_bind_def act_bind_def print_line_def set_exec_def println_def)

lemma framed_update: "framed (update_score_async checked player_id delta)"
  by (simp add: framed_def update_score_async_def call_bind_def act_bind_def print_line_def set_exec_def
      println_def Let_def)

lemma plan_delivers_witness:
  "\<exists>w. exec_sync_cursor AtClient [Rpc ''cluster-alpha'', Thread ''worker-io''] 0 ''f'' 1001 fetch_profile
     \<lparr>out = [], user = bootstrap\<rparr>
   = Some (Value \<lparr>pr_id = 1001, pr_name = ''Alice'', pr_level = 7, pr_score = 120\<rparr>, w)"
proof -
  let ?plan = "[Rpc ''cluster-alpha'', Thread ''worker-io'']" and ?w = "\<lparr>out = [], user = bootstrap\<rparr>"
  have "plan_ready AtClient (drop 0 ?plan) ?w" by (simp add: plan_ready_def bootstrap_def)
  moreover have "\<exists>w'. fetch_profile 1001
      (println (sync_lines ''f'' (rpc_sites (user ?w)) AtClient (drop 0 ?plan)) ?w)
      = Some (Value \<lparr>pr_id = 1001, pr_name = ''Alice'', pr_level = 7, pr_score = 120\<rparr>, w')"
    by (simp add: fetch_profile_def call_bind_def act_bind_def print_line_def bootstrap_def initial_players_def)
  ultimately show ?thesis using plan_delivers[where handler = fetch_profile, OF framed_fetch] by blast
qed

text \<open>
  C21. Deadlock. A plan that comes back to an executor it has entered and left never returns:
  the second job waits in the queue of the thread that waits for it.
\<close>

theorem plan_reentry_hangs:
  assumes "\<not> distinct (hops loc (drop i plan))" and "sites_known (rpc_sites (user w)) (drop i plan)"
    and "\<forall>n \<in> set (hops loc (drop i plan)). executors (user w) n = Some Idle_exec"
  shows "exec_sync_cursor loc plan i meth args handler w = None
    \<and> exec_async_cursor loc plan i meth args handler w = None"
proof
  show "exec_sync_cursor loc plan i meth args handler w = None"
    unfolding exec_sync_cursor_walk by (rule sync_exec.walk_stuck) (use assms in auto)
  show "exec_async_cursor loc plan i meth args handler w = None"
    unfolding exec_async_cursor_walk by (rule async_exec.walk_stuck) (use assms in auto)
qed

lemma plan_reentry_hangs_witness:
  "exec_sync_cursor AtClient [Thread ''worker-io'', Rpc ''cluster-alpha'', Thread ''worker-io''] 0 ''f'' 1001
     fetch_profile \<lparr>out = [], user = bootstrap\<rparr> = None"
  using plan_reentry_hangs[where handler = fetch_profile and args = 1001 and loc = AtClient and i = 0 and w = "\<lparr>out = [], user = bootstrap\<rparr>"
      and plan = "[Thread ''worker-io'', Rpc ''cluster-alpha'', Thread ''worker-io'']"]
  by (simp add: bootstrap_def)

text \<open>
  A handler that panics on an executor ends the thread of every executor of the plan, and
  the caller panics with the message of the lost result, not with the handler's own.
\<close>

lemma plan_panic_ends_executors:
  assumes "framed (handler args)" and "plan_ready loc (drop i plan) w" and "hops loc (drop i plan) \<noteq> []"
    and "handler args (println (sync_lines meth (rpc_sites (user w)) loc (drop i plan)) w) = Some (Panics msg, w1)"
    and "handler args (println (async_lines meth (rpc_sites (user w)) loc (drop i plan)) w) = Some (Panics msg, w2)"
  shows "exec_sync_cursor loc plan i meth args handler w =
      Some (Panics ''receive sync result'', end_execs (hops loc (drop i plan)) w1)
    \<and> exec_async_cursor loc plan i meth args handler w =
      Some (Panics ''local executor stopped'', end_execs (hops loc (drop i plan)) w2)"
  using sync_cursor_panic[of handler args, OF assms(1-4)] async_cursor_panic[of handler args, OF assms(1-3,5)] by blast

lemma plan_panic_ends_executors_witness:
  "\<exists>w. exec_sync_cursor AtClient [Thread ''worker-io''] 0 ''f'' ()
     (\<lambda>_. act_return (Panics ''boom'') :: unit call) \<lparr>out = [], user = bootstrap\<rparr>
   = Some (Panics ''receive sync result'', w) \<and> executors (user w) ''worker-io'' = Some Ended"
proof -
  let ?h = "\<lambda>_. act_return (Panics ''boom'') :: unit call"
  have "framed (?h ())" by (simp add: framed_def act_return_def)
  moreover have "plan_ready AtClient (drop 0 [Thread ''worker-io'']) \<lparr>out = [], user = bootstrap\<rparr>"
    by (simp add: plan_ready_def bootstrap_def)
  ultimately have "exec_sync_cursor AtClient [Thread ''worker-io''] 0 ''f'' () ?h \<lparr>out = [], user = bootstrap\<rparr>
    = Some (Panics ''receive sync result'', end_execs [''worker-io'']
        (println (sync_lines ''f'' (rpc_sites bootstrap) AtClient [Thread ''worker-io''])
          \<lparr>out = [], user = bootstrap\<rparr>))"
    using plan_panic_ends_executors[where handler = ?h and args = "()" and i = 0 and loc = AtClient
        and plan = "[Thread ''worker-io'']" and w = "\<lparr>out = [], user = bootstrap\<rparr>" and meth = "''f''"]
    by (auto simp: act_return_def)
  then show ?thesis by simp
qed

section \<open>Properties of the player service\<close>

definition scored :: "u64 \<Rightarrow> i32 \<Rightarrow> (u64 \<Rightarrow> profile option) \<Rightarrow> profile" where
  "scored player_id delta st =
     (let e = entry_or_insert player_id st in e\<lparr>pr_score := pr_score e + delta\<rparr>)"

text \<open>The runtime of the proxy is in working order.\<close>

definition serving :: "runtime world \<Rightarrow> bool" where
  "serving w \<longleftrightarrow> \<not> poisoned (user w) \<and> rpc_sites (user w) ''cluster-alpha'' \<noteq> None
     \<and> executors (user w) ''worker-io'' = Some Idle_exec \<and> executors (user w) ''worker-async'' = Some Idle_exec"

lemma serving_plans:
  assumes "serving w"
  shows "plan_ready loc (drop 0 [Rpc ''cluster-alpha'', Thread ''worker-io'']) w"
    and "plan_ready loc (drop 0 [Rpc ''cluster-alpha'', Thread ''worker-async'']) w"
  using assms by (simp_all add: serving_def plan_ready_def)

lemma update_value:
  assumes "\<not> poisoned (user w)" and "\<not> (checked \<and> add_overflows (pr_score (entry_or_insert pid (players (user w)))) d)"
  shows "\<exists>ls. update_score_async checked pid d w = Some (Value (pr_score (scored pid d (players (user w)))),
    println ls w\<lparr>user := (user w)\<lparr>players := (players (user w))(pid \<mapsto> scored pid d (players (user w)))\<rparr>\<rparr>)"
  using assms
  by (auto simp: update_score_async_def call_bind_def act_bind_def print_line_def Let_def scored_def println_def)

lemma fetch_value:
  assumes "\<not> poisoned (user w)" and "players (user w) pid = Some p"
  shows "\<exists>ls. fetch_profile pid w = Some (Value p, println ls w)"
  using assms by (auto simp: fetch_profile_def call_bind_def act_bind_def print_line_def)

lemma proxy_fetch_value:
  assumes "serving w" and "players (user w) pid = Some p"
  shows "\<exists>w'. proxy_fetch_profile loc pid w = Some (Value p, w') \<and> user w' = user w"
proof -
  let ?plan = "[Rpc ''cluster-alpha'', Thread ''worker-io'']" and ?m = "''PlayerOps::fetch_profile''"
  have "\<exists>ls. fetch_profile pid (println (sync_lines ?m (rpc_sites (user w)) loc (drop 0 ?plan)) w)
      = Some (Value p, println ls (println (sync_lines ?m (rpc_sites (user w)) loc (drop 0 ?plan)) w))"
    by (rule fetch_value) (use assms in \<open>simp_all add: serving_def\<close>)
  then obtain ls where "exec_sync_cursor loc ?plan 0 ?m pid fetch_profile w =
      Some (Value p, println ls (println (sync_lines ?m (rpc_sites (user w)) loc (drop 0 ?plan)) w))"
    using sync_cursor_value[where handler = fetch_profile, OF framed_fetch serving_plans(1)[OF assms(1)]] by blast
  then show ?thesis by (simp add: proxy_fetch_profile_def run_sync_def)
qed

lemma proxy_update_value:
  assumes "serving w" and "\<not> (checked \<and> add_overflows (pr_score (entry_or_insert pid (players (user w)))) d)"
  shows "\<exists>w'. proxy_update_score checked loc pid d w = Some (Value (pr_score (scored pid d (players (user w)))), w')
    \<and> user w' = (user w)\<lparr>players := (players (user w))(pid \<mapsto> scored pid d (players (user w)))\<rparr> \<and> serving w'"
proof -
  let ?plan = "[Rpc ''cluster-alpha'', Thread ''worker-async'']" and ?m = "''PlayerOps::update_score''"
  let ?h = "\<lambda>(id, change). update_score_async checked id change"
  let ?w = "println (async_lines ?m (rpc_sites (user w)) loc (drop 0 ?plan)) w"
  obtain ls where upd: "update_score_async checked pid d ?w = Some (Value (pr_score (scored pid d (players (user w)))),
      println ls ?w\<lparr>user := (user w)\<lparr>players := (players (user w))(pid \<mapsto> scored pid d (players (user w)))\<rparr>\<rparr>)"
    using update_value[of ?w checked pid d] assms by (auto simp: serving_def)
  have "exec_async_cursor loc ?plan 0 ?m (pid, d) ?h w = Some (Value (pr_score (scored pid d (players (user w)))),
      println ls ?w\<lparr>user := (user w)\<lparr>players := (players (user w))(pid \<mapsto> scored pid d (players (user w)))\<rparr>\<rparr>)"
    by (rule async_cursor_value) (simp_all only: split framed_update serving_plans(2)[OF assms(1)] upd)
  then show ?thesis using assms(1) by (simp add: proxy_update_score_def run_async_def serving_def)
qed

text \<open>
  C23. Through the proxy, from any location and with any other players in the store, updating a
  score adds the change (wrapping at 32 bits), creating the player if needed, returns the new
  score, and leaves the runtime in working order; fetching the player afterwards gives the
  profile with the new score. No other player changes.
\<close>

theorem player_update_then_fetch:
  assumes "serving w" and "\<not> (checked \<and> add_overflows (pr_score (entry_or_insert pid (players (user w)))) d)"
  shows "\<exists>w' w''. proxy_update_score checked loc pid d w = Some (Value (pr_score (entry_or_insert pid (players (user w))) + d), w')
    \<and> user w' = (user w)\<lparr>players := (players (user w))(pid \<mapsto> scored pid d (players (user w)))\<rparr>
    \<and> proxy_fetch_profile loc pid w' = Some (Value (scored pid d (players (user w))), w'') \<and> user w'' = user w'"
proof -
  obtain w' where w': "proxy_update_score checked loc pid d w = Some (Value (pr_score (scored pid d (players (user w)))), w')"
    "user w' = (user w)\<lparr>players := (players (user w))(pid \<mapsto> scored pid d (players (user w)))\<rparr>" "serving w'"
    using proxy_update_value[OF assms] by blast
  then obtain w'' where "proxy_fetch_profile loc pid w' = Some (Value (scored pid d (players (user w))), w'')" "user w'' = user w'"
    using proxy_fetch_value[of w' pid "scored pid d (players (user w))" loc] by auto
  then show ?thesis using w' by (auto simp: scored_def Let_def)
qed

lemma player_update_then_fetch_witness:
  "\<exists>w w'. proxy_update_score True AtClient 1001 55 \<lparr>out = [], user = bootstrap\<rparr> = Some (Value 175, w)
     \<and> proxy_fetch_profile AtClient 1001 w
       = Some (Value \<lparr>pr_id = 1001, pr_name = ''Alice'', pr_level = 7, pr_score = 175\<rparr>, w')"
proof -
  let ?w = "\<lparr>out = [], user = bootstrap\<rparr>"
  have "serving ?w" by (simp add: serving_def bootstrap_def)
  moreover have "entry_or_insert 1001 (players bootstrap) = \<lparr>pr_id = 1001, pr_name = ''Alice'', pr_level = 7, pr_score = 120\<rparr>"
    by (simp add: bootstrap_def initial_players_def entry_or_insert_def)
  ultimately show ?thesis
    using player_update_then_fetch[of ?w True 1001 55 AtClient]
    by (auto simp: add_overflows_def scored_def)
qed

text \<open>Both proxy calls reach the hop to their executor, after some printing.\<close>

lemma walk_to_executor:
  assumes "rpc_sites (user w) srv \<noteq> None" and "executors (user w) name \<noteq> None"
  shows "\<exists>ls. walk ex verb m loc [Rpc srv, Thread name] fin w
    = ex name (walk ex verb m (AtThread name) [] fin) (println ls w)"
proof (cases "loc = AtRpc srv")
  case True
  then show ?thesis using assms
    by (auto simp: call_bind_def act_bind_def print_line_def on_executor_def simp del: walk.simps(1))
next
  case False
  obtain site where "rpc_sites (user w) srv = Some site" using assms(1) by auto
  with False assms(2) show ?thesis
    by (auto simp: call_bind_def act_bind_def print_line_def on_executor_def clone_for_rpc_def println_println
        simp del: walk.simps(1))
qed

lemma proxy_calls_walk:
  "proxy_fetch_profile loc pid = walk execute_sync ''] forwarding '' ''PlayerOps::fetch_profile'' loc
     [Rpc ''cluster-alpha'', Thread ''worker-io''] (fetch_profile pid)"
  "proxy_update_score checked loc pid d = walk execute_async ''] asynchronously forwarding '' ''PlayerOps::update_score'' loc
     [Rpc ''cluster-alpha'', Thread ''worker-async''] (update_score_async checked pid d)"
  by (simp_all add: fun_eq_iff proxy_fetch_profile_def proxy_update_score_def run_sync_def run_async_def
      exec_sync_cursor_walk exec_async_cursor_walk)

text \<open>
  After the overflow: the mutex is poisoned, \<^verbatim>\<open>worker-async\<close> has ended, and \<^verbatim>\<open>worker-io\<close> waits for commands or has
  ended too.
\<close>

definition broken :: "runtime world \<Rightarrow> bool" where
  "broken w \<longleftrightarrow> poisoned (user w) \<and> rpc_sites (user w) ''cluster-alpha'' \<noteq> None
     \<and> executors (user w) ''worker-io'' \<in> {Some Idle_exec, Some Ended} \<and> executors (user w) ''worker-async'' = Some Ended"

lemma broken_println [simp]: "broken (println ls w) = broken w"
  by (simp add: broken_def)

lemma broken_set_Ended: "broken w \<Longrightarrow> broken (set_exec name Ended w)"
  by (auto simp: broken_def set_exec_def)

lemma broken_update:
  assumes "broken w"
  shows "\<exists>ls. proxy_update_score checked loc pid d w = Some (Panics ''deliver async task'', println ls w)"
proof -
  have "rpc_sites (user w) ''cluster-alpha'' \<noteq> None" "executors (user w) ''worker-async'' = Some Ended"
    using assms by (simp_all add: broken_def)
  then obtain ls where "proxy_update_score checked loc pid d w
      = execute_async ''worker-async'' (walk execute_async ''] asynchronously forwarding '' ''PlayerOps::update_score''
          (AtThread ''worker-async'') [] (update_score_async checked pid d)) (println ls w)"
    unfolding proxy_calls_walk using walk_to_executor[where w = w and srv = "''cluster-alpha''" and name = "''worker-async''"]
    by (metis option.distinct(1))
  then show ?thesis using \<open>executors (user w) ''worker-async'' = Some Ended\<close>
    by (auto simp: execute_async_def execute_with_def Let_def)
qed

lemma broken_fetch:
  assumes "broken w"
  shows "\<exists>w'. proxy_fetch_profile loc pid w = Some (Panics (if executors (user w) ''worker-io'' = Some Idle_exec
      then ''receive sync result'' else ''deliver sync task''), w')
    \<and> broken w' \<and> executors (user w') ''worker-io'' = Some Ended"
proof -
  let ?fin = "walk execute_sync ''] forwarding '' ''PlayerOps::fetch_profile'' (AtThread ''worker-io'') [] (fetch_profile pid)"
  have b: "rpc_sites (user w) ''cluster-alpha'' \<noteq> None" "executors (user w) ''worker-io'' \<in> {Some Idle_exec, Some Ended}"
    "poisoned (user w)" using assms by (simp_all add: broken_def)
  then obtain ls where ls: "proxy_fetch_profile loc pid w = execute_sync ''worker-io'' ?fin (println ls w)"
    unfolding proxy_calls_walk using walk_to_executor[where w = w and srv = "''cluster-alpha''" and name = "''worker-io''"]
    by (metis insertE option.distinct(1) singletonD)
  obtain ls2 where fin: "?fin v = Some (Panics ''store poisoned'', println ls2 v)" if "poisoned (user v)" for v
    by (fastforce simp: call_bind_def act_bind_def print_line_def fetch_profile_def println_println)
  show ?thesis
  proof (cases "executors (user w) ''worker-io'' = Some Idle_exec")
    case True
    let ?v = "set_exec ''worker-io'' Running (println [''[executor::worker-io] scheduling sync job''] (println ls w))"
    have "poisoned (user ?v)" using b(3) by (simp add: set_exec_def)
    from fin[OF this] True have "execute_sync ''worker-io'' ?fin (println ls w)
        = Some (Panics ''receive sync result'', set_exec ''worker-io'' Ended (println ls2 ?v))"
      by (simp add: execute_sync_def execute_with_def)
    moreover have "broken (set_exec ''worker-io'' Ended (println ls2 ?v))"
      using assms by (simp add: broken_def set_exec_def)
    ultimately show ?thesis using True ls by (simp add: set_exec_def)
  next
    case False
    then have "execute_sync ''worker-io'' ?fin (println ls w) = Some (Panics ''deliver sync task'',
        println [''[executor::worker-io] scheduling sync job''] (println ls w))"
      using b(2) by (auto simp: execute_sync_def execute_with_def Let_def)
    then show ?thesis using False ls assms b(2) by simp
  qed
qed

text \<open>What the users of the proxy may do next, in any order and number: fetch, update, shut down.\<close>

inductive proxy_step :: "bool \<Rightarrow> runtime world \<Rightarrow> runtime world \<Rightarrow> bool" for checked where
  fetch: "proxy_fetch_profile loc pid w = Some (r, w') \<Longrightarrow> proxy_step checked w w'"
| update: "proxy_update_score checked loc pid d w = Some (r, w') \<Longrightarrow> proxy_step checked w w'"
| stop: "shutdown order w = Some (r, w') \<Longrightarrow> proxy_step checked w w'"

lemma broken_shutdown: "shutdown order w = Some (r, w') \<Longrightarrow> broken w \<Longrightarrow> broken w'"
proof (induction order arbitrary: w)
  case (Cons name order)
  let ?w = "println [''[executor::'' @ name @ ''] shutting down''] (set_exec name Ended w)"
  have "shutdown order ?w = Some (r, w')"
    using Cons.prems(1) by (simp add: call_bind_def act_bind_def shutdown_executor_def)
  moreover have "broken ?w" using Cons.prems(2) by (simp add: broken_set_Ended)
  ultimately show ?case by (rule Cons.IH)
qed (simp add: act_return_def)

lemma broken_steps: "(proxy_step checked)\<^sup>*\<^sup>* w w' \<Longrightarrow> broken w \<Longrightarrow> broken w'"
proof (induction rule: rtranclp_induct)
  case (step u v)
  then have u: "broken u" by simp
  from step.hyps(2) show ?case
  proof cases
    case (fetch loc pid r)
    then show ?thesis using broken_fetch[OF u, of loc pid] by auto
  next
    case (update loc pid d r)
    then show ?thesis using broken_update[OF u, of checked loc pid d] u by auto
  next
    case (stop order r)
    then show ?thesis using broken_shutdown u by blast
  qed
qed simp

text \<open>
  C24. Overflow. Let the runtime be in working order. With overflow checks, an update whose sum leaves the range of \<^verbatim>\<open>i32\<close> panics
  while it holds the lock: the caller sees the lost result, the executor's thread has ended and
  the mutex is poisoned. From then on, whatever fetches, updates and shutdowns the users of the proxy make, and in whatever
  order, every fetch of any player from any location panics and leaves \<^verbatim>\<open>worker-io\<close> ended (the caller misses its result if the thread was alive, and cannot deliver the job
  if it was not), and every update panics because its job cannot be delivered.
\<close>

theorem overflow_poisons_store:
  assumes "serving w" and "add_overflows (pr_score (entry_or_insert pid (players (user w)))) d"
  shows "\<exists>w'. proxy_update_score True loc pid d w = Some (Panics ''local executor stopped'', w')
    \<and> poisoned (user w') \<and> executors (user w') ''worker-async'' = Some Ended
    \<and> (\<exists>w''. proxy_fetch_profile loc' pid' w' = Some (Panics ''receive sync result'', w'')
        \<and> executors (user w'') ''worker-io'' = Some Ended)
    \<and> (\<forall>v. (proxy_step True)\<^sup>*\<^sup>* w' v \<longrightarrow>
        (\<exists>v'. proxy_fetch_profile loc' pid' v = Some (Panics (if executors (user v) ''worker-io'' = Some Idle_exec
              then ''receive sync result'' else ''deliver sync task''), v')
          \<and> executors (user v') ''worker-io'' = Some Ended)
        \<and> (\<exists>v'. proxy_update_score True loc' pid' d' v = Some (Panics ''deliver async task'', v')))"
proof -
  let ?plan = "[Rpc ''cluster-alpha'', Thread ''worker-async'']" and ?m = "''PlayerOps::update_score''"
  let ?h = "\<lambda>(id, change). update_score_async True id change"
  let ?w = "println (async_lines ?m (rpc_sites (user w)) loc (drop 0 ?plan)) w"
  have "\<exists>w1. update_score_async True pid d ?w = Some (Panics ''attempt to add with overflow'', w1)
      \<and> poisoned (user w1) \<and> executors (user w1) = executors (user w) \<and> rpc_sites (user w1) = rpc_sites (user w)"
    using assms by (simp add: update_score_async_def call_bind_def act_bind_def print_line_def serving_def Let_def)
  then obtain w1 where w1: "update_score_async True pid d ?w = Some (Panics ''attempt to add with overflow'', w1)"
      "poisoned (user w1)" "executors (user w1) = executors (user w)" "rpc_sites (user w1) = rpc_sites (user w)"
    by blast
  define w' where "w' = set_exec ''worker-async'' Ended w1"
  have "exec_async_cursor loc ?plan 0 ?m (pid, d) ?h w = Some (Panics ''local executor stopped'', w')"
    using async_cursor_panic[where handler = ?h and args = "(pid, d)", unfolded split,
        OF framed_update serving_plans(2)[OF assms(1)] _ w1(1)] by (simp add: w'_def)
  then have 1: "proxy_update_score True loc pid d w = Some (Panics ''local executor stopped'', w')"
    by (simp add: proxy_update_score_def run_async_def)
  have p: "poisoned (user w')" "executors (user w') = (executors (user w))(''worker-async'' \<mapsto> Ended)"
      "rpc_sites (user w') = rpc_sites (user w)"
    using w1 by (simp_all add: w'_def) (simp_all add: set_exec_def)
  then have io: "executors (user w') ''worker-io'' = Some Idle_exec" and b: "broken w'"
    using assms(1) by (simp_all add: serving_def broken_def)
  have "broken v" if "(proxy_step True)\<^sup>*\<^sup>* w' v" for v by (rule broken_steps[OF that b])
  then have "\<forall>v. (proxy_step True)\<^sup>*\<^sup>* w' v \<longrightarrow>
        (\<exists>v'. proxy_fetch_profile loc' pid' v = Some (Panics (if executors (user v) ''worker-io'' = Some Idle_exec
              then ''receive sync result'' else ''deliver sync task''), v')
          \<and> executors (user v') ''worker-io'' = Some Ended)
        \<and> (\<exists>v'. proxy_update_score True loc' pid' d' v = Some (Panics ''deliver async task'', v'))"
    using broken_fetch[of _ loc' pid'] broken_update[of _ True loc' pid' d'] by blast
  moreover have "\<exists>w''. proxy_fetch_profile loc' pid' w' = Some (Panics ''receive sync result'', w'')
      \<and> executors (user w'') ''worker-io'' = Some Ended" using broken_fetch[OF b, of loc' pid'] io by auto
  moreover have "executors (user w') ''worker-async'' = Some Ended" using p(2) by simp
  ultimately show ?thesis using 1 p(1) by blast
qed

text \<open>The second fetch after the overflow finds \<^verbatim>\<open>worker-io\<close> ended.\<close>

lemma overflow_poisons_store_witness:
  "\<exists>w v v'. proxy_update_score True AtClient 1001 2147483600 \<lparr>out = [], user = bootstrap\<rparr>
     = Some (Panics ''local executor stopped'', w) \<and> poisoned (user w)
     \<and> proxy_fetch_profile AtClient 2002 w = Some (Panics ''receive sync result'', v)
     \<and> proxy_fetch_profile AtClient 2002 v = Some (Panics ''deliver sync task'', v')"
proof -
  have s: "serving \<lparr>out = [], user = bootstrap\<rparr>" by (simp add: serving_def bootstrap_def)
  have ov: "add_overflows (pr_score (entry_or_insert 1001 (players (user \<lparr>out = [], user = bootstrap\<rparr>)))) 2147483600"
    by (simp add: bootstrap_def initial_players_def entry_or_insert_def add_overflows_def)
  obtain w v where w: "proxy_update_score True AtClient 1001 2147483600 \<lparr>out = [], user = bootstrap\<rparr>
      = Some (Panics ''local executor stopped'', w)" "poisoned (user w)"
    and v: "proxy_fetch_profile AtClient 2002 w = Some (Panics ''receive sync result'', v)"
      "executors (user v) ''worker-io'' = Some Ended"
    and all: "\<And>v. (proxy_step True)\<^sup>*\<^sup>* w v \<Longrightarrow>
        \<exists>v'. proxy_fetch_profile AtClient 2002 v = Some (Panics (if executors (user v) ''worker-io'' = Some Idle_exec
              then ''receive sync result'' else ''deliver sync task''), v')"
    using overflow_poisons_store[OF s ov, of AtClient AtClient 2002 0] by blast
  have "proxy_step True w v" by (rule fetch[OF v(1)])
  then have "\<exists>v'. proxy_fetch_profile AtClient 2002 v = Some (Panics ''deliver sync task'', v')"
    using all[of v] v(2) by auto
  with w v(1) show ?thesis by blast
qed

text \<open>
  Score updates commute: whichever of two updates, of the same player or of two players, the
  executor runs first, the stored players are the same afterwards.
\<close>

lemma score_updates_commute:
  assumes "\<not> poisoned (user w)"
    and "update_score_async False a c w = Some (r1, w1)" and "update_score_async False b d w1 = Some (r2, w2)"
    and "update_score_async False b d w = Some (r3, w3)" and "update_score_async False a c w3 = Some (r4, w4)"
  shows "user w2 = user w4 \<and> (a = b \<longrightarrow> r2 = r4)"
proof -
  have step: "user w' = (user v)\<lparr>players := (players (user v))(i \<mapsto> scored i x (players (user v)))\<rparr>
      \<and> r = Value (pr_score (scored i x (players (user v))))"
    if "\<not> poisoned (user v)" "update_score_async False i x v = Some (r, w')" for v i x r w'
    using update_value[of v False i x] that by auto
  note s1 = step[OF assms(1,2)] and s3 = step[OF assms(1,4)]
  have s2: "user w2 = (user w1)\<lparr>players := (players (user w1))(b \<mapsto> scored b d (players (user w1)))\<rparr>
      \<and> r2 = Value (pr_score (scored b d (players (user w1))))"
    by (rule step[OF _ assms(3)]) (use s1 assms(1) in simp)
  have s4: "user w4 = (user w3)\<lparr>players := (players (user w3))(a \<mapsto> scored a c (players (user w3)))\<rparr>
      \<and> r4 = Value (pr_score (scored a c (players (user w3))))"
    by (rule step[OF _ assms(5)]) (use s3 assms(1) in simp)
  show ?thesis using s1 s2 s3 s4
    by (auto simp: scored_def entry_or_insert_def Let_def fun_upd_twist add.commute add.left_commute add.assoc
        split: option.splits)
qed

lemma score_updates_commute_witness:
  "\<exists>w1 w2 w3 w4. update_score_async False 2002 25 \<lparr>out = [], user = bootstrap\<rparr> = Some (Value 1005, w1)
     \<and> update_score_async False 2002 (- 15) w1 = Some (Value 990, w2)
     \<and> update_score_async False 2002 (- 15) \<lparr>out = [], user = bootstrap\<rparr> = Some (Value 965, w3)
     \<and> update_score_async False 2002 25 w3 = Some (Value 990, w4) \<and> user w2 = user w4"
proof -
  let ?w = "\<lparr>out = [], user = bootstrap\<rparr>"
  have v: "\<not> poisoned (user v) \<Longrightarrow> \<exists>ls. update_score_async False i x v =
      Some (Value (pr_score (scored i x (players (user v)))),
        println ls v\<lparr>user := (user v)\<lparr>players := (players (user v))(i \<mapsto> scored i x (players (user v)))\<rparr>\<rparr>)" for v i x
    by (rule update_value) simp_all
  have 0: "\<not> poisoned (user ?w)" "scored 2002 25 (players (user ?w)) = \<lparr>pr_id = 2002, pr_name = ''Bob'', pr_level = 12, pr_score = 1005\<rparr>"
      "scored 2002 (- 15) (players (user ?w)) = \<lparr>pr_id = 2002, pr_name = ''Bob'', pr_level = 12, pr_score = 965\<rparr>"
    by (simp_all add: bootstrap_def initial_players_def scored_def entry_or_insert_def)
  obtain w1 where 1: "update_score_async False 2002 25 ?w = Some (Value 1005, w1)" "\<not> poisoned (user w1)"
      "players (user w1) 2002 = Some \<lparr>pr_id = 2002, pr_name = ''Bob'', pr_level = 12, pr_score = 1005\<rparr>"
    using v[OF 0(1), of 2002 25] 0 by auto
  obtain w3 where 3: "update_score_async False 2002 (- 15) ?w = Some (Value 965, w3)" "\<not> poisoned (user w3)"
      "players (user w3) 2002 = Some \<lparr>pr_id = 2002, pr_name = ''Bob'', pr_level = 12, pr_score = 965\<rparr>"
    using v[OF 0(1), of 2002 "- 15"] 0 by auto
  obtain w2 where 2: "update_score_async False 2002 (- 15) w1 = Some (Value 990, w2)"
    using v[OF 1(2), of 2002 "- 15"] 1(3) by (auto simp: scored_def entry_or_insert_def)
  obtain w4 where 4: "update_score_async False 2002 25 w3 = Some (Value 990, w4)"
    using v[OF 3(2), of 2002 25] 3(3) by (auto simp: scored_def entry_or_insert_def)
  show ?thesis using 1(1) 2 3(1) 4 score_updates_commute[OF 0(1) 1(1) 2 3(1) 4] by blast
qed

end
