(* ===== verification/ExecQueue.thy ===== *)
theory ExecQueue
  imports Prelude
begin

text \<open>
  The executor thread of \<^verbatim>\<open>examples/rpc/practice.rs\<close> under concurrent callers
  (\<^verbatim>\<open>LocalExecutor\<close>, \<^verbatim>\<open>ThreadCommand\<close>): a queue of commands that one thread takes in order.
  Any number of callers submit jobs over a shared state and wait for their replies; a job may
  panic, which unwinds the thread, or never return. \<open>Practice\<close> describes one caller; here the callers interleave.
\<close>

section \<open>State\<close>

text \<open>
  A job runs on the shared state. It may never return, \<open>None\<close>: a job that submits another one to its own
  executor waits for ever. If it ends, it has a result, or \<open>None\<close> in the place of one when it panicked, and a
  new state. \<^verbatim>\<open>Sync\<close> and \<^verbatim>\<open>Async\<close> commands differ only in how the closure is built; both carry the
  sender of the caller's result channel, named by a ticket.
\<close>

type_synonym ('s, 'r) job = "'s \<Rightarrow> ('r option \<times> 's) option"

datatype ('s, 'r) command = SyncCmd nat "('s, 'r) job" | AsyncCmd nat "('s, 'r) job" | ShutdownCmd

fun cmd_job :: "('s, 'r) command \<Rightarrow> (nat \<times> ('s, 'r) job) option" where
  "cmd_job (SyncCmd t f) = Some (t, f)"
| "cmd_job (AsyncCmd t f) = Some (t, f)"
| "cmd_job ShutdownCmd = None"

text \<open>
  What the caller of a ticket finds: the command could not be delivered, the result, or the
  result sender dropped.
\<close>

datatype 'r reply = Rejected | Answer 'r | Dropped

text \<open>\<open>hung\<close> is the job that the thread is in for ever.\<close>

record ('s, 'r) exec =
  queue :: "('s, 'r) command list"
  alive :: bool
  hung :: "(nat \<times> ('s, 'r) job) option"
  shared :: 's
  replies :: "nat \<Rightarrow> 'r reply option"
  accepted :: "(nat \<times> ('s, 'r) job) list"
  completed :: "(nat \<times> ('s, 'r) job) list"

definition exec_new :: "'s \<Rightarrow> ('s, 'r) exec" where
  "exec_new s0 = \<lparr>queue = [], alive = True, hung = None, shared = s0, replies = (\<lambda>_. None), accepted = [], completed = []\<rparr>"

text \<open>The tickets of a list of jobs, and that they are all different.\<close>

definition tickets :: "(nat \<times> 'j) list \<Rightarrow> nat set" where
  "tickets js = fst ` set js"

definition unique :: "(nat \<times> 'j) list \<Rightarrow> bool" where
  "unique js \<longleftrightarrow> distinct (map fst js)"

lemma tickets_simps [simp]:
  "tickets [] = {}" "tickets (j # js) = insert (fst j) (tickets js)" "tickets (js @ ks) = tickets js \<union> tickets ks"
  by (simp_all add: tickets_def image_Un)

lemma unique_simps [simp]:
  "unique []" "unique (j # js) \<longleftrightarrow> fst j \<notin> tickets js \<and> unique js"
  "unique (js @ ks) \<longleftrightarrow> unique js \<and> unique ks \<and> tickets js \<inter> tickets ks = {}"
  by (auto simp: unique_def tickets_def)

section \<open>Operations\<close>

text \<open>\<^verbatim>\<open>self.sender.send(..)\<close>: it fails once the receiver of the queue is dropped.\<close>

definition send_cmd :: "('s, 'r) command \<Rightarrow> ('s, 'r) exec \<Rightarrow> ('s, 'r) exec" where
  "send_cmd c e =
     (if alive e then e\<lparr>queue := queue e @ [c], accepted := accepted e @ (case cmd_job c of None \<Rightarrow> [] | Some j \<Rightarrow> [j])\<rparr>
      else case cmd_job c of None \<Rightarrow> e | Some (t, _) \<Rightarrow> e\<lparr>replies := (replies e)(t \<mapsto> Rejected)\<rparr>)"

text \<open>The jobs of the queue, and the thread's end: the queue and every result sender in it are dropped.\<close>

definition queued :: "('s, 'r) command list \<Rightarrow> (nat \<times> ('s, 'r) job) list" where
  "queued q = List.map_filter cmd_job q"

definition stop_thread :: "('s, 'r) exec \<Rightarrow> ('s, 'r) exec" where
  "stop_thread e = e\<lparr>alive := False, queue := [],
     replies := foldr (\<lambda>(t, _) m. m(t \<mapsto> Dropped)) (queued (queue e)) (replies e)\<rparr>"

text \<open>
  One turn of the thread's loop on a job: \<^verbatim>\<open>let outcome = job(); let _ = result_tx.send(outcome)\<close>. A
  job that never returns keeps the thread; the queue stays open behind it. What it does to the state before it
  blocks is left out, since the thread does not take the state up again.
\<close>

definition run_job :: "nat \<Rightarrow> ('s, 'r) job \<Rightarrow> ('s, 'r) command list \<Rightarrow> ('s, 'r) exec \<Rightarrow> ('s, 'r) exec" where
  "run_job t f q e = (case f (shared e) of
      None \<Rightarrow> e\<lparr>queue := q, hung := Some (t, f)\<rparr>
    | Some (Some r, s') \<Rightarrow> e\<lparr>queue := q, shared := s', replies := (replies e)(t \<mapsto> Answer r), completed := completed e @ [(t, f)]\<rparr>
    | Some (None, s') \<Rightarrow> stop_thread (e\<lparr>queue := q, shared := s', replies := (replies e)(t \<mapsto> Dropped), completed := completed e @ [(t, f)]\<rparr>))"

text \<open>The thread's loop: take a command; \<^verbatim>\<open>Shutdown\<close> breaks it.\<close>

definition take_cmd :: "('s, 'r) exec \<Rightarrow> ('s, 'r) exec option" where
  "take_cmd e = (if \<not> alive e \<or> hung e \<noteq> None then None else case queue e of
      [] \<Rightarrow> None
    | c # q \<Rightarrow> (case cmd_job c of
        Some (t, f) \<Rightarrow> Some (run_job t f q e)
      | None \<Rightarrow> Some (stop_thread (e\<lparr>queue := q\<rparr>))))"

text \<open>Callers use a fresh result channel for every call.\<close>

definition fresh :: "('s, 'r) exec \<Rightarrow> ('s, 'r) command \<Rightarrow> bool" where
  "fresh e c \<longleftrightarrow> (case cmd_job c of None \<Rightarrow> True
     | Some (t, _) \<Rightarrow> replies e t = None \<and> t \<notin> tickets (accepted e))"

inductive exec_step :: "('s, 'r) exec \<Rightarrow> ('s, 'r) exec \<Rightarrow> bool" where
  submit: "fresh e c \<Longrightarrow> exec_step e (send_cmd c e)"
| work: "take_cmd e = Some e' \<Longrightarrow> exec_step e e'"

abbreviation exec_reach :: "'s \<Rightarrow> ('s, 'r) exec \<Rightarrow> bool" where
  "exec_reach s0 \<equiv> reach (\<lambda>e. e = exec_new s0) exec_step"

section \<open>The sequential specification\<close>

fun after_job :: "('s, 'r) job \<Rightarrow> 's \<Rightarrow> 's" where
  "after_job f s = (case f s of None \<Rightarrow> s | Some (_, s') \<Rightarrow> s')"

fun job_reply :: "('s, 'r) job \<Rightarrow> 's \<Rightarrow> 'r reply option" where
  "job_reply f s = (case f s of None \<Rightarrow> None | Some (Some r, _) \<Rightarrow> Some (Answer r) | Some (None, _) \<Rightarrow> Some Dropped)"

fun seq_state :: "'s \<Rightarrow> (nat \<times> ('s, 'r) job) list \<Rightarrow> 's" where
  "seq_state s [] = s"
| "seq_state s ((t, f) # js) = seq_state (after_job f s) js"

fun seq_reply :: "'s \<Rightarrow> (nat \<times> ('s, 'r) job) list \<Rightarrow> nat \<Rightarrow> 'r reply option" where
  "seq_reply s [] t = None"
| "seq_reply s ((u, f) # js) t = (if u = t then job_reply f s else seq_reply (after_job f s) js t)"

declare after_job.simps [simp del] job_reply.simps [simp del]

lemma seq_state_snoc: "seq_state s (js @ [(t, f)]) = after_job f (seq_state s js)"
  by (induction s js rule: seq_state.induct) simp_all

lemma seq_reply_snoc:
  "t \<notin> tickets js \<Longrightarrow> seq_reply s (js @ [(t, f)]) u = (if u = t then job_reply f (seq_state s js) else seq_reply s js u)"
  by (induction s js rule: seq_state.induct) auto

lemma drop_replies:
  "foldr (\<lambda>(t, _) m. m(t \<mapsto> Dropped)) js m t = (if t \<in> tickets js then Some Dropped else m t)"
  by (induction js) auto

lemma queued_simps [simp]:
  "queued [] = []" "cmd_job c = None \<Longrightarrow> queued (c # q) = queued q"
  "cmd_job c = Some j \<Longrightarrow> queued (c # q) = j # queued q"
  by (simp_all add: queued_def List.map_filter_def)

lemma queued_append: "queued (p @ q) = queued p @ queued q"
  by (simp add: queued_def List.map_filter_def)

section \<open>Invariant\<close>

text \<open>
  The accepted jobs are the completed ones followed by the rest, which are the job that never returns, if there is
  one, and the queue while the thread lives; the shared state and the replies of completed jobs are those of the sequential
  execution; a job of the rest has no reply while the thread lives and a dropped one afterwards.
\<close>

definition unserved :: "('s, 'r) exec \<Rightarrow> (nat \<times> ('s, 'r) job) list" where
  "unserved e = (case hung e of None \<Rightarrow> [] | Some j \<Rightarrow> [j]) @ queued (queue e)"

definition exec_inv :: "'s \<Rightarrow> ('s, 'r) exec \<Rightarrow> bool" where
  "exec_inv s0 e \<longleftrightarrow> unique (accepted e)
     \<and> (\<exists>rest. accepted e = completed e @ rest
          \<and> (alive e \<longrightarrow> rest = unserved e)
          \<and> (\<forall>t \<in> tickets rest. replies e t = (if alive e then None else Some Dropped)))
     \<and> shared e = seq_state s0 (completed e)
     \<and> (\<forall>t \<in> tickets (completed e). replies e t = seq_reply s0 (completed e) t)
     \<and> (\<forall>t \<in> tickets (completed e). seq_reply s0 (completed e) t \<noteq> None)
     \<and> (\<forall>t f. hung e = Some (t, f) \<longrightarrow> alive e \<and> f (shared e) = None)
     \<and> (\<forall>t. t \<notin> tickets (accepted e) \<longrightarrow> replies e t \<in> {None, Some Rejected})"

lemma exec_inv_new: "exec_inv s0 (exec_new s0)"
  by (simp add: exec_inv_def exec_new_def unserved_def)

lemma exec_inv_send:
  assumes inv: "exec_inv s0 e" and fr: "fresh e c"
  shows "exec_inv s0 (send_cmd c e)"
proof (cases "cmd_job c")
  case None
  then show ?thesis using inv by (auto simp: exec_inv_def send_cmd_def unserved_def queued_append)
next
  case (Some j)
  obtain t f where j: "j = (t, f)" by (cases j)
  have t: "t \<notin> tickets (accepted e)" "replies e t = None" using fr Some j by (auto simp: fresh_def)
  show ?thesis
  proof (cases "alive e")
    case True
    then show ?thesis using inv Some j t
      by (auto simp: exec_inv_def send_cmd_def unserved_def queued_append)
  next
    case False
    then show ?thesis using inv Some j t by (auto simp: exec_inv_def send_cmd_def)
  qed
qed

lemma exec_inv_stop:
  assumes inv: "exec_inv s0 e" and al: "alive e" "hung e = None"
  shows "exec_inv s0 (stop_thread e)"
proof -
  have acc: "accepted e = completed e @ queued (queue e)" and d: "unique (accepted e)"
    using inv al by (auto simp: exec_inv_def unserved_def)
  then have "tickets (completed e) \<inter> tickets (queued (queue e)) = {}" by auto
  then show ?thesis using inv acc d al by (auto simp: exec_inv_def stop_thread_def drop_replies disjoint_iff)
qed

lemma exec_inv_run:
  assumes inv: "exec_inv s0 e" and al: "alive e" "hung e = None" and q: "queue e = c # q" "cmd_job c = Some (t, f)"
  shows "exec_inv s0 (run_job t f q e)"
proof -
  have acc: "accepted e = completed e @ (t, f) # queued q" and d: "unique (accepted e)"
    and sh: "shared e = seq_state s0 (completed e)"
    using inv al q by (auto simp: exec_inv_def unserved_def)
  have t: "t \<notin> tickets (completed e)" "t \<notin> tickets (queued q)"
      "tickets (completed e) \<inter> tickets (queued q) = {}"
    using d unfolding acc by auto
  show ?thesis
  proof (cases "f (shared e)")
    case None
    then show ?thesis using inv al acc q by (auto simp: exec_inv_def run_job_def unserved_def)
  next
    case (Some r)
    obtain x s' where fx: "f (shared e) = Some (x, s')" using Some by (cases r) simp
    define e1 where "e1 = e\<lparr>queue := q, shared := s',
      replies := (replies e)(t \<mapsto> (case x of Some r \<Rightarrow> Answer r | None \<Rightarrow> Dropped)), completed := completed e @ [(t, f)]\<rparr>"
    have j: "after_job f (shared e) = s'" "job_reply f (shared e) = Some (case x of Some r \<Rightarrow> Answer r | None \<Rightarrow> Dropped)"
      using fx by (simp_all add: after_job.simps job_reply.simps split: option.split)
    have "exec_inv s0 e1"
      using inv al acc d sh t j q
      by (auto simp: exec_inv_def e1_def unserved_def seq_state_snoc seq_reply_snoc disjoint_iff)
    moreover have "alive e1" "hung e1 = None" using al by (simp_all add: e1_def)
    ultimately show ?thesis using exec_inv_stop[of s0 e1] fx
      by (cases x) (simp_all add: run_job_def e1_def)
  qed
qed

lemma take_cmdD:
  assumes "take_cmd e = Some e'"
  obtains c q where "alive e" "hung e = None" "queue e = c # q"
  using assms by (cases "hung e"; cases "queue e") (auto simp: take_cmd_def split: if_splits)

lemma exec_inv_step: "exec_step e e' \<Longrightarrow> exec_inv s0 e \<Longrightarrow> exec_inv s0 e'"
proof (induction rule: exec_step.induct)
  case (submit e c)
  then show ?case by (simp add: exec_inv_send)
next
  case (work e e')
  then obtain c q where q: "alive e" "hung e = None" "queue e = c # q" by (elim take_cmdD)
  show ?case
  proof (cases "cmd_job c")
    case None
    then have "e' = stop_thread (e\<lparr>queue := q\<rparr>)" using work(1) q by (simp add: take_cmd_def)
    moreover have "exec_inv s0 (e\<lparr>queue := q\<rparr>)" using work(2) q None by (auto simp: exec_inv_def unserved_def)
    ultimately show ?thesis using exec_inv_stop[of s0 "e\<lparr>queue := q\<rparr>"] q by simp
  next
    case (Some j)
    then show ?thesis using work q exec_inv_run[of s0 e c q] by (cases j) (simp add: take_cmd_def)
  qed
qed

interpretation fifo: inv_system "\<lambda>e. e = exec_new s0" exec_step "exec_inv s0" for s0
  by unfold_locales (auto simp: exec_inv_new intro: exec_inv_step)

section \<open>Properties\<close>

text \<open>
  C25. Linearizability. However callers interleave, the jobs complete in the order in which the
  queue accepted them, and the shared state and every reply of a completed job are those of
  running these jobs one after the other.
\<close>

theorem executor_linearizable:
  assumes "exec_reach s0 e"
  shows "(\<exists>rest. accepted e = completed e @ rest) \<and> shared e = seq_state s0 (completed e)
    \<and> (\<forall>t \<in> tickets (completed e). replies e t = seq_reply s0 (completed e) t \<and> replies e t \<noteq> None)"
  using fifo.reach_inv[OF assms] by (simp add: exec_inv_def) metis

lemma executor_linearizable_witness:
  "\<exists>e. exec_reach (980 :: int) e \<and> shared e = 990 \<and> replies e 1 = Some (Answer (1005 :: int)) \<and> replies e 2 = Some (Answer 990)"
proof -
  let ?f = "\<lambda>d (s :: int). Some (Some (s + d), s + d)"
  let ?e1 = "send_cmd (AsyncCmd 1 (?f 25)) (exec_new 980)"
  let ?e2 = "send_cmd (AsyncCmd 2 (?f (- 15))) ?e1"
  let ?e3 = "the (take_cmd ?e2)"
  let ?e4 = "the (take_cmd ?e3)"
  note d = send_cmd_def exec_new_def take_cmd_def run_job_def fresh_def
  have "exec_reach 980 (exec_new 980)" by (rule reach_init) simp
  then have "exec_reach 980 ?e1" by (rule reach_step) (rule submit, simp add: d)
  then have "exec_reach 980 ?e2" by (rule reach_step) (rule submit, simp add: d)
  then have "exec_reach 980 ?e3" by (rule reach_step) (rule work, simp add: d)
  then have r: "exec_reach 980 ?e4" by (rule reach_step) (rule work, simp add: d)
  have c: "completed ?e4 = [(1, ?f 25), (2, ?f (- 15))]" by (simp add: d)
  have "shared ?e4 = 990" "replies ?e4 1 = Some (Answer 1005)" "replies ?e4 2 = Some (Answer 990)"
    using executor_linearizable[OF r] unfolding c by (simp_all add: after_job.simps job_reply.simps)
  with r show ?thesis by blast
qed

text \<open>The thread takes up to \<open>n\<close> commands while nobody submits any.\<close>

fun serve :: "nat \<Rightarrow> ('s, 'r) exec \<Rightarrow> ('s, 'r) exec" where
  "serve 0 e = e"
| "serve (Suc n) e = (case take_cmd e of None \<Rightarrow> e | Some e' \<Rightarrow> serve n e')"

lemma take_cmd_frame: "take_cmd e = Some e' \<Longrightarrow> accepted e' = accepted e \<and> length (queue e') < length (queue e)"
  by (auto simp: take_cmd_def run_job_def stop_thread_def split: if_splits list.splits option.splits prod.splits)

lemma caller_cases:
  assumes "exec_reach s0 e" and "t \<in> tickets (accepted e)"
  shows "replies e t \<noteq> None
    \<or> (t \<in> tickets (queued (queue e)) \<and> (\<exists>e'. take_cmd e = Some e'))
    \<or> (\<exists>u f. hung e = Some (u, f) \<and> (u, f) \<in> set (accepted e) \<and> f (shared e) = None)"
proof (cases "t \<in> tickets (completed e)")
  case True
  then show ?thesis using fifo.reach_inv[OF assms(1)] unfolding exec_inv_def by auto
next
  case False
  obtain rest where rest: "accepted e = completed e @ rest" "alive e \<longrightarrow> rest = unserved e"
      "\<forall>t \<in> tickets rest. replies e t = (if alive e then None else Some Dropped)"
      "\<forall>t f. hung e = Some (t, f) \<longrightarrow> alive e \<and> f (shared e) = None"
    using fifo.reach_inv[OF assms(1)] by (auto simp: exec_inv_def)
  have t: "t \<in> tickets rest" using assms(2) False rest(1) by auto
  show ?thesis
  proof (cases "hung e")
    case (Some j)
    then show ?thesis using rest(1,2,4) by (cases j) (auto simp: unserved_def)
  next
    case None
    show ?thesis
    proof (cases "alive e")
      case True
      then have q: "t \<in> tickets (queued (queue e))" using t rest(2) None by (simp add: unserved_def)
      then obtain c q where "queue e = c # q" by (cases "queue e") auto
      then show ?thesis using True None q by (auto simp: take_cmd_def split: option.splits)
    next
      case False
      then show ?thesis using t rest(3) by auto
    qed
  qed
qed

lemma serve_ends:
  assumes "exec_reach s0 e" and "t \<in> tickets (accepted e)" and "length (queue e) \<le> n"
  shows "replies (serve n e) t \<noteq> None
    \<or> (\<exists>u f. hung (serve n e) = Some (u, f) \<and> (u, f) \<in> set (accepted e) \<and> f (shared (serve n e)) = None)"
  using assms
proof (induction n arbitrary: e)
  case 0
  then show ?case using caller_cases[OF 0(1,2)] by auto
next
  case (Suc n)
  show ?case
  proof (cases "take_cmd e")
    case None
    then show ?thesis using caller_cases[OF Suc.prems(1,2)] by auto
  next
    case (Some e')
    have a: "accepted e' = accepted e" "length (queue e') \<le> n"
      using take_cmd_frame[OF Some] Suc.prems(3) by auto
    have "exec_reach s0 e'" by (rule reach_step[OF Suc.prems(1)]) (rule work[OF Some])
    then show ?thesis using Suc.IH[of e'] Suc.prems(2) a Some by simp
  qed
qed

text \<open>
  C26. No caller waits for ever, unless a job does. In every reachable state, a caller whose job was accepted has its reply; or its job is in the
  queue, and the thread can take the next command; or the thread is in a job, one of those accepted,
  that never returns (as one that submits to its own executor). The thread alone, in as many turns as the queue has commands,
  gives the caller its reply or gets into such a job; if every accepted job returns, whatever state it finds, it gives the reply.
\<close>

theorem executor_progress:
  assumes "exec_reach s0 e" and "t \<in> tickets (accepted e)"
  shows "(replies e t \<noteq> None
      \<or> (t \<in> tickets (queued (queue e)) \<and> (\<exists>e'. take_cmd e = Some e' \<and> length (queue e') < length (queue e)))
      \<or> (\<exists>u f. hung e = Some (u, f) \<and> (u, f) \<in> set (accepted e) \<and> f (shared e) = None))
    \<and> (\<exists>e'. serve (length (queue e)) e = e' \<and> (replies e' t \<noteq> None
      \<or> (\<exists>u f. hung e' = Some (u, f) \<and> (u, f) \<in> set (accepted e) \<and> f (shared e') = None)))
    \<and> ((\<forall>(u, f) \<in> set (accepted e). \<forall>s. f s \<noteq> None) \<longrightarrow> replies (serve (length (queue e)) e) t \<noteq> None)"
proof (intro conjI)
  note e = serve_ends[OF assms order_refl]
  show "replies e t \<noteq> None
      \<or> (t \<in> tickets (queued (queue e)) \<and> (\<exists>e'. take_cmd e = Some e' \<and> length (queue e') < length (queue e)))
      \<or> (\<exists>u f. hung e = Some (u, f) \<and> (u, f) \<in> set (accepted e) \<and> f (shared e) = None)"
    using caller_cases[OF assms] take_cmd_frame by blast
  show "\<exists>e'. serve (length (queue e)) e = e' \<and> (replies e' t \<noteq> None
      \<or> (\<exists>u f. hung e' = Some (u, f) \<and> (u, f) \<in> set (accepted e) \<and> f (shared e') = None))"
    using e by simp
  show "(\<forall>(u, f) \<in> set (accepted e). \<forall>s. f s \<noteq> None) \<longrightarrow> replies (serve (length (queue e)) e) t \<noteq> None"
    using e by fastforce
qed

text \<open>One job answers; with another one before it that never returns, its caller waits.\<close>

lemma executor_progress_witness:
  "(\<exists>e. exec_reach (0 :: int) e \<and> replies e 7 = (None :: int reply option) \<and> replies (serve 1 e) 7 \<noteq> None)
   \<and> (\<exists>e. exec_reach (0 :: int) e \<and> replies (serve 2 e) 7 = (None :: int reply option) \<and> hung (serve 2 e) \<noteq> None)"
proof
  let ?c = "SyncCmd 7 (\<lambda>s. Some (Some s, s)) :: (int, int) command"
  let ?e = "send_cmd ?c (exec_new 0)" and ?h = "send_cmd (SyncCmd 6 (\<lambda>_. None)) (exec_new 0)"
  let ?e2 = "send_cmd ?c ?h"
  note d = send_cmd_def exec_new_def take_cmd_def fresh_def run_job_def
  have 0: "exec_reach 0 (exec_new 0)" by (rule reach_init) simp
  then have r: "exec_reach 0 ?e" by (rule reach_step) (rule submit, simp add: d)
  have n: "replies ?e 7 = None" and l: "length (queue ?e) = 1" and t: "7 \<in> tickets (accepted ?e)"
    and a: "\<forall>(u, f) \<in> set (accepted ?e). \<forall>s. f s \<noteq> None" by (simp_all add: d)
  from executor_progress[OF r t, THEN conjunct2, THEN conjunct2, THEN mp, OF a]
  have "replies (serve 1 ?e) 7 \<noteq> None" unfolding l .
  with r n show "\<exists>e. exec_reach (0 :: int) e \<and> replies e 7 = (None :: int reply option) \<and> replies (serve 1 e) 7 \<noteq> None"
    by (intro exI[of _ ?e] conjI)
  from 0 have "exec_reach 0 ?h" by (rule reach_step) (rule submit, simp add: d)
  then have r2: "exec_reach 0 ?e2" by (rule reach_step) (rule submit, simp add: d)
  have t2: "7 \<in> tickets (accepted ?e2)" and l2: "length (queue ?e2) = 2" and n2: "replies (serve 2 ?e2) 7 = None"
    by (simp_all add: d numeral_eq_Suc)
  from executor_progress[OF r2 t2, THEN conjunct2, THEN conjunct1]
  have "hung (serve 2 ?e2) \<noteq> None" unfolding l2 using n2 by auto
  with r2 n2 show "\<exists>e. exec_reach (0 :: int) e \<and> replies (serve 2 e) 7 = (None :: int reply option) \<and> hung (serve 2 e) \<noteq> None"
    by (intro exI[of _ ?e2] conjI)
qed

end
