(* ===== verification/PlayerQueue.thy ===== *)
theory PlayerQueue
  imports Practice ExecQueue
begin

text \<open>
  The player service of \<open>Practice\<close> on the executor thread of \<open>ExecQueue\<close>
  (\<^verbatim>\<open>examples/rpc/practice.rs\<close>): any number of callers update scores concurrently, as the test
  \<^verbatim>\<open>concurrent_forwarding_updates_are_serialized\<close> does with two.
\<close>

section \<open>Jobs\<close>

text \<open>
  The job that \<^verbatim>\<open>update_score\<close> sends to \<^verbatim>\<open>worker-async\<close>: the thread runs the future of
  \<^verbatim>\<open>update_score_async\<close> to its end on the shared runtime. What it prints is not part of that state.
\<close>

definition score_job :: "bool \<Rightarrow> u64 \<times> i32 \<Rightarrow> (runtime, i32) job" where
  "score_job checked = (\<lambda>(pid, d) u. case update_score_async checked pid d \<lparr>out = [], user = u\<rparr> of
      Some (Value r, w) \<Rightarrow> Some (Some r, user w)
    | Some (Panics msg, w) \<Rightarrow> Some (None, user w)
    | None \<Rightarrow> None)"

type_synonym request = "nat \<times> u64 \<times> i32"

text \<open>The jobs of a list of requests, in a build without or with overflow checks.\<close>

definition jobs_of :: "bool \<Rightarrow> request list \<Rightarrow> (nat \<times> (runtime, i32) job) list" where
  "jobs_of checked reqs = map (\<lambda>(t, q). (t, score_job checked q)) reqs"

definition score_of :: "u64 \<Rightarrow> runtime \<Rightarrow> i32" where
  "score_of pid u = pr_score (entry_or_insert pid (players u))"

definition gained :: "u64 \<Rightarrow> request list \<Rightarrow> i32" where
  "gained pid reqs = sum_list (map (\<lambda>(t, p, d). if p = pid then d else 0) reqs)"

lemma gained_simps [simp]:
  "gained pid [] = 0" "gained pid ((t, p, d) # reqs) = (if p = pid then d else 0) + gained pid reqs"
  "gained pid (xs @ ys) = gained pid xs + gained pid ys"
  by (simp_all add: gained_def)

lemma jobs_of_simps [simp]:
  "jobs_of c [] = []" "jobs_of c ((t, q) # reqs) = (t, score_job c q) # jobs_of c reqs" "length (jobs_of c reqs) = length reqs"
  "take n (jobs_of c reqs) = jobs_of c (take n reqs)" "map fst (jobs_of c reqs) = map fst reqs"
  by (auto simp: jobs_of_def take_map)

lemma jobs_of_nth: "k < length reqs \<Longrightarrow> jobs_of c reqs ! k = (fst (reqs ! k), score_job c (snd (reqs ! k)))"
  by (simp add: jobs_of_def case_prod_beta)

text \<open>No sum leaves the range of \<^verbatim>\<open>i32\<close> when the requests are served in this order.\<close>

definition fits :: "runtime \<Rightarrow> request list \<Rightarrow> bool" where
  "fits u reqs \<longleftrightarrow> (\<forall>k < length reqs. case reqs ! k of (t, pid, d) \<Rightarrow>
     \<not> add_overflows (score_of pid u + gained pid (take k reqs)) d)"

lemma score_job_run:
  assumes "\<not> poisoned u" and "\<not> (checked \<and> add_overflows (score_of pid u) d)"
  shows "score_job checked (pid, d) u = Some (Some (score_of pid u + d), u\<lparr>players := (players u)(pid \<mapsto> scored pid d (players u))\<rparr>)"
proof -
  obtain ls where "update_score_async checked pid d \<lparr>out = [], user = u\<rparr> = Some (Value (pr_score (scored pid d (players u))),
      println ls \<lparr>out = [], user = u\<rparr>\<lparr>user := u\<lparr>players := (players u)(pid \<mapsto> scored pid d (players u))\<rparr>\<rparr>)"
    using update_value[of "\<lparr>out = [], user = u\<rparr>" checked pid d] assms by (auto simp: score_of_def)
  then show ?thesis by (simp add: score_job_def scored_def score_of_def Let_def)
qed

lemma score_after: "score_of p (u\<lparr>players := (players u)(pid \<mapsto> scored pid d (players u))\<rparr>)
    = (if p = pid then score_of pid u + d else score_of p u)"
  by (simp add: score_of_def scored_def entry_or_insert_def Let_def)

section \<open>The sequential run\<close>

lemma fits_Cons:
  "fits u ((t, p, d) # reqs) \<longleftrightarrow> \<not> add_overflows (score_of p u) d
     \<and> fits (u\<lparr>players := (players u)(p \<mapsto> scored p d (players u))\<rparr>) reqs"
proof -
  have "(\<forall>k < Suc n. P k) \<longleftrightarrow> P 0 \<and> (\<forall>k < n. P (Suc k))" for n and P :: "nat \<Rightarrow> bool"
    using less_Suc_eq_0_disj by auto
  then show ?thesis by (simp add: fits_def score_after case_prod_beta add.assoc cong: if_cong) auto
qed

lemma fits_take: "fits u reqs \<Longrightarrow> fits u (take n reqs)"
  by (auto simp: fits_def min_def)

lemma seq_scores:
  "\<not> poisoned u \<Longrightarrow> checked \<longrightarrow> fits u reqs \<Longrightarrow> \<not> poisoned (seq_state u (jobs_of checked reqs))
     \<and> score_of pid (seq_state u (jobs_of checked reqs)) = score_of pid u + gained pid reqs"
proof (induction reqs arbitrary: u)
  case (Cons r reqs)
  obtain t p d where r: "r = (t, p, d)" by (cases r)
  let ?u = "u\<lparr>players := (players u)(p \<mapsto> scored p d (players u))\<rparr>"
  have f: "\<not> (checked \<and> add_overflows (score_of p u) d)" "checked \<longrightarrow> fits ?u reqs"
    using Cons.prems(2) by (auto simp: r fits_Cons)
  show ?case using Cons.IH[of ?u] Cons.prems(1) f(2)
    by (simp add: r after_job.simps score_job_run[OF Cons.prems(1) f(1)] score_after)
qed simp

lemma seq_reply_nth:
  assumes "unique js" and "k < length js"
  shows "seq_reply s js (fst (js ! k)) = job_reply (snd (js ! k)) (seq_state s (take k js))"
  using assms
proof (induction s js arbitrary: k rule: seq_state.induct)
  case (2 s t f js)
  show ?case
  proof (cases k)
    case (Suc j)
    have "fst (js ! j) \<in> tickets js" using 2(3) Suc by (simp add: tickets_def)
    then have "fst (js ! j) \<noteq> t" using 2(2) by auto
    then show ?thesis using 2 Suc by auto
  qed simp
qed simp

section \<open>Properties\<close>

lemma updates_kept:
  assumes "exec_reach u0 e" and "\<not> poisoned u0" and "accepted e = jobs_of checked reqs" and "checked \<longrightarrow> fits u0 reqs"
  shows "\<exists>n \<le> length reqs. tickets (completed e) = fst ` set (take n reqs)
    \<and> (\<forall>pid. score_of pid (shared e) = score_of pid u0 + gained pid (take n reqs))
    \<and> (\<forall>k < n. case reqs ! k of (t, pid, d) \<Rightarrow>
          replies e t = Some (Answer (score_of pid u0 + gained pid (take (Suc k) reqs))))
    \<and> hung e = None \<and> (alive e \<and> queue e = [] \<longrightarrow> n = length reqs)"
proof -
  obtain rest where inv: "unique (accepted e)" "accepted e = completed e @ rest" "alive e \<longrightarrow> rest = unserved e"
      "\<forall>t f. hung e = Some (t, f) \<longrightarrow> alive e \<and> f (shared e) = None"
      "shared e = seq_state u0 (completed e)" "\<forall>t \<in> tickets (completed e). replies e t = seq_reply u0 (completed e) t"
    using fifo.reach_inv[OF assms(1)] by (auto simp: exec_inv_def)
  define n where "n = length (completed e)"
  have n: "n \<le> length reqs" using inv(2) assms(3) by (metis n_def jobs_of_simps(3) length_append le_add1)
  have "completed e = take n (jobs_of checked reqs)" using inv(2) assms(3) by (metis n_def append_eq_conv_conj)
  then have c: "completed e = jobs_of checked (take n reqs)" by simp
  have t: "tickets (completed e) = fst ` set (take n reqs)"
    by (simp add: tickets_def c jobs_of_def image_image case_prod_beta)
  have u: "unique (completed e)" using inv(1,2) by simp
  have seq: "\<not> poisoned (seq_state u0 (jobs_of checked (take k reqs)))
      \<and> score_of pid (seq_state u0 (jobs_of checked (take k reqs))) = score_of pid u0 + gained pid (take k reqs)" for k pid
    using seq_scores[OF assms(2), of checked "take k reqs"] assms(4) fits_take by blast
  have run: "score_job checked (pid, d) (seq_state u0 (jobs_of checked (take k reqs)))
      = Some (Some (score_of pid u0 + gained pid (take k reqs) + d),
          (seq_state u0 (jobs_of checked (take k reqs)))\<lparr>players := (players (seq_state u0 (jobs_of checked (take k reqs))))(pid \<mapsto>
             scored pid d (players (seq_state u0 (jobs_of checked (take k reqs)))))\<rparr>)"
    if "k < length reqs" "reqs ! k = (t, pid, d)" for k t pid d
  proof -
    have "\<not> (checked \<and> add_overflows (score_of pid u0 + gained pid (take k reqs)) d)"
      using assms(4) that by (auto simp: fits_def)
    then show ?thesis using score_job_run[of "seq_state u0 (jobs_of checked (take k reqs))" checked pid d] seq[of k pid] by simp
  qed
  have rep: "case reqs ! k of (t, pid, d) \<Rightarrow> replies e t = Some (Answer (score_of pid u0 + gained pid (take (Suc k) reqs)))"
    if "k < n" for k
  proof -
    obtain t pid d where r: "reqs ! k = (t, pid, d)" by (cases "reqs ! k")
    have k: "k < length reqs" using that n by simp
    have j: "completed e ! k = (t, score_job checked (pid, d))" using k that by (simp add: c jobs_of_nth r)
    have len: "k < length (completed e)" using that by (simp add: n_def)
    have "t \<in> tickets (completed e)" using nth_mem[OF len] j by (force simp: tickets_def)
    then have "replies e t = seq_reply u0 (completed e) t" using inv(6) by blast
    also have "\<dots> = job_reply (score_job checked (pid, d)) (seq_state u0 (jobs_of checked (take k reqs)))"
      using seq_reply_nth[OF u len, of u0] that by (simp add: j) (simp add: c min_def)
    finally show ?thesis using k by (simp add: r job_reply.simps run[OF k r] take_Suc_conv_app_nth add.assoc)
  qed
  have sh: "shared e = seq_state u0 (jobs_of checked (take n reqs))" using inv(5) c by simp
  have hung: "hung e = None"
  proof (rule ccontr)
    assume "hung e \<noteq> None"
    then obtain t f where h: "hung e = Some (t, f)" by auto
    then have a: "alive e" "f (shared e) = None" using inv(4) by auto
    then have "jobs_of checked reqs = completed e @ (t, f) # queued (queue e)" using inv(2,3) h assms(3) by (simp add: unserved_def)
    then have "n < length (jobs_of checked reqs)" and "jobs_of checked reqs ! n = (t, f)" by (auto simp: n_def)
    then have "n < length reqs" and "f = score_job checked (snd (reqs ! n))" by (auto simp: jobs_of_nth)
    then show False using a(2) run[of n "fst (reqs ! n)" "fst (snd (reqs ! n))" "snd (snd (reqs ! n))"] by (simp add: sh)
  qed
  have all: "n = length reqs" if "alive e \<and> queue e = []"
  proof -
    have "rest = []" using inv(3) that hung by (simp add: unserved_def)
    then have "completed e = jobs_of checked reqs" using inv(2) assms(3) by simp
    then show ?thesis by (simp add: n_def)
  qed
  have "score_of pid (shared e) = score_of pid u0 + gained pid (take n reqs)" for pid
    using seq by (simp add: sh)
  then show ?thesis using n t rep hung all by blast
qed

text \<open>
  C22. No update is lost. Let the store not be poisoned at the start, and let the jobs be score updates, in a build without overflow
  checks, or in one with them (\<open>checked\<close>) where no sum leaves the range of \<^verbatim>\<open>i32\<close> in the order in which the queue
  accepted the requests (\<open>fits\<close>; what happens otherwise is C24). However callers interleave, some first requests of that order
  are done; the score of every player is its score at the start plus
  the changes of the requests that are done, modulo \<open>2 ^ 32\<close>; each of these callers got the
  score that its request and those before it make; no job hangs; and when the queue is empty and the thread
  lives, all requests are done.
\<close>

theorem no_lost_update:
  assumes "exec_reach u0 e" and "\<not> poisoned u0" and "accepted e = jobs_of checked reqs" and "checked \<longrightarrow> fits u0 reqs"
  shows "\<exists>n \<le> length reqs. tickets (completed e) = fst ` set (take n reqs)
    \<and> (\<forall>pid. score_of pid (shared e) = score_of pid u0 + gained pid (take n reqs))
    \<and> (\<forall>k < n. case reqs ! k of (t, pid, d) \<Rightarrow>
          replies e t = Some (Answer (score_of pid u0 + gained pid (take (Suc k) reqs))))
    \<and> hung e = None \<and> (alive e \<and> queue e = [] \<longrightarrow> n = length reqs)"
  using assms by (rule updates_kept)

text \<open>The test: two callers change the score of player 2002, whose score is 980, by 25 and by -15.\<close>

lemma no_lost_update_witness:
  "\<exists>e. exec_reach bootstrap e \<and> score_of 2002 (shared e) = 990 \<and> replies e 1 = Some (Answer (1005 :: i32)) \<and> replies e 2 = Some (Answer 990)"
proof -
  let ?reqs = "[(1, 2002, 25), (2, 2002, - 15)] :: request list"
  let ?e1 = "send_cmd (AsyncCmd 1 (score_job True (2002, 25))) (exec_new bootstrap)"
  let ?e2 = "send_cmd (AsyncCmd 2 (score_job True (2002, - 15))) ?e1"
  let ?e3 = "the (take_cmd ?e2)"
  let ?e4 = "the (take_cmd ?e3)"
  have np: "\<not> poisoned bootstrap" by (simp add: bootstrap_def)
  have b: "score_of 2002 bootstrap = 980" by (simp add: score_of_def bootstrap_def entry_or_insert_def initial_players_def)
  have f: "fits bootstrap ?reqs" by (simp add: fits_Cons score_after b add_overflows_def) (simp add: fits_def)
  note d = send_cmd_def exec_new_def take_cmd_def run_job_def fresh_def score_job_run np score_after b add_overflows_def
  have "exec_reach bootstrap (exec_new bootstrap)" by (rule reach_init) simp
  then have "exec_reach bootstrap ?e1" by (rule reach_step) (rule submit, simp add: d)
  then have "exec_reach bootstrap ?e2" by (rule reach_step) (rule submit, simp add: d)
  then have "exec_reach bootstrap ?e3" by (rule reach_step) (rule work, simp add: d)
  then have r: "exec_reach bootstrap ?e4" by (rule reach_step) (rule work, simp add: d)
  have "accepted ?e4 = jobs_of True ?reqs" and e: "alive ?e4 \<and> queue ?e4 = []" by (simp_all add: d)
  from no_lost_update[OF r np this(1)] f e
  have s: "score_of 2002 (shared ?e4) = score_of 2002 bootstrap + gained 2002 ?reqs"
    and a: "\<forall>k < 2. case ?reqs ! k of (t, pid, d) \<Rightarrow> replies ?e4 t = Some (Answer (score_of pid bootstrap + gained pid (take (Suc k) ?reqs)))"
    by auto
  from a[rule_format, of 0] a[rule_format, of 1] have "replies ?e4 1 = Some (Answer 1005)" "replies ?e4 2 = Some (Answer 990)"
    by (simp_all add: b)
  moreover have "score_of 2002 (shared ?e4) = 990" using s by (simp add: b)
  ultimately show ?thesis using r by blast
qed

end
