(* ===== verification/Bytes.thy ===== *)
theory Bytes
  imports Prelude
begin

text \<open>
  Machine words as byte sequences, in both byte orders: pointers and lengths stored in the
  inline representation of a string, and the \<^verbatim>\<open>u32\<close> lengths of the wire format.
\<close>

fun le_bytes :: "nat \<Rightarrow> 'a::len word \<Rightarrow> u8 list" where
  "le_bytes 0 w = []"
| "le_bytes (Suc n) w = ucast w # le_bytes n (drop_bit 8 w)"

fun from_le :: "u8 list \<Rightarrow> 'a::len word" where
  "from_le [] = 0"
| "from_le (b # bs) = ucast b OR push_bit 8 (from_le bs)"

definition be_bytes :: "nat \<Rightarrow> 'a::len word \<Rightarrow> u8 list" where
  "be_bytes n w = rev (le_bytes n w)"

definition from_be :: "u8 list \<Rightarrow> 'a::len word" where
  "from_be bs = from_le (rev bs)"

lemma length_le_bytes [simp]: "length (le_bytes n w) = n"
  by (induction n arbitrary: w) simp_all

lemma length_be_bytes [simp]: "length (be_bytes n w) = n"
  by (simp add: be_bytes_def)

lemma from_le_bytes_take: "from_le (le_bytes n w) = take_bit (8 * n) (w :: 'a::len word)"
proof (induction n arbitrary: w)
  case (Suc n)
  show ?case
    by (rule bit_word_eqI) (auto simp: Suc bit_simps)
qed simp

lemma from_le_bytes [simp]:
  assumes "LENGTH('a) \<le> 8 * n"
  shows "from_le (le_bytes n w) = (w :: 'a::len word)"
  using assms by (simp add: from_le_bytes_take take_bit_word_eq_self)

lemma from_be_bytes [simp]:
  assumes "LENGTH('a) \<le> 8 * n"
  shows "from_be (be_bytes n w) = (w :: 'a::len word)"
  using assms by (simp add: from_be_def be_bytes_def)

text \<open>The other direction: bytes that fit a word come back from it.\<close>

lemma from_le_bits: "bit (from_le bs :: 'a::len word) n \<Longrightarrow> n < 8 * length bs"
proof (induction bs arbitrary: n)
  case (Cons b bs)
  from Cons.prems have "bit b n \<or> 8 \<le> n \<and> bit (from_le bs :: 'a word) (n - 8)"
    by (simp only: from_le.simps bit_or_iff bit_push_bit_iff bit_ucast_iff) auto
  then show ?case
  proof
    assume "bit b n"
    then show ?thesis using bit_imp_le_length[of b n] by simp
  next
    assume "8 \<le> n \<and> bit (from_le bs :: 'a word) (n - 8)"
    then show ?thesis using Cons.IH[of "n - 8"] by simp
  qed
qed simp

lemma le_bytes_from_le:
  "8 * length bs \<le> LENGTH('a) \<Longrightarrow> le_bytes (length bs) (from_le bs :: 'a::len word) = bs"
proof (induction bs)
  case (Cons b bs)
  let ?r = "from_le bs :: 'a word"
  have "(ucast (ucast b OR push_bit 8 ?r :: 'a word) :: u8) = b"
    using Cons.prems
    by (intro bit_word_eqI) (simp only: bit_or_iff bit_push_bit_iff bit_ucast_iff, auto dest: bit_imp_le_length)
  moreover have "drop_bit 8 (ucast b OR push_bit 8 ?r :: 'a word) = ?r"
  proof (rule bit_word_eqI)
    fix n assume "n < LENGTH('a)"
    have "\<not> bit b (8 + n)" using bit_imp_le_length[of b "8 + n"] by auto
    moreover have "bit ?r n \<Longrightarrow> 8 + n < LENGTH('a)"
      using from_le_bits[of bs n, where ?'a = 'a] Cons.prems by simp
    ultimately show "bit (drop_bit 8 (ucast b OR push_bit 8 ?r :: 'a word)) n = bit ?r n"
      by (simp only: bit_drop_bit_eq bit_or_iff bit_push_bit_iff bit_ucast_iff comp_def) auto
  qed
  ultimately show ?case using Cons by simp
qed simp

lemma be_bytes_from_be:
  "8 * length bs \<le> LENGTH('a) \<Longrightarrow> be_bytes (length bs) (from_be bs :: 'a::len word) = bs"
  using le_bytes_from_le[of "rev bs", where ?'a = 'a] by (simp add: be_bytes_def from_be_def)

lemma be_bytes_4: "be_bytes 4 (w :: u32) = [ucast (drop_bit 24 w), ucast (drop_bit 16 w), ucast (drop_bit 8 w), ucast w]"
proof -
  have "le_bytes (Suc (Suc (Suc (Suc 0)))) w = [ucast w, ucast (drop_bit 8 w), ucast (drop_bit 16 w), ucast (drop_bit 24 w)]"
    by simp
  then show ?thesis by (simp only: be_bytes_def eval_nat_numeral BitM.simps rev.simps append.simps)
qed

text \<open>The lowest byte carries the lowest bit.\<close>

lemma even_ucast: "even (ucast w :: u8) \<longleftrightarrow> even (w :: 'a::len word)"
  using bit_ucast_iff[of w 0, where ?'a = 8] by (simp add: bit_0)

lemma le_bytes_low: "n > 0 \<Longrightarrow> le_bytes n w ! 0 AND 1 = 0 \<longleftrightarrow> even (w :: 'a::len word)"
  by (cases n) (simp_all add: and_one_eq even_iff_mod_2_eq_zero[symmetric] even_ucast)

end
