(* ===== verification/ConstString.thy ===== *)
theory ConstString
  imports Bytes
begin

text \<open>
  The crate \<^verbatim>\<open>const_string\<close>: an immutable-length string in sixteen bytes, stored inline up
  to fifteen bytes and on the heap beyond, told apart by the lowest bit of the first byte
  (\<^verbatim>\<open>const_string/src/lib.rs\<close>, \<^verbatim>\<open>const_string/src/impls.rs\<close>). The model is the 64-bit
  little-endian layout. The allocator is a parameter; undefined behaviour (reading an
  uninitialised byte, using a dangling pointer, freeing with a wrong layout) is a value of
  the error type, so that its absence can be proved.
\<close>

section \<open>Memory\<close>

text \<open>A byte of a \<^verbatim>\<open>MaybeUninit\<close> array or of fresh heap memory may be uninitialised.\<close>

type_synonym byte_cell = "u8 option"

record block =
  layout_size :: nat
  layout_align :: nat
  cells :: "byte_cell list"

type_synonym heap = "u64 \<Rightarrow> block option"

datatype cs_error = AllocFailed | Undefined

text \<open>The sixteen bytes of the union \<^verbatim>\<open>HeapStackStr\<close>.\<close>

type_synonym heap_stack_str = "byte_cell list"

definition STACK_LEN_MAX :: nat where "STACK_LEN_MAX = 15"

definition PTR_ALIGN :: nat where "PTR_ALIGN = 2"

definition read_cells :: "byte_cell list \<Rightarrow> (cs_error, u8 list) result" where
  "read_cells cs = (if None \<in> set cs then Inl Undefined else Inr (map the cs))"

text \<open>\<^verbatim>\<open>copy_nonoverlapping(src, dst, src.len())\<close> into the cells \<open>dst\<close>.\<close>

definition copy_into :: "u8 list \<Rightarrow> byte_cell list \<Rightarrow> (cs_error, byte_cell list) result" where
  "copy_into src dst = (if length src \<le> length dst
     then Inr (map Some src @ drop (length src) dst) else Inl Undefined)"

section \<open>\<^verbatim>\<open>StackStr\<close>\<close>

definition StackStr_new :: "u8 list \<Rightarrow> (cs_error, heap_stack_str) result" where
  "StackStr_new val =
     (let len = push_bit 1 (of_nat (length val) :: u8) OR 1;
          uninit = replicate STACK_LEN_MAX None
      in bind_result (copy_into val uninit) (\<lambda>s. Inr (Some len # s)))"

text \<open>The field \<^verbatim>\<open>stack.len\<close>, whichever variant the union holds.\<close>

definition tag_byte :: "heap_stack_str \<Rightarrow> (cs_error, u8) result" where
  "tag_byte u = (case u ! 0 of None \<Rightarrow> Inl Undefined | Some b \<Rightarrow> Inr b)"

definition StackStr_len :: "heap_stack_str \<Rightarrow> (cs_error, nat) result" where
  "StackStr_len u = bind_result (tag_byte u) (\<lambda>b. Inr (unat (drop_bit 1 b)))"

definition StackStr_as_str :: "heap_stack_str \<Rightarrow> (cs_error, u8 list) result" where
  "StackStr_as_str u = bind_result (StackStr_len u) (\<lambda>n.
     if n \<le> STACK_LEN_MAX then read_cells (take n (drop 1 u)) else Inl Undefined)"

text \<open>Storing the bytes \<open>val\<close> through the slice returned by \<^verbatim>\<open>as_mut_str\<close>.\<close>

definition StackStr_store :: "heap_stack_str \<Rightarrow> u8 list \<Rightarrow> (cs_error, heap_stack_str) result" where
  "StackStr_store u val = bind_result (StackStr_len u) (\<lambda>n.
     if n \<le> STACK_LEN_MAX \<and> length val = n
     then Inr (take 1 u @ map Some val @ drop (1 + n) u) else Inl Undefined)"

section \<open>\<^verbatim>\<open>HeapStr\<close>\<close>

definition HeapStr_ptr :: "heap_stack_str \<Rightarrow> (cs_error, u64) result" where
  "HeapStr_ptr u = bind_result (read_cells (take 8 u)) (\<lambda>bs. Inr (from_le bs))"

definition HeapStr_len :: "heap_stack_str \<Rightarrow> (cs_error, nat) result" where
  "HeapStr_len u = bind_result (read_cells (take 8 (drop 8 u))) (\<lambda>bs. Inr (unat (from_le bs :: u64)))"

text \<open>
  \<open>alloc h n\<close> is the address the global allocator answers for a block of \<open>n\<close> bytes aligned
  to \<^verbatim>\<open>PTR_ALIGN\<close>, \<open>None\<close> for the null pointer.
\<close>

definition HeapStr_new ::
  "(heap \<Rightarrow> nat \<Rightarrow> u64 option) \<Rightarrow> heap \<Rightarrow> u8 list \<Rightarrow> (cs_error, heap \<times> heap_stack_str) result" where
  "HeapStr_new alloc h val =
     (case alloc h (length val) of
        None \<Rightarrow> Inl AllocFailed
      | Some p \<Rightarrow> bind_result (copy_into val (replicate (length val) None)) (\<lambda>cs.
          Inr (h(p \<mapsto> \<lparr>layout_size = length val, layout_align = PTR_ALIGN, cells = cs\<rparr>),
               map Some (le_bytes 8 p @ le_bytes 8 (of_nat (length val) :: u64)))))"

definition HeapStr_as_str :: "heap \<Rightarrow> heap_stack_str \<Rightarrow> (cs_error, u8 list) result" where
  "HeapStr_as_str h u = bind_result (HeapStr_ptr u) (\<lambda>p. bind_result (HeapStr_len u) (\<lambda>n.
     case h p of
       None \<Rightarrow> Inl Undefined
     | Some b \<Rightarrow> if n \<le> length (cells b) then read_cells (take n (cells b)) else Inl Undefined))"

definition HeapStr_store :: "heap \<Rightarrow> heap_stack_str \<Rightarrow> u8 list \<Rightarrow> (cs_error, heap) result" where
  "HeapStr_store h u val = bind_result (HeapStr_ptr u) (\<lambda>p. bind_result (HeapStr_len u) (\<lambda>n.
     case h p of
       None \<Rightarrow> Inl Undefined
     | Some b \<Rightarrow> if n \<le> length (cells b) \<and> length val = n
         then Inr (h(p \<mapsto> b\<lparr>cells := map Some val @ drop n (cells b)\<rparr>)) else Inl Undefined))"

section \<open>\<^verbatim>\<open>HeapStackStr\<close> and \<^verbatim>\<open>ConstString\<close>\<close>

definition is_stack :: "heap_stack_str \<Rightarrow> (cs_error, bool) result" where
  "is_stack u = bind_result (tag_byte u) (\<lambda>b. Inr (b AND 1 \<noteq> 0))"

definition ConstString_new ::
  "(heap \<Rightarrow> nat \<Rightarrow> u64 option) \<Rightarrow> heap \<Rightarrow> u8 list \<Rightarrow> (cs_error, heap \<times> heap_stack_str) result" where
  "ConstString_new alloc h val =
     (if length val \<le> STACK_LEN_MAX then bind_result (StackStr_new val) (\<lambda>u. Inr (h, u))
      else HeapStr_new alloc h val)"

definition ConstString_len :: "heap_stack_str \<Rightarrow> (cs_error, nat) result" where
  "ConstString_len u = bind_result (is_stack u) (\<lambda>st. if st then StackStr_len u else HeapStr_len u)"

definition as_str :: "heap \<Rightarrow> heap_stack_str \<Rightarrow> (cs_error, u8 list) result" where
  "as_str h u = bind_result (is_stack u) (\<lambda>st. if st then StackStr_as_str u else HeapStr_as_str h u)"

definition store_str ::
  "heap \<Rightarrow> heap_stack_str \<Rightarrow> u8 list \<Rightarrow> (cs_error, heap \<times> heap_stack_str) result" where
  "store_str h u val = bind_result (is_stack u) (\<lambda>st.
     if st then bind_result (StackStr_store u val) (\<lambda>u'. Inr (h, u'))
     else bind_result (HeapStr_store h u val) (\<lambda>h'. Inr (h', u)))"

text \<open>\<^verbatim>\<open>Drop\<close>: the block is returned with the layout it was allocated with, or it is undefined.\<close>

definition drop_str :: "heap \<Rightarrow> heap_stack_str \<Rightarrow> (cs_error, heap) result" where
  "drop_str h u = bind_result (is_stack u) (\<lambda>st.
     if st then Inr h
     else bind_result (HeapStr_ptr u) (\<lambda>p. bind_result (HeapStr_len u) (\<lambda>n.
       case h p of
         None \<Rightarrow> Inl Undefined
       | Some b \<Rightarrow> if layout_size b = n \<and> layout_align b = PTR_ALIGN then Inr (h(p := None))
           else Inl Undefined)))"

definition clone_str ::
  "(heap \<Rightarrow> nat \<Rightarrow> u64 option) \<Rightarrow> heap \<Rightarrow> heap_stack_str \<Rightarrow> (cs_error, heap \<times> heap_stack_str) result" where
  "clone_str alloc h u = bind_result (is_stack u) (\<lambda>st.
     if st then Inr (h, u) else bind_result (HeapStr_as_str h u) (HeapStr_new alloc h))"

definition default_str :: "(heap \<Rightarrow> nat \<Rightarrow> u64 option) \<Rightarrow> heap \<Rightarrow> (cs_error, heap \<times> heap_stack_str) result" where
  "default_str alloc h = ConstString_new alloc h []"

text \<open>\<^verbatim>\<open>Deref\<close>, \<^verbatim>\<open>AsRef\<close> and \<^verbatim>\<open>Borrow\<close> lend the contents, their mutable forms what \<^verbatim>\<open>as_mut_str\<close> lends.\<close>

definition deref_str :: "heap \<Rightarrow> heap_stack_str \<Rightarrow> (cs_error, u8 list) result" where
  "deref_str h u = as_str h u"

definition deref_mut_str ::
  "heap \<Rightarrow> heap_stack_str \<Rightarrow> u8 list \<Rightarrow> (cs_error, heap \<times> heap_stack_str) result" where
  "deref_mut_str h u val = store_str h u val"

text \<open>
  The conversions: \<^verbatim>\<open>From<&str>\<close> and \<^verbatim>\<open>FromStr\<close>, which cannot fail, \<^verbatim>\<open>From<String>\<close>, which copies the bytes of
  the string it consumes, and \<^verbatim>\<open>From<ConstString> for String\<close>, which copies the bytes out and drops
  its argument. \<^verbatim>\<open>Display\<close> hands the contents to the formatter of \<^verbatim>\<open>str\<close>.
\<close>

definition from_str :: "(heap \<Rightarrow> nat \<Rightarrow> u64 option) \<Rightarrow> heap \<Rightarrow> u8 list \<Rightarrow> (cs_error, heap \<times> heap_stack_str) result" where
  "from_str alloc h s = ConstString_new alloc h s"

definition from_string :: "(heap \<Rightarrow> nat \<Rightarrow> u64 option) \<Rightarrow> heap \<Rightarrow> u8 list \<Rightarrow> (cs_error, heap \<times> heap_stack_str) result" where
  "from_string alloc h value = ConstString_new alloc h value"

definition into_string :: "heap \<Rightarrow> heap_stack_str \<Rightarrow> (cs_error, heap \<times> u8 list) result" where
  "into_string h u = bind_result (as_str h u) (\<lambda>bs. bind_result (drop_str h u) (\<lambda>h'. Inr (h', bs)))"

definition display_str :: "(u8 list \<Rightarrow> 'o) \<Rightarrow> heap \<Rightarrow> heap_stack_str \<Rightarrow> (cs_error, 'o) result" where
  "display_str fmt h u = bind_result (as_str h u) (\<lambda>bs. Inr (fmt bs))"

text \<open>\<^verbatim>\<open>PartialEq\<close>, \<^verbatim>\<open>Ord\<close> and \<^verbatim>\<open>Hash\<close> go through \<^verbatim>\<open>as_str\<close>; \<^verbatim>\<open>str\<close> compares bytewise.\<close>

datatype ordering = Less | Equal | Greater

fun cmp_bytes :: "u8 list \<Rightarrow> u8 list \<Rightarrow> ordering" where
  "cmp_bytes [] [] = Equal"
| "cmp_bytes [] (_ # _) = Less"
| "cmp_bytes (_ # _) [] = Greater"
| "cmp_bytes (a # as) (b # bs) = (if a < b then Less else if b < a then Greater else cmp_bytes as bs)"

definition eq_str :: "heap \<Rightarrow> heap_stack_str \<Rightarrow> heap_stack_str \<Rightarrow> (cs_error, bool) result" where
  "eq_str h u v = bind_result (as_str h u) (\<lambda>a. bind_result (as_str h v) (\<lambda>b. Inr (a = b)))"

definition cmp_str :: "heap \<Rightarrow> heap_stack_str \<Rightarrow> heap_stack_str \<Rightarrow> (cs_error, ordering) result" where
  "cmp_str h u v = bind_result (as_str h u) (\<lambda>a. bind_result (as_str h v) (\<lambda>b. Inr (cmp_bytes a b)))"

definition hash_str :: "(u8 list \<Rightarrow> 'h) \<Rightarrow> heap \<Rightarrow> heap_stack_str \<Rightarrow> (cs_error, 'h) result" where
  "hash_str hasher h u = bind_result (as_str h u) (\<lambda>a. Inr (hasher a))"

section \<open>What the bytes mean\<close>

definition stack_repr :: "u8 list \<Rightarrow> heap_stack_str" where
  "stack_repr val = Some (push_bit 1 (of_nat (length val)) OR 1) # map Some val
     @ replicate (STACK_LEN_MAX - length val) None"

definition heap_repr :: "u64 \<Rightarrow> nat \<Rightarrow> heap_stack_str" where
  "heap_repr p n = map Some (le_bytes 8 p @ le_bytes 8 (of_nat n :: u64))"

text \<open>
  The bytes \<open>u\<close> stand for \<open>val\<close>, with heap block \<open>owner\<close> if any. A Rust allocation is
  shorter than \<^verbatim>\<open>isize::MAX\<close>.
\<close>

definition repr :: "heap \<Rightarrow> u64 option \<Rightarrow> heap_stack_str \<Rightarrow> u8 list \<Rightarrow> bool" where
  "repr h owner u val \<longleftrightarrow> (case owner of
     None \<Rightarrow> length val \<le> STACK_LEN_MAX \<and> u = stack_repr val
   | Some p \<Rightarrow> STACK_LEN_MAX < length val \<and> length val < 2 ^ 63 \<and> even p \<and> u = heap_repr p (length val)
       \<and> h p = Some \<lparr>layout_size = length val, layout_align = PTR_ALIGN, cells = map Some val\<rparr>)"

text \<open>What the allocator documents: an aligned block that is not live.\<close>

definition good_alloc :: "(heap \<Rightarrow> nat \<Rightarrow> u64 option) \<Rightarrow> bool" where
  "good_alloc alloc \<longleftrightarrow> (\<forall>h n p. alloc h n = Some p \<longrightarrow> even p \<and> h p = None)"

lemma read_cells_Some [simp]: "read_cells (map Some bs) = Inr bs"
  by (simp add: read_cells_def)

lemma read_cells_replicate [simp]: "read_cells (replicate n (Some b)) = Inr (replicate n b)"
  by (simp add: read_cells_def)

lemma copy_fits [simp]: "length src \<le> n \<Longrightarrow> copy_into src (replicate n None) = Inr (map Some src @ replicate (n - length src) None)"
  by (simp add: copy_into_def)

lemma tag_shift_word: "drop_bit 1 (push_bit 1 w OR 1) = take_bit 7 (w :: u8)"
  by (rule bit_word_eqI)
    (simp only: bit_drop_bit_eq bit_or_iff bit_push_bit_iff bit_take_bit_iff comp_def bit_1_iff, auto)

lemma tag_shift:
  assumes "n \<le> 15"
  shows "unat (drop_bit 1 (push_bit 1 (of_nat n :: u8) OR 1)) = n"
proof -
  have "unat (take_bit 7 (of_nat n :: u8)) = take_bit 7 n"
    by (simp add: unsigned_take_bit_eq unsigned_of_nat)
  then show ?thesis using assms by (simp only: tag_shift_word) (simp add: take_bit_nat_eq_self)
qed

lemma tag_odd: "(push_bit 1 (w :: u8) OR 1) AND 1 = 1"
  by (rule bit_word_eqI) (auto simp: bit_simps)

lemma stack_repr_reads:
  assumes "length val \<le> STACK_LEN_MAX"
  shows "is_stack (stack_repr val) = Inr True" and "StackStr_len (stack_repr val) = Inr (length val)"
    and "StackStr_as_str (stack_repr val) = Inr val"
    and "length v' = length val \<Longrightarrow> StackStr_store (stack_repr val) v' = Inr (stack_repr v')"
proof -
  show 1: "is_stack (stack_repr val) = Inr True"
    by (simp add: is_stack_def tag_byte_def stack_repr_def tag_odd)
  show 2: "StackStr_len (stack_repr val) = Inr (length val)"
    using assms tag_shift[of "length val"] by (simp add: StackStr_len_def tag_byte_def stack_repr_def STACK_LEN_MAX_def)
  show "StackStr_as_str (stack_repr val) = Inr val"
    using assms by (simp add: StackStr_as_str_def 2) (simp add: stack_repr_def)
  show "StackStr_store (stack_repr val) v' = Inr (stack_repr v')" if "length v' = length val"
    using assms that by (simp add: StackStr_store_def 2) (simp add: stack_repr_def)
qed

lemma heap_repr_reads:
  assumes "n < 2 ^ 64"
  shows "even p \<Longrightarrow> is_stack (heap_repr p n) = Inr False" and "HeapStr_ptr (heap_repr p n) = Inr p"
    and "HeapStr_len (heap_repr p n) = Inr n"
proof -
  show "is_stack (heap_repr p n) = Inr False" if "even p"
    using that le_bytes_low[of 8 p] by (simp add: is_stack_def tag_byte_def heap_repr_def nth_append)
  show "HeapStr_ptr (heap_repr p n) = Inr p"
    by (simp add: HeapStr_ptr_def heap_repr_def take_map del: map_append)
  show "HeapStr_len (heap_repr p n) = Inr n"
    using assms by (simp add: HeapStr_len_def heap_repr_def drop_map unsigned_of_nat take_bit_nat_eq_self del: map_append)
qed

section \<open>Operations on represented strings\<close>

lemma repr_as_str:
  assumes "repr h own u val"
  shows "as_str h u = Inr val" and "ConstString_len u = Inr (length val)"
  using assms
  by (auto simp: repr_def as_str_def ConstString_len_def stack_repr_reads heap_repr_reads HeapStr_as_str_def
      split: option.splits)

lemma heap_new_repr:
  assumes al: "good_alloc alloc" and len: "STACK_LEN_MAX < length val" "length val < 2 ^ 63"
  shows "HeapStr_new alloc h val = Inl AllocFailed
    \<or> (\<exists>h' u p. HeapStr_new alloc h val = Inr (h', u) \<and> h p = None
         \<and> h' = h(p \<mapsto> \<lparr>layout_size = length val, layout_align = PTR_ALIGN, cells = map Some val\<rparr>)
         \<and> repr h' (Some p) u val)"
proof (cases "alloc h (length val)")
  case (Some p)
  then have "even p" "h p = None" using al by (auto simp: good_alloc_def)
  then show ?thesis using Some len
    by (auto simp: HeapStr_new_def repr_def heap_repr_def intro!: exI[of _ p])
qed (simp add: HeapStr_new_def)

lemma heap_new_eq: "alloc h (length val) = Some p \<Longrightarrow> HeapStr_new alloc h val
    = Inr (h(p \<mapsto> \<lparr>layout_size = length val, layout_align = PTR_ALIGN, cells = map Some val\<rparr>), heap_repr p (length val))"
  by (simp add: HeapStr_new_def heap_repr_def)

lemma new_repr:
  assumes al: "good_alloc alloc" and len: "length val < 2 ^ 63"
  shows "ConstString_new alloc h val = Inl AllocFailed
    \<or> (\<exists>h' u own. ConstString_new alloc h val = Inr (h', u) \<and> repr h' own u val
         \<and> (case own of None \<Rightarrow> h' = h | Some p \<Rightarrow> h p = None
              \<and> h' = h(p \<mapsto> \<lparr>layout_size = length val, layout_align = PTR_ALIGN, cells = map Some val\<rparr>)))"
proof (cases "length val \<le> STACK_LEN_MAX")
  case True
  then have "ConstString_new alloc h val = Inr (h, stack_repr val)"
    by (simp add: ConstString_new_def StackStr_new_def stack_repr_def Let_def)
  with True show ?thesis by (auto simp: repr_def intro!: exI[of _ None])
next
  case False
  then have "ConstString_new alloc h val = HeapStr_new alloc h val" by (simp add: ConstString_new_def)
  with heap_new_repr[OF al _ len, of h] False show ?thesis by fastforce
qed

lemma drop_repr:
  assumes "repr h own u val"
  shows "drop_str h u = Inr (case own of None \<Rightarrow> h | Some p \<Rightarrow> h(p := None))"
  using assms by (auto simp: repr_def drop_str_def stack_repr_reads heap_repr_reads split: option.splits)

lemma clone_repr:
  assumes r: "repr h own u val" and al: "good_alloc alloc"
  shows "clone_str alloc h u = Inl AllocFailed
    \<or> (\<exists>h' u' own'. clone_str alloc h u = Inr (h', u') \<and> repr h' own' u' val
         \<and> (case own' of None \<Rightarrow> h' = h | Some p \<Rightarrow> h p = None
              \<and> h' = h(p \<mapsto> \<lparr>layout_size = length val, layout_align = PTR_ALIGN, cells = map Some val\<rparr>)))"
proof (cases own)
  case None
  then have "clone_str alloc h u = Inr (h, u)"
    using r by (auto simp: clone_str_def repr_def stack_repr_reads)
  then show ?thesis using r None by (auto intro!: exI[of _ None])
next
  case (Some p)
  then have len: "STACK_LEN_MAX < length val" "length val < 2 ^ 63" using r by (auto simp: repr_def)
  have "clone_str alloc h u = HeapStr_new alloc h val"
    using r Some by (auto simp: clone_str_def repr_def heap_repr_reads HeapStr_as_str_def)
  with heap_new_repr[OF al len, of h] show ?thesis by fastforce
qed

lemma store_repr:
  assumes "repr h own u val" and "length v' = length val"
  shows "\<exists>h' u'. store_str h u v' = Inr (h', u') \<and> repr h' own u' v'
    \<and> (case own of None \<Rightarrow> h' = h
       | Some p \<Rightarrow> h' = h(p \<mapsto> \<lparr>layout_size = length v', layout_align = PTR_ALIGN, cells = map Some v'\<rparr>))"
  using assms
  by (auto simp: repr_def store_str_def stack_repr_reads heap_repr_reads HeapStr_store_def split: option.splits)

section \<open>A program that uses strings\<close>

text \<open>
  The state of a program: the heap and the bytes of its live strings. It creates, clones,
  overwrites and drops them in any order.
\<close>

datatype cs_op = New "u8 list" | Clone nat | Store nat "u8 list" | Drop nat

type_synonym store = "heap \<times> heap_stack_str list"

definition remove_nth :: "nat \<Rightarrow> 'a list \<Rightarrow> 'a list" where
  "remove_nth i xs = take i xs @ drop (Suc i) xs"

fun exec_op :: "(heap \<Rightarrow> nat \<Rightarrow> u64 option) \<Rightarrow> cs_op \<Rightarrow> store \<Rightarrow> (cs_error, store) result" where
  "exec_op alloc (New val) (h, us) = bind_result (ConstString_new alloc h val) (\<lambda>(h', u). Inr (h', us @ [u]))"
| "exec_op alloc (Clone i) (h, us) = bind_result (clone_str alloc h (us ! i)) (\<lambda>(h', u). Inr (h', us @ [u]))"
| "exec_op alloc (Store i val) (h, us) =
     bind_result (store_str h (us ! i) val) (\<lambda>(h', u). Inr (h', us[i := u]))"
| "exec_op alloc (Drop i) (h, us) = bind_result (drop_str h (us ! i)) (\<lambda>h'. Inr (h', remove_nth i us))"

text \<open>The same program on plain byte lists, and the operations it may perform there.\<close>

fun exec_abs :: "cs_op \<Rightarrow> u8 list list \<Rightarrow> u8 list list" where
  "exec_abs (New val) vs = vs @ [val]"
| "exec_abs (Clone i) vs = vs @ [vs ! i]"
| "exec_abs (Store i val) vs = vs[i := val]"
| "exec_abs (Drop i) vs = remove_nth i vs"

fun valid_op :: "cs_op \<Rightarrow> u8 list list \<Rightarrow> bool" where
  "valid_op (New val) vs = (length val < 2 ^ 63)"
| "valid_op (Clone i) vs = (i < length vs)"
| "valid_op (Store i val) vs = (i < length vs \<and> length val = length (vs ! i))"
| "valid_op (Drop i) vs = (i < length vs)"

text \<open>
  Every live string stands for its list, no two share a block, and the heap holds nothing
  else.
\<close>

type_synonym entry = "u64 option \<times> heap_stack_str \<times> u8 list"

definition owned :: "entry list \<Rightarrow> u64 list" where
  "owned es = concat (map (\<lambda>(own, _). case own of None \<Rightarrow> [] | Some p \<Rightarrow> [p]) es)"

definition store_inv :: "store \<Rightarrow> u8 list list \<Rightarrow> entry list \<Rightarrow> bool" where
  "store_inv s vs es \<longleftrightarrow> (case s of (h, us) \<Rightarrow>
     us = map (fst \<circ> snd) es \<and> vs = map (snd \<circ> snd) es
     \<and> (\<forall>(own, u, v) \<in> set es. repr h own u v) \<and> distinct (owned es) \<and> dom h = set (owned es))"

definition store_ok :: "store \<Rightarrow> u8 list list \<Rightarrow> bool" where
  "store_ok s vs \<longleftrightarrow> (\<exists>es. store_inv s vs es)"

lemma owned_append [simp]: "owned (a @ b) = owned a @ owned b"
  and owned_Nil [simp]: "owned [] = []"
  and owned_Cons [simp]: "owned ((own, r) # es) = (case own of None \<Rightarrow> [] | Some p \<Rightarrow> [p]) @ owned es"
  by (simp_all add: owned_def)

lemma owned_member: "(Some p, u, v) \<in> set es \<Longrightarrow> p \<in> set (owned es)"
  by (force simp: owned_def)

lemma repr_frame:
  assumes "repr h own u v" and "own \<noteq> Some p"
  shows "repr (h(p := x)) own u v"
  using assms by (auto simp: repr_def split: option.splits)

lemma reprs_frame:
  assumes "\<forall>(own, u, v) \<in> set es. repr h own u v" and "p \<notin> set (owned es)"
  shows "\<forall>(own, u, v) \<in> set es. repr (h(p := x)) own u v"
  using assms owned_member by (fastforce intro: repr_frame)

text \<open>A new string: no block, or a fresh one.\<close>

lemma store_push:
  assumes "store_inv (h, us) vs es" and r: "repr h' own u v"
    and "case own of None \<Rightarrow> h' = h | Some p \<Rightarrow> h p = None \<and> h' = h(p \<mapsto> b)"
  shows "store_ok (h', us @ [u]) (vs @ [v])"
proof -
  have "store_inv (h', us @ [u]) (vs @ [v]) (es @ [(own, u, v)])"
  proof (cases own)
    case None
    then show ?thesis using assms by (auto simp: store_inv_def)
  next
    case (Some p)
    then have "p \<notin> set (owned es)" using assms by (auto simp: store_inv_def)
    with Some assms show ?thesis
      using reprs_frame[of es h p "Some b"] by (auto simp: store_inv_def)
  qed
  then show ?thesis by (auto simp: store_ok_def)
qed

text \<open>The entry at an index, between the entries before and after it.\<close>

lemma store_split:
  assumes "store_inv (h, us) vs es" and "i < length vs"
  obtains es1 own u v es2 where "es = es1 @ (own, u, v) # es2" and "length es1 = i"
    and "us ! i = u" and "vs ! i = v" and "repr h own u v"
proof -
  have i: "i < length es" using assms by (auto simp: store_inv_def)
  obtain own u v where e: "es ! i = (own, u, v)" by (cases "es ! i") auto
  have "es = take i es @ (own, u, v) # drop (Suc i) es" using id_take_nth_drop[OF i] e by simp
  moreover have "us ! i = u" "vs ! i = v" "repr h own u v"
    using assms i e nth_mem[OF i] by (auto simp: store_inv_def)
  ultimately show thesis using that i by (metis length_take min.absorb4)
qed

lemma store_update:
  assumes S: "store_inv (h, us) vs (es1 @ (own, u, v) # es2)" and r: "repr h' own u' v'"
    and h': "case own of None \<Rightarrow> h' = h | Some p \<Rightarrow> h' = h(p \<mapsto> b)"
  shows "store_inv (h', us[length es1 := u']) (vs[length es1 := v']) (es1 @ (own, u', v') # es2)"
proof (cases own)
  case None
  then show ?thesis using assms by (auto simp: store_inv_def list_update_append)
next
  case (Some p)
  then have "p \<notin> set (owned es1)" "p \<notin> set (owned es2)" using S by (auto simp: store_inv_def)
  then have "\<forall>(own, u, v) \<in> set es1. repr h' own u v" "\<forall>(own, u, v) \<in> set es2. repr h' own u v"
    using S h' Some reprs_frame[of es1 h p "Some b"] reprs_frame[of es2 h p "Some b"] by (auto simp: store_inv_def)
  with Some S r h' show ?thesis by (auto simp: store_inv_def list_update_append)
qed

lemma store_remove:
  assumes S: "store_inv (h, us) vs (es1 @ (own, u, v) # es2)"
  shows "store_inv (case own of None \<Rightarrow> h | Some p \<Rightarrow> h(p := None), remove_nth (length es1) us)
     (remove_nth (length es1) vs) (es1 @ es2)"
proof (cases own)
  case None
  then show ?thesis using S by (auto simp: store_inv_def remove_nth_def)
next
  case (Some p)
  then have "p \<notin> set (owned es1)" "p \<notin> set (owned es2)" using S by (auto simp: store_inv_def)
  then have "\<forall>(own, u, v) \<in> set es1. repr (h(p := None)) own u v"
    "\<forall>(own, u, v) \<in> set es2. repr (h(p := None)) own u v"
    using S reprs_frame[of es1 h p None] reprs_frame[of es2 h p None] by (auto simp: store_inv_def)
  with Some S show ?thesis by (auto simp: store_inv_def remove_nth_def)
qed

lemma exec_op_ok:
  assumes al: "good_alloc alloc" and S: "store_ok s vs" and v: "valid_op op vs"
  shows "exec_op alloc op s = Inl AllocFailed \<or> (\<exists>s'. exec_op alloc op s = Inr s' \<and> store_ok s' (exec_abs op vs))"
proof -
  obtain h us es where s: "s = (h, us)" and I: "store_inv (h, us) vs es"
    using S by (cases s) (auto simp: store_ok_def)
  show ?thesis
  proof (cases op)
    case (New val)
    then show ?thesis using new_repr[OF al, of val h] v s store_push[OF I] by fastforce
  next
    case (Clone i)
    then have i: "i < length vs" using v by simp
    obtain es1 own u w es2 where e: "us ! i = u" "vs ! i = w" "repr h own u w"
      using store_split[OF I i] by metis
    then show ?thesis using Clone clone_repr[OF e(3) al] s store_push[OF I] by fastforce
  next
    case (Store i val)
    then have i: "i < length vs" and len: "length val = length (vs ! i)" using v by simp_all
    obtain es1 own u w es2 where e: "es = es1 @ (own, u, w) # es2" "length es1 = i" "us ! i = u" "vs ! i = w"
      "repr h own u w" using store_split[OF I i] by metis
    obtain h' u' where h': "store_str h u val = Inr (h', u')" "repr h' own u' val"
      "case own of None \<Rightarrow> h' = h | Some p \<Rightarrow> h' = h(p \<mapsto> \<lparr>layout_size = length val,
         layout_align = PTR_ALIGN, cells = map Some val\<rparr>)"
      using store_repr[OF e(5)] len e(4) by metis
    have "store_ok (h', us[i := u']) (vs[i := val])"
      using store_update[OF I[unfolded e(1)] h'(2,3)] e(2) by (auto simp: store_ok_def)
    then show ?thesis using Store s e(3) h'(1) by simp
  next
    case (Drop i)
    then have i: "i < length vs" using v by simp
    obtain es1 own u w es2 where e: "es = es1 @ (own, u, w) # es2" "length es1 = i" "us ! i = u"
      "repr h own u w" using store_split[OF I i] by metis
    have "store_ok (case own of None \<Rightarrow> h | Some p \<Rightarrow> h(p := None), remove_nth i us) (remove_nth i vs)"
      using store_remove[OF I[unfolded e(1)]] e(2) by (auto simp: store_ok_def)
    then show ?thesis using Drop s e(3) drop_repr[OF e(4)] by simp
  qed
qed

fun run_ops :: "(heap \<Rightarrow> nat \<Rightarrow> u64 option) \<Rightarrow> cs_op list \<Rightarrow> store \<Rightarrow> (cs_error, store) result" where
  "run_ops alloc [] s = Inr s"
| "run_ops alloc (op # ops) s = bind_result (exec_op alloc op s) (run_ops alloc ops)"

fun run_abs :: "cs_op list \<Rightarrow> u8 list list \<Rightarrow> u8 list list" where
  "run_abs [] vs = vs"
| "run_abs (op # ops) vs = run_abs ops (exec_abs op vs)"

fun valid_ops :: "cs_op list \<Rightarrow> u8 list list \<Rightarrow> bool" where
  "valid_ops [] vs = True"
| "valid_ops (op # ops) vs = (valid_op op vs \<and> valid_ops ops (exec_abs op vs))"

lemma run_ops_ok:
  assumes "good_alloc alloc" and "store_ok s vs" and "valid_ops ops vs"
  shows "run_ops alloc ops s = Inl AllocFailed \<or> (\<exists>s'. run_ops alloc ops s = Inr s' \<and> store_ok s' (run_abs ops vs))"
  using assms(2,3)
proof (induction ops arbitrary: s vs)
  case (Cons op ops)
  then show ?case using exec_op_ok[OF assms(1) Cons.prems(1), of op] by fastforce
qed auto

lemma store_ok_reads:
  assumes "store_ok (h, us) vs"
  shows "map (as_str h) us = map Inr vs" and "card (dom h) = length (filter (\<lambda>v. STACK_LEN_MAX < length v) vs)"
proof -
  obtain es where I: "store_inv (h, us) vs es" using assms by (auto simp: store_ok_def)
  then show "map (as_str h) us = map Inr vs"
    by (force simp: store_inv_def intro: repr_as_str(1))
  have "length (owned es) = length (filter (\<lambda>v. STACK_LEN_MAX < length v) (map (snd \<circ> snd) es))"
    if "\<forall>(own, u, v) \<in> set es. repr h own u v" for es
    using that by (induction es) (auto simp: repr_def split: option.splits)
  then show "card (dom h) = length (filter (\<lambda>v. STACK_LEN_MAX < length v) vs)"
    using I by (simp add: store_inv_def distinct_card)
qed

section \<open>Order\<close>

lemma cmp_bytes_Equal [simp]: "cmp_bytes a b = Equal \<longleftrightarrow> a = b"
  by (induction a b rule: cmp_bytes.induct) auto

text \<open>The order of Rust's \<^verbatim>\<open>str\<close>: a proper prefix is smaller, else the first byte that differs decides.\<close>

definition byte_less :: "u8 list \<Rightarrow> u8 list \<Rightarrow> bool" where
  "byte_less a b \<longleftrightarrow> (\<exists>k \<le> length a. k < length b \<and> take k a = take k b \<and> (k < length a \<longrightarrow> a ! k < b ! k))"

lemma byte_less_Nil [simp]: "byte_less [] b \<longleftrightarrow> b \<noteq> []" "\<not> byte_less (x # a) []"
  by (auto simp: byte_less_def)

lemma byte_less_Cons [simp]: "byte_less (x # a) (y # b) \<longleftrightarrow> x < y \<or> x = y \<and> byte_less a b"
proof
  assume "byte_less (x # a) (y # b)"
  then obtain k where k: "k \<le> length (x # a)" "k < length (y # b)" "take k (x # a) = take k (y # b)"
      "k < length (x # a) \<longrightarrow> (x # a) ! k < (y # b) ! k" unfolding byte_less_def by blast
  then show "x < y \<or> x = y \<and> byte_less a b" by (cases k) (auto simp: byte_less_def)
next
  assume "x < y \<or> x = y \<and> byte_less a b"
  then show "byte_less (x # a) (y # b)"
  proof
    assume "x < y"
    then show ?thesis unfolding byte_less_def by (intro exI[of _ 0]) simp
  next
    assume "x = y \<and> byte_less a b"
    then obtain k where "x = y" "k \<le> length a" "k < length b" "take k a = take k b" "k < length a \<longrightarrow> a ! k < b ! k"
      unfolding byte_less_def by blast
    then show ?thesis unfolding byte_less_def by (intro exI[of _ "Suc k"]) simp
  qed
qed

lemma cmp_bytes_less: "cmp_bytes a b = Less \<longleftrightarrow> byte_less a b" "cmp_bytes a b = Greater \<longleftrightarrow> byte_less b a"
  by (induction a b rule: cmp_bytes.induct) (auto simp: neq_iff)

section \<open>Properties\<close>

text \<open>An allocator with two addresses, for the concrete runs below.\<close>

definition two_blocks :: "heap \<Rightarrow> nat \<Rightarrow> u64 option" where
  "two_blocks h n = (if h 2 = None then Some 2 else if h 4 = None then Some 4 else None)"

lemma two_blocks_good: "good_alloc two_blocks"
  by (simp add: good_alloc_def two_blocks_def)

text \<open>
  C12. Refinement. Any program that creates, clones, overwrites and drops strings, with any
  allocator that hands out aligned blocks that are not live, either stops because an
  allocation failed or behaves like the same program on plain byte lists: no uninitialised
  byte is read, no dangling pointer used, no block freed twice or with a wrong layout, and
  the heap holds exactly one block per live string longer than fifteen bytes.
\<close>

theorem const_string_refines:
  assumes "good_alloc alloc" and "valid_ops ops []"
  shows "run_ops alloc ops (Map.empty, []) = Inl AllocFailed
    \<or> (\<exists>h us. run_ops alloc ops (Map.empty, []) = Inr (h, us)
         \<and> map (as_str h) us = map Inr (run_abs ops [])
         \<and> card (dom h) = length (filter (\<lambda>v. 15 < length v) (run_abs ops [])))"
proof -
  have "store_ok (Map.empty, []) []" by (auto simp: store_ok_def store_inv_def intro!: exI[of _ "[]"])
  from run_ops_ok[OF assms(1) this assms(2)] show ?thesis
    using store_ok_reads by (force simp: STACK_LEN_MAX_def)
qed

lemma const_string_refines_witness:
  "\<exists>h us. run_ops two_blocks [New (replicate 16 65), New [66], Clone 0, Drop 0, Store 1 (replicate 16 67)]
       (Map.empty, []) = Inr (h, us)
     \<and> map (as_str h) us = [Inr [66], Inr (replicate 16 67)] \<and> card (dom h) = 1"
proof -
  let ?ops = "[New (replicate 16 65), New [66], Clone 0, Drop 0, Store 1 (replicate 16 67)] :: cs_op list"
  have v: "valid_ops ?ops []" by (simp add: remove_nth_def)
  have ne: "run_ops two_blocks ?ops (Map.empty, []) \<noteq> Inl AllocFailed"
    by (simp add: ConstString_new_def heap_new_eq StackStr_new_def two_blocks_def STACK_LEN_MAX_def
        clone_str_def drop_str_def store_str_def heap_repr_reads HeapStr_as_str_def HeapStr_store_def
        remove_nth_def Let_def)
  show ?thesis using const_string_refines[OF two_blocks_good v] ne by (simp add: remove_nth_def)
qed

text \<open>
  C13. Round trip. A string made by \<^verbatim>\<open>new\<close> reads back byte for byte and has its length; it
  is stored inline exactly when it has at most fifteen bytes; dropping it restores the heap, and
  so does converting it back to a \<^verbatim>\<open>String\<close>, which gives the bytes it was made from.
\<close>

theorem const_string_roundtrip:
  assumes "good_alloc alloc" and "length val < 2 ^ 63" and "ConstString_new alloc h val = Inr (h', u)"
  shows "as_str h' u = Inr val \<and> ConstString_len u = Inr (length val)
    \<and> is_stack u = Inr (length val \<le> 15) \<and> drop_str h' u = Inr h \<and> into_string h' u = Inr (h, val)"
proof -
  from new_repr[OF assms(1,2), of h] assms(3) obtain own where r: "repr h' own u val"
    and o: "case own of None \<Rightarrow> h' = h | Some p \<Rightarrow> h p = None
      \<and> h' = h(p \<mapsto> \<lparr>layout_size = length val, layout_align = PTR_ALIGN, cells = map Some val\<rparr>)"
    by auto
  have "is_stack u = Inr (length val \<le> 15)"
    using r by (auto simp: repr_def stack_repr_reads heap_repr_reads STACK_LEN_MAX_def split: option.splits)
  moreover have "drop_str h' u = Inr h"
    using drop_repr[OF r] o by (auto split: option.splits)
  ultimately show ?thesis using repr_as_str[OF r] by (simp add: into_string_def)
qed

lemma const_string_roundtrip_witness:
  "as_str Map.empty (stack_repr [72, 105]) = Inr [72, 105] \<and> is_stack (stack_repr [72, 105]) = Inr True"
proof -
  have "ConstString_new two_blocks Map.empty [72, 105] = Inr (Map.empty, stack_repr [72, 105])"
    by (simp add: ConstString_new_def StackStr_new_def stack_repr_def STACK_LEN_MAX_def Let_def)
  from const_string_roundtrip[OF two_blocks_good _ this] show ?thesis by simp
qed

text \<open>
  C14. Equality, order and hash depend on the contents only. After any program that creates, clones,
  overwrites and drops strings, with any of them stored inline or in blocks of their own, \<^verbatim>\<open>eq\<close>
  of two live strings answers whether the same program on plain byte lists leaves equal lists there, \<^verbatim>\<open>cmp\<close>
  is the order of those lists by the first byte that differs (a proper prefix is smaller), and \<^verbatim>\<open>hash\<close> is the
  hasher applied to the list; none of them meets an uninitialised byte or a dangling pointer.
\<close>

theorem const_string_order:
  assumes "good_alloc alloc" and "valid_ops ops []" and "run_ops alloc ops (Map.empty, []) = Inr (h, us)"
    and "i < length us" and "j < length us"
  shows "\<exists>a b c. run_abs ops [] ! i = a \<and> run_abs ops [] ! j = b \<and> length us = length (run_abs ops [])
    \<and> eq_str h (us ! i) (us ! j) = Inr (a = b)
    \<and> cmp_str h (us ! i) (us ! j) = Inr c
    \<and> (c = Less \<longleftrightarrow> byte_less a b) \<and> (c = Equal \<longleftrightarrow> a = b) \<and> (c = Greater \<longleftrightarrow> byte_less b a)
    \<and> hash_str hasher h (us ! i) = Inr (hasher a)"
proof -
  have "store_ok (Map.empty, []) []" by (auto simp: store_ok_def store_inv_def intro!: exI[of _ "[]"])
  from run_ops_ok[OF assms(1) this assms(2)] have "store_ok (h, us) (run_abs ops [])" by (simp add: assms(3))
  then have m: "map (as_str h) us = map Inr (run_abs ops [])" by (rule store_ok_reads(1))
  then have l: "length us = length (run_abs ops [])" by (rule map_eq_imp_length_eq)
  have r: "as_str h (us ! k) = Inr (run_abs ops [] ! k)" if "k < length us" for k
    using arg_cong[OF m, of "\<lambda>xs. xs ! k"] that l by simp
  show ?thesis
    using l by (simp add: eq_str_def cmp_str_def hash_str_def r[OF assms(4)] r[OF assms(5)] cmp_bytes_less)
qed

text \<open>A short string, a long one and its clone in a block of its own.\<close>

lemma const_string_order_witness:
  "\<exists>h us. run_ops two_blocks [New [97], New (replicate 16 97), Clone 1] (Map.empty, []) = Inr (h, us)
     \<and> us ! 1 \<noteq> us ! 2 \<and> eq_str h (us ! 1) (us ! 2) = Inr True \<and> cmp_str h (us ! 0) (us ! 1) = Inr Less"
proof -
  let ?ops = "[New [97], New (replicate 16 97), Clone 1] :: cs_op list"
  have v: "valid_ops ?ops []" by simp
  obtain h where r: "run_ops two_blocks ?ops (Map.empty, []) = Inr (h, [stack_repr [97], heap_repr 2 16, heap_repr 4 16])"
    by (simp add: ConstString_new_def heap_new_eq StackStr_new_def two_blocks_def STACK_LEN_MAX_def
        clone_str_def heap_repr_reads HeapStr_as_str_def stack_repr_def Let_def)
  let ?us = "[stack_repr [97], heap_repr 2 16, heap_repr 4 16]"
  have n: "?us ! 1 \<noteq> ?us ! 2" by code_simp
  from const_string_order[OF two_blocks_good v r, of 1 2 length]
  have "eq_str h (?us ! 1) (?us ! 2) = Inr True" by simp
  moreover have "cmp_str h (?us ! 0) (?us ! 1) = Inr Less"
  proof -
    from const_string_order[OF two_blocks_good v r, of 0 1 length]
    obtain c where "cmp_str h (?us ! 0) (?us ! 1) = Inr c" "c = Less \<longleftrightarrow> byte_less [97] (replicate 16 97)" by auto
    then show ?thesis by (simp add: numeral_eq_Suc)
  qed
  ultimately show ?thesis using r n by blast
qed

end
