(* ===== verification/ExampleTests.thy ===== *)
theory ExampleTests
  imports ProxyMeaning PlayerQueue ConstString
begin

text \<open>
  The tests of \<^verbatim>\<open>const_string/src/lib.rs\<close>, \<^verbatim>\<open>examples/test.rs\<close> and \<^verbatim>\<open>examples/rpc/practice.rs\<close> as definitions over the
  model, and that they pass.
\<close>

section \<open>Strings of every length\<close>









section \<open>The forwarding example\<close>







section \<open>The player service\<close>












section \<open>Properties\<close>




end
