(* ===== verification/RpcNet.thy ===== *)
theory RpcNet
  imports Bytes
begin

text \<open>
  The RPC example's messages and wire format (\<^verbatim>\<open>examples/rpc/message.rs\<close>, \<^verbatim>\<open>error.rs\<close>,
  \<^verbatim>\<open>send_mesage\<close> and \<^verbatim>\<open>recv_message\<close> of \<^verbatim>\<open>net/async_impl.rs\<close>) and the server's handling of a
  connection (\<^verbatim>\<open>net.rs\<close>). The text of an I/O error is a parameter \<open>io\<close>, as \<^verbatim>\<open>tokio\<close> words it.
\<close>

section \<open>Errors and messages\<close>

datatype error = Error string

definition error_new :: "string \<Rightarrow> error" where
  "error_new message = Error message"

text \<open>\<^verbatim>\<open>From<TryFromIntError>\<close>: the text of the standard library.\<close>

definition int_error :: error where
  "int_error = error_new ''out of range integral type conversion attempted''"

datatype message_type = ClientRequest | ClientResponse | ServerPush | HeartbeatRequest
  | HeartbeatResponse | RpcRequest | RpcResponse

text \<open>\<^verbatim>\<open>message_type as u8\<close>, the position of the variant.\<close>

fun mt_code :: "message_type \<Rightarrow> u8" where
  "mt_code ClientRequest = 0"
| "mt_code ClientResponse = 1"
| "mt_code ServerPush = 2"
| "mt_code HeartbeatRequest = 3"
| "mt_code HeartbeatResponse = 4"
| "mt_code RpcRequest = 5"
| "mt_code RpcResponse = 6"

definition mt_try_from :: "u8 \<Rightarrow> (error, message_type) result" where
  "mt_try_from value =
     (if value = 0 then Inr ClientRequest
      else if value = 1 then Inr ClientResponse
      else if value = 2 then Inr ServerPush
      else if value = 3 then Inr HeartbeatRequest
      else if value = 4 then Inr HeartbeatResponse
      else if value = 5 then Inr RpcRequest
      else if value = 6 then Inr RpcResponse
      else Inl (error_new (''bad message type '' @ dec (unat value) @ '' found'')))"

record message =
  m_id :: u32
  m_type :: message_type
  m_bytes :: "u8 list"

text \<open>\<^verbatim>\<open>get_mid\<close>: \<^verbatim>\<open>fetch_add\<close> returns the old counter and wraps.\<close>

definition mid_start :: u32 where "mid_start = 1"

definition get_mid :: "u32 \<Rightarrow> u32 \<times> u32" where
  "get_mid counter = (counter, counter + 1)"

fun take_mids :: "nat \<Rightarrow> u32 \<Rightarrow> u32 list" where
  "take_mids 0 counter = []"
| "take_mids (Suc n) counter = (case get_mid counter of (i, counter') \<Rightarrow> i # take_mids n counter')"

section \<open>Writing and reading\<close>

text \<open>
  A writing half: the bytes the peer will see, and how many missing it takes before the connection
  fails (\<open>None\<close>: it does not fail).
\<close>

record writer =
  written :: "u8 list"
  room :: "nat option"

definition write_all :: "string \<Rightarrow> u8 list \<Rightarrow> writer \<Rightarrow> (error, unit) result \<times> writer" where
  "write_all io bs w = (case room w of
      None \<Rightarrow> (Inr (), w\<lparr>written := written w @ bs\<rparr>)
    | Some n \<Rightarrow> if length bs \<le> n then (Inr (), w\<lparr>written := written w @ bs, room := Some (n - length bs)\<rparr>)
        else (Inl (error_new io), w\<lparr>written := written w @ take n bs, room := Some 0\<rparr>))"

definition write_then ::
  "(error, unit) result \<times> writer \<Rightarrow> (writer \<Rightarrow> (error, unit) result \<times> writer) \<Rightarrow> (error, unit) result \<times> writer" where
  "write_then r k = (case r of (Inl e, w) \<Rightarrow> (Inl e, w) | (Inr _, w) \<Rightarrow> k w)"

text \<open>
  \<^verbatim>\<open>send_mesage\<close>. The length is converted when its turn comes, after the id and the type have
  been written.
\<close>

definition send_message :: "string \<Rightarrow> message \<Rightarrow> writer \<Rightarrow> (error, unit) result \<times> writer" where
  "send_message io m w =
     write_then (write_all io (be_bytes 4 (m_id m)) w) (\<lambda>w.
     write_then (write_all io [mt_code (m_type m)] w) (\<lambda>w.
     if length (m_bytes m) < 2 ^ 32
     then write_then (write_all io (be_bytes 4 (of_nat (length (m_bytes m)) :: u32)) w) (\<lambda>w.
          write_all io (m_bytes m) w)
     else (Inl int_error, w)))"

text \<open>The reading half holds the bytes to come; reading past their end fails.\<close>

definition read_exact :: "string \<Rightarrow> nat \<Rightarrow> u8 list \<Rightarrow> (error, u8 list \<times> u8 list) result" where
  "read_exact io n bs = (if n \<le> length bs then Inr (take n bs, drop n bs) else Inl (error_new io))"

definition recv_message :: "string \<Rightarrow> u8 list \<Rightarrow> (error, message \<times> u8 list) result" where
  "recv_message io bs =
     bind_result (read_exact io 4 bs) (\<lambda>(b_id, bs).
     bind_result (read_exact io 1 bs) (\<lambda>(b_type, bs).
     bind_result (mt_try_from (hd b_type)) (\<lambda>mt.
     bind_result (read_exact io 4 bs) (\<lambda>(b_size, bs).
     let size = unat (from_be b_size :: u32) in
     bind_result (read_exact io size bs) (\<lambda>(buffer, bs).
     Inr (\<lparr>m_id = from_be b_id, m_type = mt, m_bytes = buffer\<rparr>, bs))))))"

section \<open>The server\<close>

text \<open>\<^verbatim>\<open>handle_message\<close>.\<close>

definition handle_message :: "message \<Rightarrow> u8 list" where
  "handle_message m = []"

text \<open>The task of one connection: it reads a message, answers it and ends.\<close>

definition serve_connection :: "string \<Rightarrow> u8 list \<Rightarrow> writer \<Rightarrow> (error, unit) result \<times> writer" where
  "serve_connection io input w = (case recv_message io input of
      Inl e \<Rightarrow> (Inl e, w)
    | Inr (m, _) \<Rightarrow> send_message io \<lparr>m_id = m_id m, m_type = RpcResponse, m_bytes = handle_message m\<rparr> w)"

section \<open>Encoding\<close>

definition encode :: "message \<Rightarrow> u8 list" where
  "encode m = be_bytes 4 (m_id m) @ [mt_code (m_type m)]
     @ be_bytes 4 (of_nat (length (m_bytes m)) :: u32) @ m_bytes m"

definition sendable :: "message \<Rightarrow> bool" where
  "sendable m \<longleftrightarrow> length (m_bytes m) < 2 ^ 32"

lemma mt_code_cases [simp]: "mt_try_from (mt_code mt) = Inr mt"
  by (cases mt) (simp_all add: mt_try_from_def)

lemma mt_try_from_Inr: "mt_try_from b = Inr mt \<Longrightarrow> b = mt_code mt"
  by (auto simp: mt_try_from_def split: if_splits)

lemma read_exact_append [simp]: "length xs = n \<Longrightarrow> read_exact io n (xs @ ys) = Inr (xs, ys)"
  by (simp add: read_exact_def)

lemma recv_encode:
  assumes "sendable m"
  shows "recv_message io (encode m @ rest) = Inr (m, rest)"
proof -
  have [simp]: "read_exact io (Suc 0) (mt_code (m_type m) # ys) = Inr ([mt_code (m_type m)], ys)" for ys
    by (simp add: read_exact_def)
  then show ?thesis
    using assms by (simp add: recv_message_def encode_def sendable_def unsigned_of_nat take_bit_nat_eq_self Let_def)
qed

lemma write_all_roomy: "room w = None \<Longrightarrow> write_all io bs w = (Inr (), w\<lparr>written := written w @ bs\<rparr>)"
  by (simp add: write_all_def)

lemma send_message_roomy:
  "room w = None \<Longrightarrow> sendable m \<Longrightarrow> send_message io m w = (Inr (), w\<lparr>written := written w @ encode m\<rparr>)"
  by (simp add: send_message_def write_then_def write_all_roomy encode_def sendable_def)

lemma read_exact_InrD: "read_exact io n bs = Inr (xs, ys) \<Longrightarrow> bs = xs @ ys \<and> length xs = n"
  by (auto simp: read_exact_def split: if_splits)

lemma from_be_back: "length xs = 4 \<Longrightarrow> be_bytes 4 (from_be xs :: u32) = xs"
  using be_bytes_from_be[of xs, where ?'a = 32] by simp

lemma recv_InrD:
  assumes "recv_message io bs = Inr (m, rest)"
  shows "sendable m \<and> bs = encode m @ rest"
proof -
  obtain b_id bs1 where id: "read_exact io 4 bs = Inr (b_id, bs1)"
    using assms by (cases "read_exact io 4 bs") (auto simp: recv_message_def)
  obtain b_type bs2 where ty: "read_exact io 1 bs1 = Inr (b_type, bs2)"
    using assms id by (cases "read_exact io 1 bs1") (auto simp: recv_message_def)
  obtain mt where mt: "mt_try_from (hd b_type) = Inr mt"
    using assms id ty by (cases "mt_try_from (hd b_type)") (auto simp: recv_message_def)
  obtain b_size bs3 where sz: "read_exact io 4 bs2 = Inr (b_size, bs3)"
    using assms id ty mt by (cases "read_exact io 4 bs2") (auto simp: recv_message_def)
  obtain buffer bs4 where buf: "read_exact io (unat (from_be b_size :: u32)) bs3 = Inr (buffer, bs4)"
    using assms id ty mt sz
    by (cases "read_exact io (unat (from_be b_size :: u32)) bs3") (auto simp: recv_message_def)
  have m: "m = \<lparr>m_id = from_be b_id, m_type = mt, m_bytes = buffer\<rparr>" and bs4: "bs4 = rest"
    using assms id ty mt sz buf by (auto simp: recv_message_def)
  note d = id[THEN read_exact_InrD] ty[THEN read_exact_InrD] sz[THEN read_exact_InrD] buf[THEN read_exact_InrD]
  have len: "length (m_bytes m) = unat (from_be b_size :: u32)" using d m by simp
  then have "(of_nat (length (m_bytes m)) :: u32) = from_be b_size" by simp
  then have "be_bytes 4 (of_nat (length (m_bytes m)) :: u32) = b_size" using d by (simp add: from_be_back)
  moreover have "b_type = [mt_code mt]" using mt_try_from_Inr[OF mt] d by (cases b_type) auto
  moreover have "sendable m" using unsigned_less[of "from_be b_size :: u32"] len by (simp add: sendable_def)
  ultimately show ?thesis using d m bs4 by (simp add: encode_def from_be_back)
qed

section \<open>Properties\<close>

text \<open>
  C29. The wire format is exact: receiving yields a message exactly when the input starts with
  the bytes that \<^verbatim>\<open>send_mesage\<close> writes for it, and leaves the rest of the input.
\<close>

theorem codec_exact:
  assumes "room w = None" and "sendable m"
  shows "send_message io m w = (Inr (), w\<lparr>written := written w @ encode m\<rparr>)
    \<and> (recv_message io bs = Inr (m, rest) \<longleftrightarrow> bs = encode m @ rest)"
  using send_message_roomy[OF assms] recv_encode[OF assms(2)] recv_InrD[of io bs m rest] by auto

lemma codec_exact_witness:
  "recv_message ''eof'' [0, 0, 1, 2, 5, 0, 0, 0, 2, 10, 11, 99]
   = Inr (\<lparr>m_id = 258, m_type = RpcRequest, m_bytes = [10, 11]\<rparr>, [99])"
proof -
  let ?m = "\<lparr>m_id = 258, m_type = RpcRequest, m_bytes = [10, 11]\<rparr>"
  have "encode ?m @ [99] = [0, 0, 1, 2, 5, 0, 0, 0, 2, 10, 11, 99]"
    by (simp add: encode_def be_bytes_4)
  moreover have "sendable ?m" by (simp add: sendable_def)
  ultimately show ?thesis
    using codec_exact[of "\<lparr>written = [], room = None\<rparr>" ?m "''eof''" "encode ?m @ [99]" "[99]"] by simp
qed

fun send_all :: "string \<Rightarrow> message list \<Rightarrow> writer \<Rightarrow> (error, unit) result \<times> writer" where
  "send_all io [] w = (Inr (), w)"
| "send_all io (m # ms) w = write_then (send_message io m w) (send_all io ms)"

fun recv_all :: "string \<Rightarrow> nat \<Rightarrow> u8 list \<Rightarrow> (error, message list \<times> u8 list) result" where
  "recv_all io 0 bs = Inr ([], bs)"
| "recv_all io (Suc n) bs = bind_result (recv_message io bs) (\<lambda>(m, bs).
     bind_result (recv_all io n bs) (\<lambda>(ms, bs). Inr (m # ms, bs)))"

lemma send_all_roomy:
  "room w = None \<Longrightarrow> \<forall>m \<in> set ms. sendable m \<Longrightarrow>
   send_all io ms w = (Inr (), w\<lparr>written := written w @ concat (map encode ms)\<rparr>)"
  by (induction ms arbitrary: w) (simp_all add: send_message_roomy write_then_def)

lemma recv_all_encoded:
  "\<forall>m \<in> set ms. sendable m \<Longrightarrow> recv_all io (length ms) (concat (map encode ms) @ rest) = Inr (ms, rest)"
  by (induction ms) (simp_all add: recv_encode)

text \<open>
  Framing. Any sequence of messages sent over a connection is received as the same
  sequence, and nothing is left over.
\<close>

lemma stream_roundtrip:
  assumes "\<forall>m \<in> set ms. sendable m"
  shows "\<exists>bs. send_all io ms \<lparr>written = [], room = None\<rparr> = (Inr (), \<lparr>written = bs, room = None\<rparr>)
    \<and> recv_all io (length ms) bs = Inr (ms, [])"
  using send_all_roomy[OF _ assms, of "\<lparr>written = [], room = None\<rparr>"] recv_all_encoded[OF assms, of io "[]"] by simp

lemma stream_roundtrip_witness:
  "\<exists>bs. recv_all ''eof'' 2 bs = Inr ([\<lparr>m_id = 1, m_type = RpcRequest, m_bytes = [1]\<rparr>,
     \<lparr>m_id = 2, m_type = HeartbeatRequest, m_bytes = []\<rparr>], [])"
proof -
  let ?ms = "[\<lparr>m_id = 1, m_type = RpcRequest, m_bytes = [1]\<rparr>, \<lparr>m_id = 2, m_type = HeartbeatRequest, m_bytes = []\<rparr>]"
  have "\<forall>m \<in> set ?ms. sendable m" and len: "length ?ms = 2" by (simp_all add: sendable_def)
  from stream_roundtrip[OF this(1), of "''eof''"] show ?thesis unfolding len by blast
qed

lemma strict_prefix_fails:
  assumes "sendable m" and "encode m = bs @ missing" and "missing \<noteq> []"
  shows "recv_message io bs = Inl (error_new io)"
proof -
  have enc: "encode m = be_bytes 4 (m_id m) @ [mt_code (m_type m)]
      @ be_bytes 4 (of_nat (length (m_bytes m)) :: u32) @ m_bytes m" by (simp add: encode_def)
  have not_ok: "recv_message io bs \<noteq> Inr (m', rest)" for m' rest
  proof
    assume r: "recv_message io bs = Inr (m', rest)"
    then have "bs = encode m' @ rest" "sendable m'" using recv_InrD by auto
    then have "recv_message io (bs @ missing) = Inr (m', rest @ missing)" by (simp add: recv_encode)
    moreover have "recv_message io (bs @ missing) = Inr (m, [])"
      using recv_encode[OF assms(1), of io "[]"] assms(2) by simp
    ultimately show False using assms(3) by simp
  qed
  have ty: "hd (drop 4 bs) = mt_code (m_type m)" if "4 < length bs"
  proof -
    have "bs ! 4 = encode m ! 4" using that assms(2) by (simp add: nth_append)
    then show ?thesis using that by (simp add: hd_drop_conv_nth enc nth_append)
  qed
  have "\<exists>e. recv_message io bs = Inl e" using not_ok by (cases "recv_message io bs") auto
  then obtain e where e: "recv_message io bs = Inl e" by blast
  have "e = error_new io"
    using e ty unfolding recv_message_def
    by (auto simp: bind_result_def Let_def read_exact_def split: if_splits sum.splits prod.splits)
  then show ?thesis using e by simp
qed

text \<open>
  C30. What is not a whole message is an error, never a message: a connection that closes inside a
  message gives the I/O error, an unknown type byte is reported with its number before the
  length is read, and a body too long for a \<^verbatim>\<open>u32\<close> length fails after exactly five bytes have
  been written.
\<close>

theorem codec_errors:
  assumes "room w = None"
  shows "(sendable m \<and> encode m = bs @ missing \<and> missing \<noteq> [] \<longrightarrow> recv_message io bs = Inl (error_new io))
    \<and> (7 \<le> b \<longrightarrow> recv_message io (be_bytes 4 (i :: u32) @ b # bs)
         = Inl (error_new (''bad message type '' @ dec (unat b) @ '' found'')))
    \<and> (\<not> sendable m \<longrightarrow> send_message io m w
         = (Inl int_error, w\<lparr>written := written w @ be_bytes 4 (m_id m) @ [mt_code (m_type m)]\<rparr>))"
proof (intro conjI impI)
  show "recv_message io bs = Inl (error_new io)" if "sendable m \<and> encode m = bs @ missing \<and> missing \<noteq> []"
    using strict_prefix_fails[of m bs missing] that by blast
  show "recv_message io (be_bytes 4 (i :: u32) @ b # bs) = Inl (error_new (''bad message type '' @ dec (unat b) @ '' found''))"
    if "7 \<le> b"
  proof -
    have "b \<notin> {0, 1, 2, 3, 4, 5, 6}" using that by (auto simp: word_le_nat_alt)
    then have "mt_try_from b = Inl (error_new (''bad message type '' @ dec (unat b) @ '' found''))"
      by (simp add: mt_try_from_def)
    moreover have "read_exact io (Suc 0) (b # bs) = Inr ([b], bs)" by (simp add: read_exact_def)
    ultimately show ?thesis by (simp add: recv_message_def)
  qed
  show "send_message io m w = (Inl int_error, w\<lparr>written := written w @ be_bytes 4 (m_id m) @ [mt_code (m_type m)]\<rparr>)"
    if "\<not> sendable m"
    using assms that by (simp add: send_message_def write_then_def write_all_roomy sendable_def)
qed

lemma codec_errors_witness:
  "recv_message ''eof'' [0, 0, 0, 1, 9, 0] = Inl (error_new ''bad message type 9 found'')"
proof -
  have "dec 9 = ''9''" by (subst dec.simps) (simp add: char_of_def bit_0)
  then show ?thesis
    using codec_errors[of "\<lparr>written = [], room = None\<rparr>" m "[0]" missing "''eof''" 9 1]
    by (simp add: be_bytes_4)
qed

lemma take_mids_nth: "i < n \<Longrightarrow> take_mids n c ! i = c + of_nat i"
  by (induction n arbitrary: c i) (auto simp: get_mid_def nth_Cons' of_nat_diff)

lemma length_take_mids [simp]: "length (take_mids n c) = n"
  by (induction n arbitrary: c) (simp_all add: get_mid_def)

text \<open>
  C31. Message ids count up from 1 and wrap at 32 bits: the first \<open>2 ^ 32\<close> calls of \<^verbatim>\<open>get_mid\<close>
  give different ids, and the next one gives the first id again.
\<close>

theorem mids_distinct:
  "(n \<le> 2 ^ 32 \<longrightarrow> distinct (take_mids n mid_start))
   \<and> (2 ^ 32 < n \<longrightarrow> take_mids n mid_start ! (2 ^ 32) = take_mids n mid_start ! 0)"
proof (intro conjI impI)
  assume n: "n \<le> 2 ^ 32"
  have "i = j" if "i < n" "j < n" "take_mids n mid_start ! i = take_mids n mid_start ! j" for i j
  proof -
    have "(of_nat i :: u32) = of_nat j" using that by (simp add: take_mids_nth)
    then have "unat (of_nat i :: u32) = unat (of_nat j :: u32)" by simp
    then show ?thesis using that(1,2) n by (simp add: unsigned_of_nat take_bit_nat_eq_self)
  qed
  then show "distinct (take_mids n mid_start)" by (auto simp: distinct_conv_nth)
next
  assume "2 ^ 32 < n"
  then show "take_mids n mid_start ! (2 ^ 32) = take_mids n mid_start ! 0"
    by (simp only: take_mids_nth) simp
qed

lemma mids_distinct_witness: "distinct (take_mids 3 mid_start) \<and> take_mids 3 mid_start = [1, 2, 3]"
  using mids_distinct[of 3] by (simp add: numeral_3_eq_3 get_mid_def mid_start_def)

text \<open>
  A connection is answered once: whatever follows the first message, the server's task writes
  one response with that message's id and an empty body, and ends; nothing is written when the
  first message is malformed.
\<close>

lemma server_answers_once:
  assumes "room w = None" and "sendable m"
  shows "serve_connection io (encode m @ rest) w = (Inr (),
      w\<lparr>written := written w @ encode \<lparr>m_id = m_id m, m_type = RpcResponse, m_bytes = []\<rparr>\<rparr>)
    \<and> (recv_message io bs = Inl e \<longrightarrow> serve_connection io bs w = (Inl e, w))"
proof -
  have "sendable \<lparr>m_id = m_id m, m_type = RpcResponse, m_bytes = []\<rparr>" by (simp add: sendable_def)
  then show ?thesis
    using send_message_roomy[OF assms(1)] recv_encode[OF assms(2)]
    by (simp add: serve_connection_def handle_message_def)
qed

lemma server_answers_once_witness:
  "serve_connection ''eof'' (encode \<lparr>m_id = 7, m_type = RpcRequest, m_bytes = [1]\<rparr>
      @ encode \<lparr>m_id = 8, m_type = RpcRequest, m_bytes = [2]\<rparr>) \<lparr>written = [], room = None\<rparr>
   = (Inr (), \<lparr>written = [0, 0, 0, 7, 6, 0, 0, 0, 0], room = None\<rparr>)"
proof -
  have "sendable \<lparr>m_id = 7, m_type = RpcRequest, m_bytes = [1]\<rparr>" by (simp add: sendable_def)
  from server_answers_once[OF _ this, of "\<lparr>written = [], room = None\<rparr>" "''eof''"] show ?thesis
    by (simp add: encode_def be_bytes_4)
qed

end
