(* ===== verification/RpcSession.thy ===== *)
theory RpcSession
  imports RpcNet "HOL-Library.AList"
begin

text \<open>
  The client side of an RPC connection: \<^verbatim>\<open>RpcClient::send\<close> (\<^verbatim>\<open>examples/rpc/net.rs\<close>) and the
  \<^verbatim>\<open>IoSession\<close> task with its two loops (\<^verbatim>\<open>net/async_impl.rs\<close>). Callers queue messages together with
  the sender of a one-shot channel, named by a ticket; \<^verbatim>\<open>run_send\<close> registers the sender under the
  message id, then writes the message; \<^verbatim>\<open>run_recv\<close> answers the sender registered under the id of each
  message it reads. A registered sender that is dropped gives its caller \<^verbatim>\<open>None\<close>, as the
  one-shot channel guarantees. The map is guarded by a spin lock, so its operations are atomic.
\<close>

section \<open>State\<close>

definition QUEUE_LEN :: nat where "QUEUE_LEN = 1024"

definition send_error :: error where "send_error = error_new ''send error''"

definition remote_error :: error where "remote_error = error_new ''remote error occur''"

text \<open>
  \<open>asked\<close> records the message id of every ticket, \<open>answers\<close> what \<^verbatim>\<open>RpcClient::send\<close> has
  returned, \<open>received\<close> the messages read so far.
\<close>

record session =
  inbox :: "(message \<times> nat) list"
  waiting :: "(u32 \<times> nat) list"
  sending :: "message option"
  running :: bool
  wire :: writer
  incoming :: "u8 list"
  closed :: bool
  asked :: "nat \<Rightarrow> u32 option"
  answers :: "nat \<Rightarrow> (error, u8 list) result option"
  received :: "message list"

definition session_new :: "nat option \<Rightarrow> session" where
  "session_new cap = \<lparr>inbox = [], waiting = [], sending = None, running = True, wire = \<lparr>written = [], room = cap\<rparr>,
     incoming = [], closed = False, asked = (\<lambda>_. None), answers = (\<lambda>_. None), received = []\<rparr>"

section \<open>Operations\<close>

text \<open>Dropping the senders of some callers.\<close>

definition lose :: "nat list \<Rightarrow> (nat \<Rightarrow> (error, u8 list) result option) \<Rightarrow> nat \<Rightarrow> (error, u8 list) result option" where
  "lose ts a t = (if t \<in> set ts then Some (Inl remote_error) else a t)"

text \<open>The task ends: \<^verbatim>\<open>try_join!\<close> drops the other loop, the queue and the map.\<close>

definition end_session :: "'z session_scheme \<Rightarrow> 'z session_scheme" where
  "end_session s = s\<lparr>running := False, inbox := [], waiting := [], sending := None,
     answers := lose (map snd (inbox s) @ map snd (waiting s)) (answers s)\<rparr>"

text \<open>A caller's message and sender are accepted into the queue, or refused.\<close>

definition enqueue :: "message \<Rightarrow> nat \<Rightarrow> 'z session_scheme \<Rightarrow> 'z session_scheme" where
  "enqueue m t s = s\<lparr>asked := (asked s)(t \<mapsto> m_id m), inbox := inbox s @ [(m, t)]\<rparr>"

definition refuse :: "message \<Rightarrow> nat \<Rightarrow> 'z session_scheme \<Rightarrow> 'z session_scheme" where
  "refuse m t s = s\<lparr>asked := (asked s)(t \<mapsto> m_id m), answers := (answers s)(t \<mapsto> Inl send_error)\<rparr>"

text \<open>\<^verbatim>\<open>RpcClient::send\<close> up to its await; it waits (is not enabled) while the queue is full.\<close>

definition client_send :: "message \<Rightarrow> nat \<Rightarrow> session \<Rightarrow> session option" where
  "client_send m t s =
     (if \<not> running s then Some (refuse m t s)
      else if length (inbox s) < QUEUE_LEN then Some (enqueue m t s)
      else None)"

text \<open>
  One turn of \<^verbatim>\<open>run_send\<close>, in two steps, since the other loop may run while the message is being
  written. \<^verbatim>\<open>insert\<close> drops the sender that was registered under the same id.
\<close>

definition register :: "u32 \<Rightarrow> nat \<Rightarrow> 'z session_scheme \<Rightarrow> 'z session_scheme" where
  "register i t s = s\<lparr>waiting := AList.update i t (waiting s),
     answers := lose (case map_of (waiting s) i of None \<Rightarrow> [] | Some u \<Rightarrow> [u]) (answers s)\<rparr>"

definition unregister :: "u32 \<Rightarrow> 'z session_scheme \<Rightarrow> 'z session_scheme" where
  "unregister i s = s\<lparr>waiting := AList.delete i (waiting s),
     answers := lose (case map_of (waiting s) i of None \<Rightarrow> [] | Some u \<Rightarrow> [u]) (answers s)\<rparr>"

definition run_send_take :: "session \<Rightarrow> session option" where
  "run_send_take s = (if \<not> running s \<or> sending s \<noteq> None then None else case inbox s of
      [] \<Rightarrow> None
    | (m, t) # q \<Rightarrow> Some (register (m_id m) t (s\<lparr>inbox := q, sending := Some m\<rparr>)))"

definition run_send_write :: "string \<Rightarrow> session \<Rightarrow> session option" where
  "run_send_write io s = (case sending s of
      None \<Rightarrow> None
    | Some m \<Rightarrow> (case send_message io m (wire s) of
        (Inr _, w) \<Rightarrow> Some (s\<lparr>wire := w, sending := None\<rparr>)
      | (Inl e, w) \<Rightarrow> Some (end_session (unregister (m_id m) (s\<lparr>wire := w\<rparr>)))))"

text \<open>
  One turn of \<^verbatim>\<open>run_recv\<close>. It waits for more bytes unless they hold a whole message, the type
  byte is bad, or the peer has closed.
\<close>

definition answer :: "message \<Rightarrow> 'z session_scheme \<Rightarrow> 'z session_scheme" where
  "answer m s = (case map_of (waiting s) (m_id m) of
      None \<Rightarrow> s
    | Some t \<Rightarrow> s\<lparr>waiting := AList.delete (m_id m) (waiting s), answers := (answers s)(t \<mapsto> Inr (m_bytes m))\<rparr>)"

definition bad_type :: "u8 list \<Rightarrow> bool" where
  "bad_type bs \<longleftrightarrow> 5 \<le> length bs \<and> (case mt_try_from (bs ! 4) of Inl _ \<Rightarrow> True | Inr _ \<Rightarrow> False)"

definition run_recv_turn :: "string \<Rightarrow> session \<Rightarrow> session option" where
  "run_recv_turn io s = (if \<not> running s then None else case recv_message io (incoming s) of
      Inr (m, rest) \<Rightarrow> Some (answer m (s\<lparr>incoming := rest, received := received s @ [m]\<rparr>))
    | Inl e \<Rightarrow> if closed s \<or> bad_type (incoming s) then Some (end_session s) else None)"

inductive session_step :: "string \<Rightarrow> session \<Rightarrow> session \<Rightarrow> bool" for io where
  submit: "asked s t = None \<Longrightarrow> client_send m t s = Some s' \<Longrightarrow> session_step io s s'"
| send_take: "run_send_take s = Some s' \<Longrightarrow> session_step io s s'"
| send_write: "run_send_write io s = Some s' \<Longrightarrow> session_step io s s'"
| recv_turn: "run_recv_turn io s = Some s' \<Longrightarrow> session_step io s s'"
| arrive: "\<not> closed s \<Longrightarrow> session_step io s (s\<lparr>incoming := incoming s @ bs\<rparr>)"
| close: "session_step io s (s\<lparr>closed := True\<rparr>)"

abbreviation session_reach :: "string \<Rightarrow> nat option \<Rightarrow> session \<Rightarrow> bool" where
  "session_reach io cap \<equiv> reach (\<lambda>s. s = session_new cap) (session_step io)"

section \<open>Invariant\<close>

text \<open>
  Every caller is in exactly one place: its message is queued, its sender is registered under
  the id of its message, or it has its answer; a good answer is the body of a received message
  with that id; nobody is left when the task has ended.
\<close>

definition pending :: "'z session_scheme \<Rightarrow> nat list" where
  "pending s = map snd (inbox s) @ map snd (waiting s)"

definition session_inv :: "'z session_scheme \<Rightarrow> bool" where
  "session_inv s \<longleftrightarrow> distinct (map fst (waiting s)) \<and> distinct (pending s)
     \<and> (\<forall>(m, t) \<in> set (inbox s). asked s t = Some (m_id m))
     \<and> (\<forall>(i, t) \<in> set (waiting s). asked s t = Some i)
     \<and> (\<forall>t. asked s t \<noteq> None \<longleftrightarrow> t \<in> set (pending s) \<or> answers s t \<noteq> None)
     \<and> (\<forall>t \<in> set (pending s). answers s t = None)
     \<and> (\<not> running s \<longrightarrow> pending s = [])
     \<and> (\<forall>t b. answers s t = Some (Inr b) \<longrightarrow> (\<exists>m \<in> set (received s). asked s t = Some (m_id m) \<and> b = m_bytes m))"

lemma session_invD:
  assumes "session_inv s"
  shows "distinct (map fst (waiting s))" and "distinct (pending s)"
    and "(m, t) \<in> set (inbox s) \<Longrightarrow> asked s t = Some (m_id m)"
    and "(i, t) \<in> set (waiting s) \<Longrightarrow> asked s t = Some i"
    and "asked s t \<noteq> None \<longleftrightarrow> t \<in> set (pending s) \<or> answers s t \<noteq> None"
    and "t \<in> set (pending s) \<Longrightarrow> answers s t = None"
    and "\<not> running s \<Longrightarrow> pending s = []"
    and "answers s t = Some (Inr b) \<Longrightarrow> \<exists>m \<in> set (received s). asked s t = Some (m_id m) \<and> b = m_bytes m"
  using assms by (auto simp: session_inv_def)

lemma lose_simps [simp]:
  "lose [] a = a" "lose ts a t = None \<longleftrightarrow> t \<notin> set ts \<and> a t = None"
  "lose ts a t = Some (Inr b) \<longleftrightarrow> t \<notin> set ts \<and> a t = Some (Inr b)"
  by (auto simp: lose_def fun_eq_iff)

lemma session_inv_end: "session_inv s \<Longrightarrow> session_inv (end_session s)"
  by (auto simp: session_inv_def end_session_def pending_def)

lemma delete_set: "set (AList.delete k al) = {x \<in> set al. fst x \<noteq> k}"
  by (auto simp: AList.delete_eq)

lemma delete_distinct:
  "distinct (map snd al) \<Longrightarrow> distinct (map snd (AList.delete k al))"
  by (simp add: AList.delete_eq distinct_map_filter)

lemma map_of_unique:
  "distinct (map fst al) \<Longrightarrow> map_of al k = Some v \<Longrightarrow> (k, w) \<in> set al \<Longrightarrow> w = v"
  by (metis map_of_eq_Some_iff option.inject)

lemma update_set:
  "distinct (map fst al) \<Longrightarrow> set (AList.update k v al) = insert (k, v) {x \<in> set al. fst x \<noteq> k}"
  by (induction al) (auto simp: image_iff)

lemma update_subset: "set (AList.update k v al) \<subseteq> insert (k, v) (set al)"
  by (induction al) auto

lemma update_distinct:
  "distinct (map snd al) \<Longrightarrow> v \<notin> snd ` set al \<Longrightarrow> distinct (map snd (AList.update k v al))"
proof (induction al)
  case (Cons x al)
  obtain a b where x: "x = (a, b)" by (cases x)
  have "b \<notin> snd ` set (AList.update k v al)" using Cons.prems x update_subset[of k v al] by force
  then show ?case using Cons x by auto
qed simp

lemma in_pending: "t \<in> set (pending s) \<longleftrightarrow> t \<in> snd ` set (inbox s) \<or> t \<in> snd ` set (waiting s)"
  by (auto simp: pending_def)

lemma distinct_pending: "distinct (pending s) \<longleftrightarrow> distinct (map snd (inbox s)) \<and> distinct (map snd (waiting s))
    \<and> snd ` set (inbox s) \<inter> snd ` set (waiting s) = {}"
  by (auto simp: pending_def)

text \<open>Removing the sender registered under an id, with any answer for its caller.\<close>

lemma session_inv_remove:
  assumes inv: "session_inv s" and w: "map_of (waiting s) i = Some t"
    and r: "r = Inl remote_error \<or> (\<exists>m \<in> set (received s). m_id m = i \<and> r = Inr (m_bytes m))"
  shows "session_inv (s\<lparr>waiting := AList.delete i (waiting s), answers := (answers s)(t \<mapsto> r)\<rparr>)"
    (is "session_inv ?s")
proof -
  have t: "(i, t) \<in> set (waiting s)" using w by (rule map_of_SomeD)
  have keys: "distinct (map fst (waiting s))" and vals: "distinct (map snd (waiting s))"
    and apart: "snd ` set (inbox s) \<inter> snd ` set (waiting s) = {}"
    using inv by (auto simp: session_inv_def distinct_pending)
  have val_t: "(j, t) \<in> set (waiting s) \<Longrightarrow> j = i" for j
    using vals t inj_onD[of snd "set (waiting s)" "(j, t)" "(i, t)"] by (auto simp: distinct_map)
  have wt: "(u = t) = (j = i)" if "(j, u) \<in> set (waiting s)" for j u
    using that val_t[of j] map_of_unique[OF keys w, of u] by blast
  have del: "snd ` set (AList.delete i (waiting s)) = snd ` set (waiting s) - {t}"
  proof (intro equalityI subsetI)
    fix u assume "u \<in> snd ` set (AList.delete i (waiting s))"
    then obtain j where "(j, u) \<in> set (waiting s)" "j \<noteq> i" by (auto simp: delete_set)
    then show "u \<in> snd ` set (waiting s) - {t}" using wt by force
  next
    fix u assume "u \<in> snd ` set (waiting s) - {t}"
    then obtain j where "(j, u) \<in> set (waiting s)" "u \<noteq> t" by auto
    then show "u \<in> snd ` set (AList.delete i (waiting s))" using wt[of j u] by (force simp: delete_set)
  qed
  have "t \<notin> snd ` set (inbox s)" using apart t by force
  then have pend: "set (pending ?s) = set (pending s) - {t}" using del by (auto simp: pending_def)
  have d: "distinct (pending ?s)"
    using session_invD(2)[OF inv] del by (auto simp: distinct_pending delete_distinct)
  have asked: "asked s t = Some i" by (rule session_invD(4)[OF inv t])
  have t_pend: "t \<in> set (pending s)" using t by (force simp: pending_def)
  have run: "running s" using t_pend session_invD(7)[OF inv] by force
  have keys': "distinct (map fst (AList.delete i (waiting s)))" using keys by (rule AList.distinct_delete)
  show ?thesis
    unfolding session_inv_def
  proof (intro conjI)
    show "\<forall>u. (asked ?s u \<noteq> None) = (u \<in> set (pending ?s) \<or> answers ?s u \<noteq> None)"
      using session_invD(5)[OF inv] asked unfolding pend by auto
    show "\<forall>u \<in> set (pending ?s). answers ?s u = None"
      using session_invD(6)[OF inv] unfolding pend by auto
    show "\<forall>u b. answers ?s u = Some (Inr b) \<longrightarrow> (\<exists>m \<in> set (received ?s). asked ?s u = Some (m_id m) \<and> b = m_bytes m)"
      using session_invD(8)[OF inv] r asked by auto
    show "\<forall>(j, u) \<in> set (waiting ?s). asked ?s u = Some j"
      using session_invD(4)[OF inv] by (auto simp: delete_set)
    show "\<forall>(m, u) \<in> set (inbox ?s). asked ?s u = Some (m_id m)"
      using session_invD(3)[OF inv] by auto
  qed (use d keys' run in simp_all)
qed

lemma session_inv_answer: "session_inv s \<Longrightarrow> m \<in> set (received s) \<Longrightarrow> session_inv (answer m s)"
  using session_inv_remove[of s "m_id m" _ "Inr (m_bytes m)"]
  by (auto simp: answer_def split: option.split)

lemma session_inv_unregister: "session_inv s \<Longrightarrow> session_inv (unregister i s)"
proof (cases "map_of (waiting s) i")
  case None
  then have "AList.delete i (waiting s) = waiting s"
    by (simp add: map_of_eq_None_iff)
  then show "session_inv s \<Longrightarrow> ?thesis" using None by (simp add: unregister_def)
next
  case (Some t)
  have "lose [t] (answers s) = (answers s)(t \<mapsto> Inl remote_error)" by (auto simp: lose_def)
  then show "session_inv s \<Longrightarrow> ?thesis"
    using session_inv_remove[of s i t] Some by (simp add: unregister_def)
qed

lemma register_unregister:
  "distinct (map fst (waiting s)) \<Longrightarrow> register i t s =
     (unregister i s)\<lparr>waiting := AList.update i t (waiting s)\<rparr>"
  by (simp add: register_def unregister_def)

lemma session_inv_register:
  assumes inv: "session_inv s" and q: "inbox s = (m, t) # q"
  shows "session_inv (register (m_id m) t (s\<lparr>inbox := q\<rparr>))"
proof -
  let ?i = "m_id m"
  have inv': "session_inv (unregister ?i s)" by (rule session_inv_unregister[OF inv])
  define s1 where "s1 = unregister ?i s"
  have s1: "inbox s1 = (m, t) # q" "waiting s1 = AList.delete ?i (waiting s)" using q by (simp_all add: s1_def unregister_def)
  have eq: "register ?i t (s\<lparr>inbox := q\<rparr>) = s1\<lparr>inbox := q, waiting := AList.update ?i t (waiting s)\<rparr>"
    by (simp add: register_def s1_def unregister_def)
  have keys: "distinct (map fst (waiting s))" using inv by (simp add: session_inv_def)
  have set_w: "set (AList.update ?i t (waiting s)) = insert (?i, t) (set (waiting s1))"
    using update_set[OF keys] by (auto simp: s1 delete_set)
  have t: "t \<notin> snd ` set (waiting s)" "t \<notin> snd ` set q" using inv q by (auto simp: session_inv_def distinct_pending)
  have vals: "distinct (map snd (AList.update ?i t (waiting s)))"
    using inv t by (intro update_distinct) (auto simp: session_inv_def distinct_pending)
  have "set (pending (s1\<lparr>inbox := q, waiting := AList.update ?i t (waiting s)\<rparr>)) = set (pending s1)"
    using s1 by (auto simp: in_pending set_w)
  moreover have "distinct (pending (s1\<lparr>inbox := q, waiting := AList.update ?i t (waiting s)\<rparr>))"
    using inv' vals t s1 unfolding s1_def[symmetric] by (auto simp: session_inv_def distinct_pending set_w)
  moreover have "asked s1 t = Some ?i" using inv' s1 unfolding s1_def[symmetric] by (simp add: session_inv_def)
  moreover have "pending s1 \<noteq> []" using s1 by (simp add: pending_def)
  ultimately show ?thesis
    using inv' s1 keys unfolding eq s1_def[symmetric]
    by (auto simp: session_inv_def set_w AList.distinct_update)
qed

lemma fresh_ticket:
  assumes "session_inv s" and "asked s t = None"
  shows "t \<notin> set (pending s)" and "answers s t = None"
    and "(m, t) \<notin> set (inbox s)" and "(j, t) \<notin> set (waiting s)"
proof -
  show t: "t \<notin> set (pending s)" "answers s t = None" using session_invD(5)[OF assms(1), of t] assms(2) by auto
  then show "(m, t) \<notin> set (inbox s)" "(j, t) \<notin> set (waiting s)" by (force simp: pending_def)+
qed

lemma session_inv_enqueue:
  assumes inv: "session_inv s" and fresh: "asked s t = None" and run: "running s"
  shows "session_inv (enqueue m t s)"
proof -
  note t = fresh_ticket[OF inv fresh]
  have p: "set (pending (enqueue m t s)) = insert t (set (pending s))" by (auto simp: enqueue_def pending_def)
  have d: "distinct (pending (enqueue m t s))" using session_invD(2)[OF inv] t(1) by (auto simp: enqueue_def pending_def)
  show ?thesis unfolding session_inv_def p
    using session_invD[OF inv] t d run
    by (intro conjI allI ballI) (auto simp: enqueue_def)
qed

lemma session_inv_refuse:
  assumes inv: "session_inv s" and fresh: "asked s t = None"
  shows "session_inv (refuse m t s)"
proof -
  note t = fresh_ticket[OF inv fresh]
  have p: "pending (refuse m t s) = pending s" by (simp add: refuse_def pending_def)
  show ?thesis unfolding session_inv_def p
    using session_invD[OF inv] t
    by (intro conjI allI ballI) (auto simp: refuse_def)
qed

lemma session_inv_client:
  "session_inv s \<Longrightarrow> asked s t = None \<Longrightarrow> client_send m t s = Some s' \<Longrightarrow> session_inv s'"
  by (auto simp: client_send_def session_inv_enqueue session_inv_refuse split: if_splits)

lemma session_inv_frame:
  "session_inv s \<Longrightarrow> session_inv (s\<lparr>wire := w\<rparr>)" "session_inv s \<Longrightarrow> session_inv (s\<lparr>incoming := bs\<rparr>)"
  "session_inv s \<Longrightarrow> session_inv (s\<lparr>closed := c\<rparr>)" "session_inv s \<Longrightarrow> session_inv (s\<lparr>sending := x\<rparr>)"
  by (simp_all add: session_inv_def pending_def)

lemma session_inv_received: "session_inv s \<Longrightarrow> session_inv (s\<lparr>received := received s @ ms\<rparr>)"
  unfolding session_inv_def pending_def by simp blast

lemma session_inv_step: "session_step io s s' \<Longrightarrow> session_inv s \<Longrightarrow> session_inv s'"
proof (induction rule: session_step.induct)
  case (submit s t m s')
  then show ?case using session_inv_client by blast
next
  case (send_take s s')
  then obtain m t q where q: "inbox s = (m, t) # q" and s': "s' = register (m_id m) t (s\<lparr>inbox := q, sending := Some m\<rparr>)"
    by (auto simp: run_send_take_def split: if_splits list.splits)
  have "s' = (register (m_id m) t (s\<lparr>inbox := q\<rparr>))\<lparr>sending := Some m\<rparr>" by (simp add: s' register_def)
  then show ?case using session_inv_register[OF send_take(2) q] by (simp only: session_inv_frame)
next
  case (send_write s s')
  then obtain m r w where m: "sending s = Some m" "send_message io m (wire s) = (r, w)"
    by (cases "send_message io (the (sending s)) (wire s)") (auto simp: run_send_write_def split: option.splits)
  then have "s' = (case r of Inr _ \<Rightarrow> s\<lparr>wire := w, sending := None\<rparr> | Inl e \<Rightarrow> end_session (unregister (m_id m) (s\<lparr>wire := w\<rparr>)))"
    using send_write(1) by (auto simp: run_send_write_def split: sum.splits)
  moreover have "session_inv (s\<lparr>wire := w\<rparr>)" using send_write(2) by (rule session_inv_frame)
  ultimately show ?case using session_inv_frame(4)[of "s\<lparr>wire := w\<rparr>" None]
    by (auto split: sum.split intro: session_inv_unregister session_inv_end)
next
  case (recv_turn s s')
  show ?case
  proof (cases "recv_message io (incoming s)")
    case (Inl e)
    then show ?thesis using recv_turn session_inv_end by (auto simp: run_recv_turn_def split: if_splits)
  next
    case (Inr x)
    obtain m rest where x: "x = (m, rest)" by (cases x)
    have "session_inv (s\<lparr>incoming := rest, received := received s @ [m]\<rparr>)"
      using session_inv_received[OF session_inv_frame(2)[OF recv_turn(2)], of rest "[m]"] by simp
    from session_inv_answer[OF this, of m] show ?thesis
      using recv_turn(1) Inr x by (auto simp: run_recv_turn_def split: if_splits)
  qed
next
  case (arrive s bs)
  then show ?case by (simp add: session_inv_frame)
next
  case (close s)
  then show ?case by (simp add: session_inv_frame)
qed

lemma session_inv_new: "session_inv (session_new cap)"
  by (simp add: session_inv_def session_new_def pending_def)

interpretation rpc_session: inv_system "\<lambda>s. s = session_new cap" "session_step io" session_inv for cap io
  by unfold_locales (auto simp only: session_inv_new intro: session_inv_step)

section \<open>Properties\<close>

lemma lose_keeps: "a t = Some r \<Longrightarrow> t \<notin> set ts \<Longrightarrow> lose ts a t = Some r"
  by (simp add: lose_def)

lemma waiting_pending: "map_of (waiting s) i = Some t \<Longrightarrow> t \<in> set (pending s)"
  by (force simp: pending_def dest: map_of_SomeD)

lemma answered_not_pending: "session_inv s \<Longrightarrow> answers s t = Some r \<Longrightarrow> t \<notin> set (pending s)"
  using session_invD(6) by fastforce

lemma keeps_end: "session_inv s \<Longrightarrow> answers s t = Some r \<Longrightarrow> answers (end_session s) t = Some r"
  using answered_not_pending[of s t r] by (auto simp: end_session_def pending_def lose_def)

lemma keeps_unregister: "session_inv s \<Longrightarrow> answers s t = Some r \<Longrightarrow> answers (unregister i s) t = Some r"
  using answered_not_pending[of s t r] waiting_pending[of s i]
  by (auto simp: unregister_def lose_def split: option.split)

lemma keeps_answer: "session_inv s \<Longrightarrow> answers s t = Some r \<Longrightarrow> answers (answer m s) t = Some r"
  using answered_not_pending[of s t r] waiting_pending[of s "m_id m"]
  by (auto simp: answer_def split: option.split)

lemma keeps_step:
  assumes "session_step io s s'" and "session_inv s" and "answers s t = Some r"
  shows "answers s' t = Some r"
  using assms
proof (induction rule: session_step.induct)
  case (submit s u m s')
  have "t \<noteq> u" using submit session_invD(5)[of s t] by auto
  then show ?case using submit by (auto simp: client_send_def enqueue_def refuse_def split: if_splits)
next
  case (send_take s s')
  then obtain m u q where q: "inbox s = (m, u) # q" and s': "s' = register (m_id m) u (s\<lparr>inbox := q, sending := Some m\<rparr>)"
    by (auto simp: run_send_take_def split: if_splits list.splits)
  have "answers s' = answers (unregister (m_id m) s)" by (simp add: s' register_def unregister_def)
  then show ?case using keeps_unregister send_take by simp
next
  case (send_write s s')
  then obtain m x w where m: "sending s = Some m" "send_message io m (wire s) = (x, w)"
    by (cases "send_message io (the (sending s)) (wire s)") (auto simp: run_send_write_def split: option.splits)
  have inv: "session_inv (s\<lparr>wire := w\<rparr>)" using send_write(2) by (rule session_inv_frame)
  have "answers (end_session (unregister (m_id m) (s\<lparr>wire := w\<rparr>))) t = Some r"
    by (intro keeps_end session_inv_unregister keeps_unregister inv) (simp add: send_write)
  then show ?case using send_write m by (auto simp: run_send_write_def split: sum.splits)
next
  case (recv_turn s s')
  show ?case
  proof (cases "recv_message io (incoming s)")
    case (Inl e)
    then show ?thesis using recv_turn keeps_end by (auto simp: run_recv_turn_def split: if_splits)
  next
    case (Inr x)
    obtain m rest where x: "x = (m, rest)" by (cases x)
    have "session_inv (s\<lparr>incoming := rest, received := received s @ [m]\<rparr>)"
      using session_inv_received[OF session_inv_frame(2)[OF recv_turn(2)], of rest "[m]"] by simp
    from keeps_answer[OF this, of t r m] show ?thesis
      using recv_turn Inr x by (auto simp: run_recv_turn_def split: if_splits)
  qed
qed auto

text \<open>Registering a sender under an id that is in use drops the caller that waits for it.\<close>

lemma same_id_displaces:
  assumes "running s" and "sending s = None" and "inbox s = (m, t) # q" and "map_of (waiting s) (m_id m) = Some u"
    and "session_inv s"
  shows "\<exists>s'. run_send_take s = Some s' \<and> answers s' u = Some (Inl remote_error)
    \<and> map_of (waiting s') (m_id m) = Some t"
  using assms by (simp add: run_send_take_def register_def lose_def AList.update_conv')

text \<open>
  C33. What a caller of \<^verbatim>\<open>send\<close> gets: in every reachable state of the session, a good answer is the
  body of a message that the peer sent with the id of the caller's request; two callers never
  wait under the same id; and once the session has ended every caller has an answer.
\<close>

theorem session_answers:
  assumes "session_reach io cap s"
  shows "(answers s t = Some (Inr b) \<longrightarrow> (\<exists>m \<in> set (received s). asked s t = Some (m_id m) \<and> m_bytes m = b))
    \<and> distinct (map fst (waiting s)) \<and> distinct (pending s)
    \<and> (\<not> running s \<and> asked s t \<noteq> None \<longrightarrow> answers s t \<noteq> None)"
proof -
  have inv: "session_inv s" using assms by (rule rpc_session.reach_inv)
  show ?thesis
    using session_invD(1,2)[OF inv] session_invD(5)[OF inv, of t] session_invD(7)[OF inv] session_invD(8)[OF inv, of t b] by auto
qed

lemma count_list_distinct: "distinct xs \<Longrightarrow> count_list xs t = (if t \<in> set xs then 1 else 0)"
  by (induction xs) auto

text \<open>
  C34. A caller is in one place. In every reachable state the result sender of a caller that asked and has no answer yet is in the queue of
  requests or among the registered senders, exactly once and in one of the two only; that of a caller that has its answer,
  or never asked, is in neither, so nothing that arrives later can answer it again: whatever the session does next, the
  answer stays the one that was given.
\<close>

theorem session_answer_final:
  assumes "session_reach io cap s"
  shows "count_list (map snd (inbox s)) t + count_list (map snd (waiting s)) t
      = (if asked s t \<noteq> None \<and> answers s t = None then 1 else 0)
    \<and> ((session_step io)\<^sup>*\<^sup>* s s' \<and> answers s t = Some r \<longrightarrow> answers s' t = Some r)"
proof -
  have inv: "session_inv s" using assms by (rule rpc_session.reach_inv)
  have c: "count_list (map snd (inbox s)) t + count_list (map snd (waiting s)) t = (if t \<in> set (pending s) then 1 else 0)"
    using session_invD(2)[OF inv] count_list_distinct[of "pending s" t]
    by (simp add: pending_def)
  have "answers s' t = Some r" if "(session_step io)\<^sup>*\<^sup>* s s'" "answers s t = Some r"
    using that
  proof (induction rule: rtranclp_induct)
    case (step y z)
    then show ?case using keeps_step rpc_session.steps_inv[OF step(1) inv] by blast
  qed
  then show ?thesis using c session_invD(5,6)[OF inv, of t] by auto
qed

text \<open>
  C35. One request on a connection to the server of this program: when the client reads what the
  server's connection task wrote in response to a request \<open>m\<close>, the caller registered under the
  id of \<open>m\<close> gets the (empty) body, and the end of the stream that follows ends the session, so
  every other caller gets the remote error.
\<close>

theorem client_server_exchange:
  assumes "session_reach io cap s" and "running s" and "closed s"
    and "map_of (waiting s) (m_id m) = Some t" and "sendable m"
    and "serve_connection io (encode m @ rest) \<lparr>written = [], room = None\<rparr> = (r, w)" and "incoming s = written w"
  shows "\<exists>s1 s2. run_recv_turn io s = Some s1 \<and> answers s1 t = Some (Inr [])
    \<and> run_recv_turn io s1 = Some s2 \<and> \<not> running s2 \<and> answers s2 t = Some (Inr [])
    \<and> (\<forall>u \<in> set (pending s) - {t}. answers s2 u = Some (Inl remote_error))"
proof -
  let ?a = "\<lparr>m_id = m_id m, m_type = RpcResponse, m_bytes = []\<rparr>"
  have a: "sendable ?a" by (simp add: sendable_def)
  have "serve_connection io (encode m @ rest) \<lparr>written = [], room = None\<rparr> = (Inr (), \<lparr>written = encode ?a, room = None\<rparr>)"
    using recv_encode[OF assms(5), of io rest] a by (simp add: serve_connection_def handle_message_def send_message_roomy)
  then have inc: "incoming s = encode ?a" using assms(6,7) by simp
  have inv: "session_inv s" using assms(1) by (rule rpc_session.reach_inv)
  define s1 where "s1 = s\<lparr>incoming := [], received := received s @ [?a],
    waiting := AList.delete (m_id m) (waiting s), answers := (answers s)(t \<mapsto> Inr [])\<rparr>"
  have t1: "run_recv_turn io s = Some s1"
    using assms(2,4) recv_encode[OF a, of io "[]"] by (simp add: run_recv_turn_def inc answer_def s1_def)
  have "session_step io s s1" using t1 by (rule session_step.recv_turn)
  then have inv1: "session_inv s1" using inv by (rule session_inv_step)
  have t2: "run_recv_turn io s1 = Some (end_session s1)"
    using assms(2,3) by (simp add: run_recv_turn_def s1_def recv_message_def read_exact_def)
  have other: "answers (end_session s1) u = Some (Inl remote_error)" if "u \<in> set (pending s)" "u \<noteq> t" for u
  proof -
    have "u \<in> set (pending s1)" using that session_invD(5)[OF inv, of u] session_invD(5)[OF inv1, of u] session_invD(6)[OF inv, of u]
      by (auto simp: s1_def)
    then show ?thesis by (auto simp: end_session_def pending_def lose_def)
  qed
  show ?thesis using t1 t2 other keeps_end[OF inv1, of t "Inr []"] by (auto simp: s1_def end_session_def)
qed

section \<open>Concrete runs\<close>

text \<open>Two callers have asked, both messages are on the wire.\<close>

definition ex_request :: "u32 \<Rightarrow> message" where
  "ex_request i = \<lparr>m_id = i, m_type = RpcRequest, m_bytes = [7]\<rparr>"

definition ex_waiting :: session where
  "ex_waiting = (session_new None)\<lparr>wire := \<lparr>written = encode (ex_request 1) @ encode (ex_request 2), room = None\<rparr>,
     waiting := [(1, 0), (2, 1)], asked := [0 \<mapsto> 1, 1 \<mapsto> 2]\<rparr>"

lemma ex_sendable: "sendable (ex_request i)"
  by (simp add: sendable_def ex_request_def)

lemma ex_waiting_reach: "session_reach io None ex_waiting"
proof -
  let ?s0 = "session_new None"
  let ?s1 = "?s0\<lparr>asked := [0 \<mapsto> 1], inbox := [(ex_request 1, 0)]\<rparr>"
  let ?s2 = "?s0\<lparr>asked := [0 \<mapsto> 1], sending := Some (ex_request 1), waiting := [(1, 0)]\<rparr>"
  let ?w = "\<lparr>written = encode (ex_request 1), room = None\<rparr>"
  let ?s3 = "?s0\<lparr>asked := [0 \<mapsto> 1], wire := ?w, waiting := [(1, 0)]\<rparr>"
  let ?s4 = "?s0\<lparr>asked := [0 \<mapsto> 1, 1 \<mapsto> 2], wire := ?w, waiting := [(1, 0)], inbox := [(ex_request 2, 1)]\<rparr>"
  let ?s5 = "?s0\<lparr>asked := [0 \<mapsto> 1, 1 \<mapsto> 2], wire := ?w, waiting := [(1, 0), (2, 1)], sending := Some (ex_request 2)\<rparr>"
  have id: "m_id (ex_request i) = i" for i by (simp add: ex_request_def)
  have "session_step io ?s0 ?s1"
    by (rule session_step.submit[of _ 0 "ex_request 1"]) (simp_all add: client_send_def enqueue_def session_new_def QUEUE_LEN_def id)
  moreover have "session_step io ?s1 ?s2"
    by (rule session_step.send_take) (simp add: run_send_take_def register_def session_new_def id)
  moreover have "session_step io ?s2 ?s3"
    by (rule session_step.send_write) (simp add: run_send_write_def send_message_roomy ex_sendable session_new_def)
  moreover have "session_step io ?s3 ?s4"
    by (rule session_step.submit[of _ 1 "ex_request 2"]) (simp_all add: client_send_def enqueue_def session_new_def QUEUE_LEN_def id)
  moreover have "session_step io ?s4 ?s5"
    by (rule session_step.send_take) (simp add: run_send_take_def register_def session_new_def id)
  moreover have "session_step io ?s5 ex_waiting"
    by (rule session_step.send_write)
      (simp add: run_send_write_def send_message_roomy ex_sendable session_new_def ex_waiting_def)
  moreover have "session_reach io None ?s0" by (rule reach_init) simp
  ultimately show ?thesis by (meson reach_step)
qed

lemma ex_arrived_reach: "session_reach io None (ex_waiting\<lparr>incoming := bs, closed := True\<rparr>)"
proof -
  have "session_step io ex_waiting (ex_waiting\<lparr>incoming := incoming ex_waiting @ bs\<rparr>)"
    by (rule session_step.arrive) (simp add: ex_waiting_def session_new_def)
  moreover have "session_step io (ex_waiting\<lparr>incoming := bs\<rparr>) (ex_waiting\<lparr>incoming := bs, closed := True\<rparr>)"
    using session_step.close[of io "ex_waiting\<lparr>incoming := bs\<rparr>"] by simp
  ultimately show ?thesis using ex_waiting_reach by (simp add: ex_waiting_def session_new_def) (meson reach_step)
qed

lemma client_server_exchange_witness:
  "\<exists>s s1 s2. session_reach ''eof'' None s \<and> run_recv_turn ''eof'' s = Some s1 \<and> answers s1 0 = Some (Inr [])
    \<and> run_recv_turn ''eof'' s1 = Some s2 \<and> answers s2 1 = Some (Inl remote_error)"
proof -
  let ?w0 = "\<lparr>written = [], room = None\<rparr>"
  obtain r w where rw: "serve_connection ''eof'' (encode (ex_request 1) @ encode (ex_request 2)) ?w0 = (r, w)"
    by (cases "serve_connection ''eof'' (encode (ex_request 1) @ encode (ex_request 2)) ?w0")
  let ?s = "ex_waiting\<lparr>incoming := written w, closed := True\<rparr>"
  have run: "running ?s" "closed ?s" and inc: "incoming ?s = written w"
    and wait: "map_of (waiting ?s) (m_id (ex_request 1)) = Some 0" and one: "1 \<in> set (pending ?s) - {0}"
    by (simp_all add: ex_waiting_def session_new_def ex_request_def pending_def)
  from client_server_exchange[OF ex_arrived_reach run wait ex_sendable rw inc] one ex_arrived_reach show ?thesis
    by blast
qed

text \<open>The first caller answered, the second still waiting.\<close>

definition ex_answered :: session where
  "ex_answered = ex_waiting\<lparr>closed := True, waiting := [(2, 1)], answers := [0 \<mapsto> Inr [7]], received := [ex_request 1]\<rparr>"

lemma ex_answered_reach: "session_reach io None ex_answered"
proof -
  let ?s = "ex_waiting\<lparr>incoming := encode (ex_request 1), closed := True\<rparr>"
  have "run_recv_turn io ?s = Some ex_answered"
    using recv_encode[OF ex_sendable, of io 1 "[]"]
    by (simp add: run_recv_turn_def answer_def ex_waiting_def session_new_def ex_answered_def)
      (simp add: ex_request_def)
  then have "session_step io ?s ex_answered" by (rule session_step.recv_turn)
  then show ?thesis using ex_arrived_reach by (meson reach_step)
qed

lemma ex_answered_then: "session_step io ex_answered (end_session ex_answered)"
  by (rule session_step.recv_turn)
    (simp add: run_recv_turn_def recv_message_def read_exact_def ex_answered_def ex_waiting_def session_new_def)

lemma session_answers_witness:
  "answers ex_answered 0 = Some (Inr [7]) \<and> (\<exists>m \<in> set (received ex_answered). asked ex_answered 0 = Some (m_id m) \<and> m_bytes m = [7])"
  using session_answers[OF ex_answered_reach, of 0 "[7]"] by (simp add: ex_answered_def)

lemma session_answer_final_witness:
  "answers (end_session ex_answered) 0 = Some (Inr [7])
   \<and> count_list (map snd (inbox ex_answered)) 1 + count_list (map snd (waiting ex_answered)) 1 = 1"
proof
  have "(session_step io)\<^sup>*\<^sup>* ex_answered (end_session ex_answered)" for io :: string
    using ex_answered_then by blast
  then show "answers (end_session ex_answered) 0 = Some (Inr [7])"
    using session_answer_final[OF ex_answered_reach[of "''eof''"], of 0 "end_session ex_answered" "Inr [7]"]
    by (simp add: ex_answered_def)
  have "asked ex_answered 1 \<noteq> None \<and> answers ex_answered 1 = None"
    by (simp add: ex_answered_def ex_waiting_def session_new_def)
  then show "count_list (map snd (inbox ex_answered)) 1 + count_list (map snd (waiting ex_answered)) 1 = 1"
    using session_answer_final[OF ex_answered_reach[of "''eof''"], of 1] by presburger
qed

end
