(* ===== verification/RpcSync.thy ===== *)
theory RpcSync
  imports RpcSession
begin

text \<open>
  The blocking transport of the RPC example (\<^verbatim>\<open>examples/rpc/net/sync_impl.rs\<close>, left out of the
  example's build). Its codec is related to the asynchronous one of \<open>RpcNet\<close>: it writes the header in
  one piece and converts the length first; its integers come from the macro
  \<^verbatim>\<open>impl_unsigned_for!\<close>. Its two loops are threads of a scope, so neither ends the other: the state
  extends that of \<open>RpcSession\<close> by which of them still runs.
\<close>

section \<open>Operations\<close>

text \<open>\<^verbatim>\<open>read_from\<close> at the width of the result: as many bytes as the type has, in big-endian order.\<close>

definition read_from :: "string \<Rightarrow> u8 list \<Rightarrow> (error, 'w::len word \<times> u8 list) result" where
  "read_from io bs = bind_result (read_exact io (LENGTH('w) div 8) bs) (\<lambda>(buf, bs). Inr (from_be buf, bs))"

definition send_message_sync :: "string \<Rightarrow> message \<Rightarrow> writer \<Rightarrow> (error, unit) result \<times> writer" where
  "send_message_sync io m w =
     (if length (m_bytes m) < 2 ^ 32
      then let header = be_bytes 4 (m_id m) @ [mt_code (m_type m)] @ be_bytes 4 (of_nat (length (m_bytes m)) :: u32)
           in write_then (write_all io header w) (\<lambda>w. write_all io (m_bytes m) w)
      else (Inl int_error, w))"

definition recv_message_sync :: "string \<Rightarrow> u8 list \<Rightarrow> (error, message \<times> u8 list) result" where
  "recv_message_sync io bs =
     bind_result (read_from io bs) (\<lambda>(i :: u32, bs).
     bind_result (read_from io bs) (\<lambda>(b :: u8, bs).
     bind_result (mt_try_from b) (\<lambda>mt.
     bind_result (read_from io bs) (\<lambda>(size :: u32, bs).
     bind_result (read_exact io (unat size) bs) (\<lambda>(buffer, bs).
     Inr (\<lparr>m_id = i, m_type = mt, m_bytes = buffer\<rparr>, bs))))))"

section \<open>Equivalence with the asynchronous codec\<close>

text \<open>Writing in pieces is writing at once, also when the connection fails on the way.\<close>

lemma write_all_append: "write_then (write_all io xs w) (write_all io ys) = write_all io (xs @ ys) w"
proof (cases "room w")
  case (Some n)
  then show ?thesis by (cases "length xs \<le> n") (auto simp: write_all_def write_then_def)
qed (simp add: write_all_def write_then_def)

lemma write_then_assoc: "write_then (write_then r k) l = write_then r (\<lambda>w. write_then (k w) l)"
  by (cases r) (auto simp: write_then_def split: sum.splits prod.splits)

lemma write_then_cong: "(\<And>w. k w = l w) \<Longrightarrow> write_then r k = write_then r l"
  by (simp add: write_then_def split: prod.split sum.split)

lemma from_be_byte: "from_be [b] = (b :: u8)"
  by (simp add: from_be_def)

lemma read_from_byte:
  "bind_result (read_from io bs) (\<lambda>(b :: u8, bs). k b bs) = bind_result (read_exact io 1 bs) (\<lambda>(bt, bs). k (hd bt) bs)"
proof (cases bs)
  case (Cons b rest)
  then show ?thesis by (simp add: read_from_def read_exact_def from_be_byte)
qed (simp add: read_from_def read_exact_def)

text \<open>
  On every message whose length fits, and every input, the two codecs agree: the same bytes reach
  the peer, whole or cut where the connection fails, and the same message or error comes back. They
  differ on a body that is too long, where the blocking one writes nothing.
\<close>

lemma sync_codec_equivalent:
  "sendable m \<Longrightarrow> send_message_sync io m w = send_message io m w"
  "\<not> sendable m \<Longrightarrow> send_message_sync io m w = (Inl int_error, w)"
  "recv_message_sync io bs = recv_message io bs"
proof -
  assume "sendable m"
  then show "send_message_sync io m w = send_message io m w"
    by (simp add: send_message_sync_def send_message_def sendable_def Let_def write_all_append write_then_assoc[symmetric]
        del: append_assoc) (simp add: write_then_assoc write_all_append)
next
  show "recv_message_sync io bs = recv_message io bs"
    unfolding recv_message_sync_def recv_message_def
    by (simp only: read_from_byte) (simp add: read_from_def bind_result_assoc case_prod_beta' Let_def)
qed (simp add: send_message_sync_def sendable_def)


section \<open>The blocking session\<close>

text \<open>
  \<open>running\<close> says that the map of senders is alive: it is dropped when both threads of the scope
  have ended. The queue is an unbounded \<^verbatim>\<open>std::sync::mpsc\<close> channel, whose receiver \<^verbatim>\<open>run_send\<close> owns.
\<close>

record sync_session = session +
  send_alive :: bool
  recv_alive :: bool

definition sync_new :: "nat option \<Rightarrow> sync_session" where
  "sync_new cap = session.extend (session_new cap) \<lparr>send_alive = True, recv_alive = True\<rparr>"

text \<open>\<^verbatim>\<open>run_send\<close> returns: its queue is dropped, and the map if \<^verbatim>\<open>run_recv\<close> has returned; and conversely.\<close>

definition stop_send :: "sync_session \<Rightarrow> sync_session" where
  "stop_send s =
     (let s1 = s\<lparr>send_alive := False, inbox := [], sending := None, answers := lose (map snd (inbox s)) (answers s)\<rparr>
      in if recv_alive s then s1 else end_session s1)"

definition stop_recv :: "sync_session \<Rightarrow> sync_session" where
  "stop_recv s = (let s1 = s\<lparr>recv_alive := False\<rparr> in if send_alive s then s1 else end_session s1)"

definition sync_submit :: "message \<Rightarrow> nat \<Rightarrow> sync_session \<Rightarrow> sync_session" where
  "sync_submit m t s = (if send_alive s then enqueue m t s else refuse m t s)"

definition sync_take :: "sync_session \<Rightarrow> sync_session option" where
  "sync_take s = (if \<not> send_alive s \<or> sending s \<noteq> None then None else case inbox s of
      [] \<Rightarrow> None
    | (m, t) # q \<Rightarrow> Some (register (m_id m) t (s\<lparr>inbox := q, sending := Some m\<rparr>)))"

definition sync_write :: "string \<Rightarrow> sync_session \<Rightarrow> sync_session option" where
  "sync_write io s = (if \<not> send_alive s then None else case sending s of
      None \<Rightarrow> None
    | Some m \<Rightarrow> (case send_message_sync io m (wire s) of
        (Inr _, w) \<Rightarrow> Some (s\<lparr>wire := w, sending := None\<rparr>)
      | (Inl e, w) \<Rightarrow> Some (stop_send (unregister (m_id m) (s\<lparr>wire := w\<rparr>)))))"

text \<open>Every \<^verbatim>\<open>mpsc::Sender\<close> of the session has been dropped: \<^verbatim>\<open>run_send\<close> returns \<^verbatim>\<open>Ok\<close>.\<close>

definition sync_hangup :: "sync_session \<Rightarrow> sync_session option" where
  "sync_hangup s = (if send_alive s \<and> inbox s = [] \<and> sending s = None then Some (stop_send s) else None)"

definition sync_recv :: "string \<Rightarrow> sync_session \<Rightarrow> sync_session option" where
  "sync_recv io s = (if \<not> recv_alive s then None else case recv_message_sync io (incoming s) of
      Inr (m, rest) \<Rightarrow> Some (answer m (s\<lparr>incoming := rest, received := received s @ [m]\<rparr>))
    | Inl e \<Rightarrow> if closed s \<or> bad_type (incoming s) then Some (stop_recv s) else None)"

inductive sync_step :: "string \<Rightarrow> sync_session \<Rightarrow> sync_session \<Rightarrow> bool" for io where
  sync_submit: "asked s t = None \<Longrightarrow> sync_step io s (sync_submit m t s)"
| sync_take: "sync_take s = Some s' \<Longrightarrow> sync_step io s s'"
| sync_write: "sync_write io s = Some s' \<Longrightarrow> sync_step io s s'"
| sync_hangup: "sync_hangup s = Some s' \<Longrightarrow> sync_step io s s'"
| sync_recv: "sync_recv io s = Some s' \<Longrightarrow> sync_step io s s'"
| sync_arrive: "\<not> closed s \<Longrightarrow> sync_step io s (s\<lparr>incoming := incoming s @ bs\<rparr>)"
| sync_close: "sync_step io s (s\<lparr>closed := True\<rparr>)"

abbreviation sync_reach :: "string \<Rightarrow> nat option \<Rightarrow> sync_session \<Rightarrow> bool" where
  "sync_reach io cap \<equiv> reach (\<lambda>s. s = sync_new cap) (sync_step io)"

section \<open>Invariant of the blocking session\<close>

definition sync_inv :: "sync_session \<Rightarrow> bool" where
  "sync_inv s \<longleftrightarrow> session_inv s \<and> (running s \<longleftrightarrow> send_alive s \<or> recv_alive s)
     \<and> (\<not> send_alive s \<longrightarrow> inbox s = [] \<and> sending s = None)"

lemma session_inv_flags:
  "session_inv (s\<lparr>send_alive := x\<rparr>) \<longleftrightarrow> session_inv s" "session_inv (s\<lparr>recv_alive := x\<rparr>) \<longleftrightarrow> session_inv s"
  by (simp_all add: session_inv_def pending_def)

lemma register_flags [simp]:
  "send_alive (register i t s) = send_alive s" "recv_alive (register i t s) = recv_alive s"
  "running (register i t s) = running s" "inbox (register i t s) = inbox s" "sending (register i t s) = sending s"
  "send_alive (unregister i s) = send_alive s" "recv_alive (unregister i s) = recv_alive s"
  "running (unregister i s) = running s" "inbox (unregister i s) = inbox s"
  "send_alive (answer m s) = send_alive s" "recv_alive (answer m s) = recv_alive s"
  "running (answer m s) = running s" "inbox (answer m s) = inbox s" "sending (answer m s) = sending s"
  "send_alive (end_session s) = send_alive s" "recv_alive (end_session s) = recv_alive s"
  by (simp_all add: register_def unregister_def answer_def end_session_def split: option.split)

text \<open>Dropping the queue alone.\<close>

lemma session_inv_drop_queue:
  assumes inv: "session_inv s"
  shows "session_inv (s\<lparr>inbox := [], sending := None, answers := lose (map snd (inbox s)) (answers s)\<rparr>)"
proof -
  have apart: "snd ` set (inbox s) \<inter> snd ` set (waiting s) = {}" and d: "distinct (map snd (waiting s))"
    using session_invD(2)[OF inv] by (simp_all add: distinct_pending)
  then have not_in: "t \<notin> snd ` set (inbox s)" if "t \<in> snd ` set (waiting s)" for t using that by blast
  have asked: "asked s t \<noteq> None \<longleftrightarrow> t \<in> snd ` set (inbox s) \<or> t \<in> snd ` set (waiting s) \<or> answers s t \<noteq> None" for t
    using session_invD(5)[OF inv, of t] by (simp add: in_pending)
  show ?thesis unfolding session_inv_def
  proof (intro conjI)
    show "\<forall>t \<in> set (pending (s\<lparr>inbox := [], sending := None, answers := lose (map snd (inbox s)) (answers s)\<rparr>)).
      answers (s\<lparr>inbox := [], sending := None, answers := lose (map snd (inbox s)) (answers s)\<rparr>) t = None"
      using session_invD(6)[OF inv] not_in by (auto simp: pending_def lose_def)
    show "\<forall>t. (asked (s\<lparr>inbox := [], sending := None, answers := lose (map snd (inbox s)) (answers s)\<rparr>) t \<noteq> None)
      = (t \<in> set (pending (s\<lparr>inbox := [], sending := None, answers := lose (map snd (inbox s)) (answers s)\<rparr>))
        \<or> answers (s\<lparr>inbox := [], sending := None, answers := lose (map snd (inbox s)) (answers s)\<rparr>) t \<noteq> None)"
      using asked by (auto simp: in_pending lose_def)
  qed (use session_invD[OF inv] d in \<open>auto simp: pending_def\<close>)
qed

lemma session_inv_running: "session_inv s \<Longrightarrow> session_inv (s\<lparr>running := True\<rparr>)"
  by (simp add: session_inv_def pending_def)

lemma sync_inv_stop_send:
  assumes "session_inv s" and "running s"
  shows "sync_inv (stop_send s)"
proof -
  let ?s1 = "s\<lparr>send_alive := False, inbox := [], sending := None, answers := lose (map snd (inbox s)) (answers s)\<rparr>"
  have "?s1 = (s\<lparr>inbox := [], sending := None, answers := lose (map snd (inbox s)) (answers s)\<rparr>)\<lparr>send_alive := False\<rparr>" by simp
  then have "session_inv ?s1" using session_inv_drop_queue[OF assms(1)] by (simp only: session_inv_flags)
  then show ?thesis using assms(2) session_inv_end[of ?s1]
    by (simp add: stop_send_def sync_inv_def Let_def) (simp add: end_session_def)
qed

lemma sync_inv_stop_recv:
  assumes "sync_inv s" and "recv_alive s"
  shows "sync_inv (stop_recv s)"
proof -
  have "session_inv (s\<lparr>recv_alive := False\<rparr>)" using assms(1) by (simp add: sync_inv_def session_inv_flags)
  then show ?thesis using assms session_inv_end[of "s\<lparr>recv_alive := False\<rparr>"]
    by (simp add: stop_recv_def sync_inv_def Let_def) (simp add: end_session_def)
qed

lemma sync_inv_step: "sync_step io s s' \<Longrightarrow> sync_inv s \<Longrightarrow> sync_inv s'"
proof (induction rule: sync_step.induct)
  case (sync_submit s t m)
  then show ?case using session_inv_enqueue[of s t m] session_inv_refuse[of s t m]
    by (auto simp: sync_submit_def sync_inv_def enqueue_def refuse_def)
next
  case (sync_take s s')
  then obtain m t q where q: "inbox s = (m, t) # q" and s': "s' = register (m_id m) t (s\<lparr>inbox := q, sending := Some m\<rparr>)"
    and alive: "send_alive s" by (auto simp: sync_take_def split: if_splits list.splits)
  have "s' = (register (m_id m) t (s\<lparr>inbox := q\<rparr>))\<lparr>sending := Some m\<rparr>" by (simp add: s' register_def)
  then have "session_inv s'" using session_inv_register[OF _ q] sync_take(2) by (simp add: sync_inv_def session_inv_frame)
  then show ?case using sync_take(2) alive by (simp add: sync_inv_def s')
next
  case (sync_write s s')
  then obtain m r w where m: "sending s = Some m" "send_message_sync io m (wire s) = (r, w)" and alive: "send_alive s"
    by (cases "send_message_sync io (the (sending s)) (wire s)") (auto simp: sync_write_def split: if_splits option.splits)
  have w: "session_inv (s\<lparr>wire := w\<rparr>)" using sync_write(2) by (simp add: sync_inv_def session_inv_frame)
  have run: "running s" using sync_write(2) alive by (simp add: sync_inv_def)
  show ?case
  proof (cases r)
    case (Inl e)
    then have "s' = stop_send (unregister (m_id m) (s\<lparr>wire := w\<rparr>))" using sync_write(1) m alive by (simp add: sync_write_def)
    then show ?thesis using run by (simp add: sync_inv_stop_send session_inv_unregister w)
  next
    case (Inr u)
    then have s': "s' = s\<lparr>wire := w, sending := None\<rparr>" using sync_write(1) m alive by (simp add: sync_write_def)
    have "session_inv s'" using session_inv_frame(4)[OF w, of None] by (simp add: s')
    then show ?thesis using sync_write(2) alive by (simp add: sync_inv_def s')
  qed
next
  case (sync_hangup s s')
  then show ?case using sync_inv_stop_send[of s] by (auto simp: sync_hangup_def sync_inv_def split: if_splits)
next
  case (sync_recv s s')
  then have alive: "recv_alive s" by (simp add: sync_recv_def split: if_splits)
  show ?case
  proof (cases "recv_message_sync io (incoming s)")
    case (Inl e)
    then show ?thesis using sync_recv alive sync_inv_stop_recv by (auto simp: sync_recv_def split: if_splits)
  next
    case (Inr x)
    obtain m rest where x: "x = (m, rest)" by (cases x)
    have s': "s' = answer m (s\<lparr>incoming := rest, received := received s @ [m]\<rparr>)"
      using sync_recv(1) Inr x alive by (simp add: sync_recv_def)
    have "session_inv (s\<lparr>incoming := rest, received := received s @ [m]\<rparr>)"
      using sync_recv(2) session_inv_received[of "s\<lparr>incoming := rest\<rparr>" "[m]"] by (simp add: sync_inv_def session_inv_frame)
    from session_inv_answer[OF this, of m] show ?thesis
      using sync_recv(2) by (simp add: sync_inv_def s')
  qed
qed (simp_all add: sync_inv_def session_inv_frame)

lemma sync_inv_new: "sync_inv (sync_new cap)"
  by (simp add: sync_inv_def session_inv_def sync_new_def session_new_def session.extend_def pending_def)

interpretation rpc_sync: inv_system "\<lambda>s. s = sync_new cap" "sync_step io" sync_inv for cap io
  by unfold_locales (auto simp only: sync_inv_new intro: sync_inv_step)

section \<open>Properties of the blocking session\<close>

text \<open>As for the asynchronous session: whose answer a caller gets, and when nobody is left.\<close>

lemma sync_answers:
  assumes "sync_reach io cap s"
  shows "answers s t = Some (Inr b) \<Longrightarrow> \<exists>m \<in> set (received s). asked s t = Some (m_id m) \<and> m_bytes m = b"
    and "\<not> send_alive s \<Longrightarrow> \<not> recv_alive s \<Longrightarrow> asked s t \<noteq> None \<Longrightarrow> answers s t \<noteq> None"
proof -
  have inv: "sync_inv s" using assms by (rule rpc_sync.reach_inv)
  then have si: "session_inv s" by (simp add: sync_inv_def)
  show "answers s t = Some (Inr b) \<Longrightarrow> \<exists>m \<in> set (received s). asked s t = Some (m_id m) \<and> m_bytes m = b"
    using session_invD(8)[OF si, of t b] by auto
  show "\<not> send_alive s \<Longrightarrow> \<not> recv_alive s \<Longrightarrow> asked s t \<noteq> None \<Longrightarrow> answers s t \<noteq> None"
    using session_invD(5)[OF si, of t] session_invD(7)[OF si] inv by (auto simp: sync_inv_def)
qed

lemma no_good_answers:
  "answers (stop_send s) t = Some (Inr b) \<Longrightarrow> answers s t = Some (Inr b)"
  "answers (unregister i s) t = Some (Inr b) \<Longrightarrow> answers s t = Some (Inr b)"
  "answers (register i u s) t = Some (Inr b) \<Longrightarrow> answers s t = Some (Inr b)"
  by (auto simp: stop_send_def unregister_def register_def end_session_def Let_def split: if_splits)

lemma stop_send_flags [simp]:
  "send_alive (stop_send s) = False" "recv_alive (stop_send s) = recv_alive s"
  by (simp_all add: stop_send_def Let_def)

lemma reader_gone_step:
  assumes "sync_step io s s'" and "\<not> recv_alive s"
  shows "\<not> recv_alive s' \<and> (answers s' t = Some (Inr b) \<longrightarrow> answers s t = Some (Inr b))"
  using assms
proof (induction rule: sync_step.induct)
  case (sync_submit s u m)
  then show ?case by (auto simp: sync_submit_def enqueue_def refuse_def)
next
  case (sync_take s s')
  then obtain m u q where s': "s' = register (m_id m) u (s\<lparr>inbox := q, sending := Some m\<rparr>)"
    by (auto simp: sync_take_def split: if_splits list.splits)
  show ?case using sync_take(2) no_good_answers(3)[of "m_id m" u "s\<lparr>inbox := q, sending := Some m\<rparr>" t b]
    by (simp add: s')
next
  case (sync_write s s')
  then obtain m r w where "sending s = Some m" "send_message_sync io m (wire s) = (r, w)" "send_alive s"
    by (cases "send_message_sync io (the (sending s)) (wire s)") (auto simp: sync_write_def split: if_splits option.splits)
  then have "s' = (case r of Inr _ \<Rightarrow> s\<lparr>wire := w, sending := None\<rparr> | Inl _ \<Rightarrow> stop_send (unregister (m_id m) (s\<lparr>wire := w\<rparr>)))"
    using sync_write(1) by (simp add: sync_write_def split: sum.splits)
  then show ?case using sync_write(2) no_good_answers(1)[of "unregister (m_id m) (s\<lparr>wire := w\<rparr>)" t b]
      no_good_answers(2)[of "m_id m" "s\<lparr>wire := w\<rparr>" t b] by (cases r) auto
next
  case (sync_hangup s s')
  then have "s' = stop_send s" by (simp add: sync_hangup_def split: if_splits)
  then show ?case using sync_hangup(2) no_good_answers(1)[of s t b] by auto
qed (auto simp: sync_recv_def)

text \<open>
  The caller \<open>t\<close> waits under the id \<open>i\<close>: it is registered, or its request is still in the queue. No other
  caller's request in the queue has that id.
\<close>

definition waits_as :: "nat \<Rightarrow> u32 \<Rightarrow> sync_session \<Rightarrow> bool" where
  "waits_as t i s \<longleftrightarrow> map_of (waiting s) i = Some t \<or> (\<exists>m. (m, t) \<in> set (inbox s) \<and> m_id m = i)"

definition own_id :: "nat \<Rightarrow> u32 \<Rightarrow> sync_session \<Rightarrow> bool" where
  "own_id t i s \<longleftrightarrow> (\<forall>(m, u) \<in> set (inbox s). m_id m = i \<longrightarrow> u = t)"

lemma waits_as_pending: "waits_as t i s \<Longrightarrow> t \<in> set (pending s)"
  using waiting_pending by (auto simp: waits_as_def pending_def dest: map_of_SomeD) (force simp: pending_def)+

lemma send_alive_back: "sync_step io s s' \<Longrightarrow> send_alive s' \<Longrightarrow> send_alive s"
  by (induction rule: sync_step.induct)
    (auto simp: sync_submit_def enqueue_def refuse_def sync_take_def register_def sync_write_def sync_hangup_def
      sync_recv_def stop_recv_def answer_def end_session_def Let_def
      split: if_splits list.splits option.splits sum.splits prod.splits)

lemma waiting_step:
  assumes "sync_step io s s'" and "\<not> recv_alive s" and "send_alive s'" and "waits_as t i s" and "own_id t i s"
  shows "waits_as t i s'"
  using assms
proof (induction rule: sync_step.induct)
  case (sync_submit s u m)
  then show ?case by (auto simp: sync_submit_def enqueue_def refuse_def waits_as_def)
next
  case (sync_take s s')
  then show ?case
    by (auto simp: sync_take_def register_def waits_as_def own_id_def AList.update_conv' split: if_splits list.splits)
next
  case (sync_write s s')
  then show ?case by (auto simp: sync_write_def waits_as_def split: if_splits option.splits sum.splits prod.splits)
next
  case (sync_hangup s s')
  then show ?case by (auto simp: sync_hangup_def split: if_splits)
qed (auto simp: sync_recv_def waits_as_def)

text \<open>Any number of steps, from states in which the id is not reused.\<close>

abbreviation steps_alone :: "string \<Rightarrow> nat \<Rightarrow> u32 \<Rightarrow> sync_session \<Rightarrow> sync_session \<Rightarrow> bool" where
  "steps_alone io t i \<equiv> (\<lambda>x y. sync_step io x y \<and> own_id t i x)\<^sup>*\<^sup>*"

lemma waiting_steps:
  assumes "steps_alone io t i s s'" and "sync_reach io cap s" and "\<not> recv_alive s" and "send_alive s'" and "waits_as t i s"
  shows "waits_as t i s' \<and> answers s' t = None"
proof -
  have "sync_reach io cap s' \<and> \<not> recv_alive s' \<and> (send_alive s' \<longrightarrow> waits_as t i s')"
    using assms(1)
  proof (induction rule: rtranclp_induct)
    case (step x y)
    then have st: "sync_step io x y" "own_id t i x" and x: "sync_reach io cap x" "\<not> recv_alive x" by auto
    show ?case using reach_step[OF x(1) st(1)] reader_gone_step[OF st(1) x(2)] send_alive_back[OF st(1)]
        waiting_step[OF st(1) x(2) _ _ st(2)] step.IH by blast
  qed (use assms(2,3,5) in simp)
  then have "sync_inv s'" "waits_as t i s'" using rpc_sync.reach_inv assms(4) by blast+
  then show ?thesis using session_invD(6)[of s' t] waits_as_pending by (auto simp: sync_inv_def)
qed

text \<open>
  C28. When the reading thread has returned (the peer closed, or sent something malformed) and the
  writing thread still runs, the session goes on accepting requests, but no caller gets a good
  answer any more, whatever happens next. A caller that waits, its request queued or written, is left waiting without any answer
  after any number of steps of the session, as long as the writing thread runs and no other caller's request
  with the same id is in the queue (taking such a request would drop the waiting sender, and its caller would get an error).
\<close>

theorem sync_reader_gone:
  assumes "sync_reach io cap s" and "\<not> recv_alive s"
  shows "((sync_step io)\<^sup>*\<^sup>* s s' \<longrightarrow> answers s' t = Some (Inr b) \<longrightarrow> answers s t = Some (Inr b))
    \<and> (send_alive s \<and> asked s t = None \<longrightarrow> t \<in> set (pending (sync_submit m t s)) \<and> sync_step io s (sync_submit m t s))
    \<and> (steps_alone io u i s s' \<and> send_alive s' \<and> waits_as u i s \<longrightarrow> waits_as u i s' \<and> answers s' u = None)"
proof (intro conjI impI)
  assume steps: "(sync_step io)\<^sup>*\<^sup>* s s'" and ans: "answers s' t = Some (Inr b)"
  from steps have "\<not> recv_alive s' \<and> (answers s' t = Some (Inr b) \<longrightarrow> answers s t = Some (Inr b))"
  proof (induction rule: rtranclp_induct)
    case (step y z)
    then show ?case using reader_gone_step[OF step(2), of t b] by blast
  qed (use assms(2) in simp)
  then show "answers s t = Some (Inr b)" using ans by blast
next
  assume *: "send_alive s \<and> asked s t = None"
  then show "t \<in> set (pending (sync_submit m t s))" by (simp add: sync_submit_def enqueue_def pending_def)
  show "sync_step io s (sync_submit m t s)" using * by (intro sync_step.sync_submit) simp
next
  assume *: "steps_alone io u i s s' \<and> send_alive s' \<and> waits_as u i s"
  show "waits_as u i s'" "answers s' u = None" using waiting_steps[OF _ assms] * by blast+
qed

text \<open>The peer closes at once; a caller submits, its request is written, and it waits.\<close>

definition ex_orphan :: sync_session where
  "ex_orphan = (sync_new None)\<lparr>recv_alive := False, closed := True, waiting := [(1, 0)], asked := [0 \<mapsto> 1],
     wire := \<lparr>written = encode (ex_request 1), room = None\<rparr>\<rparr>"

lemma ex_orphan_reach: "sync_reach io None ex_orphan"
proof -
  note d = sync_new_def session_new_def session.extend_def
  let ?s0 = "sync_new None"
  let ?s1 = "?s0\<lparr>closed := True\<rparr>"
  let ?s2 = "?s1\<lparr>recv_alive := False\<rparr>"
  let ?s3 = "?s2\<lparr>asked := [0 \<mapsto> 1], inbox := [(ex_request 1, 0)]\<rparr>"
  let ?s4 = "?s2\<lparr>asked := [0 \<mapsto> 1], sending := Some (ex_request 1), waiting := [(1, 0)]\<rparr>"
  have id: "m_id (ex_request i) = i" for i by (simp add: ex_request_def)
  have "sync_step io ?s0 ?s1" by (rule sync_step.sync_close)
  moreover have "sync_step io ?s1 ?s2"
    by (rule sync_step.sync_recv)
      (simp add: sync_recv_def sync_codec_equivalent recv_message_def read_exact_def stop_recv_def Let_def d)
  moreover have "sync_step io ?s2 ?s3"
    using sync_step.sync_submit[of ?s2 0 io "ex_request 1"] by (simp add: sync_submit_def enqueue_def id d)
  moreover have "sync_step io ?s3 ?s4"
    by (rule sync_step.sync_take) (simp add: sync_take_def register_def id d)
  moreover have "sync_step io ?s4 ex_orphan"
    by (rule sync_step.sync_write)
      (simp add: sync_write_def sync_codec_equivalent ex_sendable send_message_roomy ex_orphan_def d)
  moreover have "sync_reach io None ?s0" by (rule reach_init) simp
  ultimately show ?thesis by (meson reach_step)
qed

lemma sync_reader_gone_witness:
  "answers (sync_submit (ex_request 3) 5 ex_orphan) 0 = None \<and> 5 \<in> set (pending (sync_submit (ex_request 3) 5 ex_orphan))"
proof -
  let ?s = "sync_submit (ex_request 3) 5 ex_orphan"
  have x: "\<not> recv_alive ex_orphan" "send_alive ex_orphan \<and> asked ex_orphan 5 = None" "waits_as 0 1 ex_orphan" "own_id 0 1 ex_orphan"
    by (simp_all add: ex_orphan_def sync_new_def session_new_def session.extend_def waits_as_def own_id_def)
  note gone = sync_reader_gone[OF ex_orphan_reach x(1), where t = 5 and m = "ex_request 3" and s' = ?s and u = 0 and i = 1]
  have p: "5 \<in> set (pending ?s) \<and> sync_step ''eof'' ex_orphan ?s" using gone x(2) by blast
  then have "steps_alone ''eof'' 0 1 ex_orphan ?s" using x(4) by (intro r_into_rtranclp) simp
  moreover have "send_alive ?s" using x(2) by (simp add: sync_submit_def enqueue_def)
  ultimately have "answers ?s 0 = None" using gone[of "''eof''"] x(3) by blast
  with p show ?thesis by blast
qed

end
