(* ===== verification/SpinLock.thy ===== *)
theory SpinLock
  imports BitStatus
begin

text \<open>
  The spin lock of \<^verbatim>\<open>examples/rpc/lock/spin.rs\<close>: \<^verbatim>\<open>lock\<close> spins on a weak exchange of the
  \<^verbatim>\<open>AtomicBool\<close>, the guard gives access to the data, and dropping the guard stores \<^verbatim>\<open>false\<close>.
  Threads interleave in every way; the memory orderings of the two atomic operations decide
  which accesses to the data happen before which, as in \<open>AtomicMem\<close>.
\<close>

section \<open>State\<close>

text \<open>
  A thread is outside, in the loop of \<^verbatim>\<open>lock\<close>, or holds a \<^verbatim>\<open>LockGuard\<close>. Only the newest message
  of the flag matters, because an exchange that succeeds reads it: \<open>flag\<close> is its value,
  \<open>flag_view\<close> the events published with it. \<open>view\<close> holds the events that happen before the next
  step of a thread, \<open>accs\<close> the accesses to the data. \<open>section\<close> numbers the critical sections, and
  \<open>uses\<close> records the accesses with their section and thread.
\<close>

datatype place = Outside | Spinning | Holding

record 's spin =
  flag :: bool
  flag_view :: "nat set"
  guarded :: 's
  place :: "nat \<Rightarrow> place"
  tview :: "nat \<Rightarrow> nat set"
  events :: nat
  accs_on :: "nat set"
  races :: "nat list"
  sections :: nat
  uses :: "(nat \<times> nat \<times> ('s \<Rightarrow> 's)) list"

definition spin_new :: "'s \<Rightarrow> 's spin" where
  "spin_new val = \<lparr>flag = False, flag_view = {}, guarded = val, place = (\<lambda>_. Outside), tview = (\<lambda>_. {}),
     events = 0, accs_on = {}, races = [], sections = 0, uses = []\<rparr>"

section \<open>Operations\<close>

text \<open>The orderings of \<^verbatim>\<open>compare_exchange_weak(false, true, Acquire, Relaxed)\<close> and \<^verbatim>\<open>store(false, Release)\<close>.\<close>

definition lock_ordering :: mem_order where "lock_ordering = Acquire"

definition unlock_ordering :: mem_order where "unlock_ordering = Release"

definition enter_loop :: "nat \<Rightarrow> 's spin \<Rightarrow> 's spin" where
  "enter_loop t s = s\<lparr>place := (place s)(t := Spinning)\<rparr>"

text \<open>
  A successful exchange: the thread synchronises with the store it reads if the ordering is
  \<^verbatim>\<open>Acquire\<close>; the new message continues that store's release sequence.
\<close>

definition exchange :: "nat \<Rightarrow> 's spin \<Rightarrow> 's spin" where
  "exchange t s = s\<lparr>flag := True, place := (place s)(t := Holding),
     tview := (tview s)(t := (if lock_ordering = Acquire then tview s t \<union> flag_view s else tview s t)),
     sections := Suc (sections s)\<rparr>"

text \<open>\<^verbatim>\<open>deref\<close> or \<^verbatim>\<open>deref_mut\<close> and a use \<open>f\<close> of the reference.\<close>

definition use_guard :: "nat \<Rightarrow> ('s \<Rightarrow> 's) \<Rightarrow> 's spin \<Rightarrow> 's spin" where
  "use_guard t f s = s\<lparr>guarded := f (guarded s), events := Suc (events s), accs_on := insert (events s) (accs_on s),
     tview := (tview s)(t := insert (events s) (tview s t)),
     races := (if accs_on s \<subseteq> tview s t then races s else races s @ [t]),
     uses := uses s @ [(sections s, t, f)]\<rparr>"

definition drop_guard :: "nat \<Rightarrow> 's spin \<Rightarrow> 's spin" where
  "drop_guard t s = s\<lparr>flag := False, place := (place s)(t := Outside),
     flag_view := (if unlock_ordering = Release then tview s t else {})\<rparr>"

inductive spin_step :: "'s spin \<Rightarrow> 's spin \<Rightarrow> bool" where
  call: "place s t = Outside \<Longrightarrow> spin_step s (enter_loop t s)"
| spin_again: "place s t = Spinning \<Longrightarrow> spin_step s s"
| acquire: "place s t = Spinning \<Longrightarrow> \<not> flag s \<Longrightarrow> spin_step s (exchange t s)"
| use_data: "place s t = Holding \<Longrightarrow> spin_step s (use_guard t f s)"
| release: "place s t = Holding \<Longrightarrow> spin_step s (drop_guard t s)"

abbreviation spin_reach :: "'s \<Rightarrow> 's spin \<Rightarrow> bool" where
  "spin_reach v \<equiv> reach (\<lambda>s. s = spin_new v) spin_step"

section \<open>Invariant\<close>

fun run_log :: "(nat \<times> nat \<times> ('s \<Rightarrow> 's)) list \<Rightarrow> 's \<Rightarrow> 's" where
  "run_log [] v = v"
| "run_log ((_, _, f) # l) v = run_log l (f v)"

lemma run_log_append: "run_log (l @ m) v = run_log m (run_log l v)"
  by (induction l v rule: run_log.induct) simp_all

text \<open>
  The flag is set exactly while one thread holds the guard; what has been accessed is known to
  the holder, or to the next thread that acquires; the log is in section order, and a section
  belongs to one thread.
\<close>

definition hold_inv :: "'s spin \<Rightarrow> bool" where
  "hold_inv s \<longleftrightarrow> (\<forall>t u. place s t = Holding \<longrightarrow> place s u = Holding \<longrightarrow> t = u)
     \<and> (flag s \<longleftrightarrow> (\<exists>t. place s t = Holding))"

definition view_inv :: "'s spin \<Rightarrow> bool" where
  "view_inv s \<longleftrightarrow> (\<not> flag s \<longrightarrow> accs_on s \<subseteq> flag_view s)
     \<and> (\<forall>t. place s t = Holding \<longrightarrow> accs_on s \<subseteq> tview s t) \<and> races s = []"

definition log_inv :: "'s \<Rightarrow> 's spin \<Rightarrow> bool" where
  "log_inv v s \<longleftrightarrow> guarded s = run_log (uses s) v \<and> sorted (map fst (uses s))
     \<and> (\<forall>(n, t, f) \<in> set (uses s). n \<le> sections s \<and> (\<forall>u. n = sections s \<longrightarrow> place s u = Holding \<longrightarrow> u = t))
     \<and> (\<forall>(n, t, f) \<in> set (uses s). \<forall>(m, u, g) \<in> set (uses s). n = m \<longrightarrow> t = u)"

definition spin_inv :: "'s \<Rightarrow> 's spin \<Rightarrow> bool" where
  "spin_inv v s \<longleftrightarrow> hold_inv s \<and> view_inv s \<and> log_inv v s"

lemma drop_guard_simps [simp]:
  "flag (drop_guard t s) = False" "place (drop_guard t s) = (place s)(t := Outside)"
  by (simp_all add: drop_guard_def)

lemmas spin_defs = enter_loop_def exchange_def use_guard_def drop_guard_def

lemma hold_step: "spin_step s s' \<Longrightarrow> hold_inv s \<Longrightarrow> hold_inv s'"
  by (induction rule: spin_step.induct)
    (auto simp: hold_inv_def spin_defs split: if_splits, metis place.distinct(3))

lemma view_step: "spin_step s s' \<Longrightarrow> hold_inv s \<Longrightarrow> view_inv s \<Longrightarrow> view_inv s'"
  by (induction rule: spin_step.induct)
    (auto simp: hold_inv_def view_inv_def spin_defs lock_ordering_def unlock_ordering_def split: if_splits)

lemma log_step: "spin_step s s' \<Longrightarrow> hold_inv s \<Longrightarrow> log_inv v s \<Longrightarrow> log_inv v s'"
proof (induction rule: spin_step.induct)
  case (acquire s t)
  then show ?case by (fastforce simp: log_inv_def exchange_def)
next
  case (use_data s t f)
  then show ?case
    by (auto simp: log_inv_def use_guard_def run_log_append sorted_append hold_inv_def)
qed (auto simp: log_inv_def spin_defs split: if_splits)

interpretation spinlock: inv_system "\<lambda>s. s = spin_new v" spin_step "spin_inv v" for v
proof
  show "spin_inv v s" if "s = spin_new v" for s
    using that by (simp add: spin_inv_def hold_inv_def view_inv_def log_inv_def spin_new_def)
  show "spin_inv v t" if "spin_inv v s" "spin_step s t" for s t
    using that hold_step view_step log_step by (auto simp: spin_inv_def)
qed

section \<open>Properties\<close>

text \<open>
  C27. Mutual exclusion and visibility. In every reachable state at most one thread holds a
  guard, no access to the data has raced with an earlier one, the data is the result of all uses
  in order, and the uses of one critical section are contiguous and belong to one thread.
\<close>

theorem spin_lock_exclusive:
  assumes "spin_reach v s"
  shows "(\<forall>t u. place s t = Holding \<longrightarrow> place s u = Holding \<longrightarrow> t = u) \<and> races s = []
    \<and> guarded s = run_log (uses s) v \<and> sorted (map fst (uses s))
    \<and> (\<forall>(n, t, f) \<in> set (uses s). \<forall>(m, u, g) \<in> set (uses s). n = m \<longrightarrow> t = u)"
  using spinlock.reach_inv[OF assms] by (auto simp: spin_inv_def hold_inv_def view_inv_def log_inv_def)

text \<open>Two threads increment a counter, the second after waiting for the first.\<close>

definition two_increments :: "nat spin" where
  "two_increments = drop_guard 2 (use_guard 2 Suc (exchange 2 (drop_guard 1 (use_guard 1 Suc
     (enter_loop 2 (exchange 1 (enter_loop 1 (spin_new 0))))))))"

lemma two_increments_reach: "spin_reach 0 two_increments"
proof -
  note d = spin_defs spin_new_def
  have "spin_reach 0 (spin_new 0)" by (rule reach_init) simp
  then have "spin_reach 0 (enter_loop 1 (spin_new 0))" (is "spin_reach 0 ?a")
    by (rule reach_step) (rule call, simp add: d)
  then have "spin_reach 0 (exchange 1 ?a)" (is "spin_reach 0 ?b") by (rule reach_step) (rule acquire; simp add: d)
  then have "spin_reach 0 (enter_loop 2 ?b)" (is "spin_reach 0 ?c") by (rule reach_step) (rule call, simp add: d)
  then have "spin_reach 0 (use_guard 1 Suc ?c)" (is "spin_reach 0 ?d") by (rule reach_step) (rule use_data, simp add: d)
  then have "spin_reach 0 (drop_guard 1 ?d)" (is "spin_reach 0 ?e") by (rule reach_step) (rule release, simp add: d)
  then have "spin_reach 0 (exchange 2 ?e)" (is "spin_reach 0 ?f") by (rule reach_step) (rule acquire; simp add: d)
  then have "spin_reach 0 (use_guard 2 Suc ?f)" (is "spin_reach 0 ?g") by (rule reach_step) (rule use_data, simp add: d)
  then show ?thesis unfolding two_increments_def by (rule reach_step) (rule release, simp add: d)
qed

lemma spin_lock_exclusive_witness:
  "spin_reach 0 two_increments \<and> races two_increments = [] \<and> guarded two_increments = 2"
proof -
  have "uses two_increments = [(1, 1, Suc), (2, 2, Suc)]" by (simp add: two_increments_def spin_defs spin_new_def)
  then show ?thesis using spin_lock_exclusive[OF two_increments_reach] two_increments_reach by simp
qed

text \<open>
  No deadlock. While a thread spins, its exchange can succeed at once, or another thread
  holds the guard, and after that thread drops it the exchange can succeed.
\<close>

lemma spin_lock_available:
  assumes "spin_reach v s" and "place s t = Spinning"
  shows "spin_step s (exchange t s)
    \<or> (\<exists>u. u \<noteq> t \<and> place s u = Holding \<and> spin_step s (drop_guard u s) \<and> spin_step (drop_guard u s) (exchange t (drop_guard u s)))"
proof (cases "flag s")
  case True
  then obtain u where u: "place s u = Holding"
    using spinlock.reach_inv[OF assms(1)] by (auto simp: spin_inv_def hold_inv_def)
  then have "u \<noteq> t" using assms(2) by auto
  then show ?thesis using u assms(2) by (auto intro!: exI[of _ u] release acquire)
next
  case False
  then show ?thesis using assms(2) acquire by blast
qed

lemma spin_lock_available_witness:
  "spin_step (enter_loop 3 two_increments) (exchange 3 (enter_loop 3 two_increments))"
proof -
  have "spin_reach 0 (enter_loop 3 two_increments)"
    using two_increments_reach
    by (rule reach_step) (rule call, simp add: two_increments_def spin_defs spin_new_def)
  from spin_lock_available[OF this, of 3] show ?thesis
    by (auto simp: two_increments_def spin_defs spin_new_def split: if_splits)
qed

end
