(* ===== verification/RpcServices.thy ===== *)
theory RpcServices
  imports SpinLock RpcNet DebugFmt
begin

text \<open>
  The rest of \<^verbatim>\<open>examples/rpc/net.rs\<close>: the map of clients in \<^verbatim>\<open>RpcManager\<close>, guarded by the spin lock of
  \<open>SpinLock\<close>, and the accept loop of \<^verbatim>\<open>RpcServer::new\<close>. Also the printing of errors (\<^verbatim>\<open>error.rs\<close>).
\<close>

section \<open>The manager\<close>

text \<open>A client is a handle that is cloned; \<open>'c\<close> is its type.\<close>

type_synonym 'c clients = "u32 \<Rightarrow> 'c option"

definition manager_new :: "'c clients spin" where
  "manager_new = spin_new Map.empty"

datatype 'c manager_op = InsertOp u32 'c | GetOp u32

text \<open>What \<^verbatim>\<open>insert\<close> and \<^verbatim>\<open>get\<close> do with the map while they hold the guard; \<^verbatim>\<open>get\<close> leaves it as it is.\<close>

definition insert_client :: "u32 \<Rightarrow> 'c \<Rightarrow> 'c clients \<Rightarrow> 'c clients" where
  "insert_client sid c m = m(sid \<mapsto> c)"

definition get_client :: "u32 \<Rightarrow> 'c clients \<Rightarrow> 'c option" where
  "get_client sid m = m sid"

fun apply_op :: "'c manager_op \<Rightarrow> 'c clients \<Rightarrow> 'c clients" where
  "apply_op (InsertOp sid c) m = insert_client sid c m"
| "apply_op (GetOp sid) m = m"

text \<open>
  Threads run the operations on the lock's machine; the log keeps them with what \<^verbatim>\<open>get\<close> returned.
  An operation of a thread is one use of its guard.
\<close>

inductive manager_step ::
  "'c clients spin \<times> ('c manager_op \<times> 'c option) list \<Rightarrow> 'c clients spin \<times> ('c manager_op \<times> 'c option) list \<Rightarrow> bool" where
  lock_call: "place s t = Outside \<Longrightarrow> manager_step (s, l) (enter_loop t s, l)"
| lock_spin: "place s t = Spinning \<Longrightarrow> manager_step (s, l) (s, l)"
| lock_acquire: "place s t = Spinning \<Longrightarrow> \<not> flag s \<Longrightarrow> manager_step (s, l) (exchange t s, l)"
| insert_op: "place s t = Holding \<Longrightarrow> manager_step (s, l) (use_guard t (insert_client sid c) s, l @ [(InsertOp sid c, None)])"
| get_op: "place s t = Holding \<Longrightarrow>
    manager_step (s, l) (use_guard t id s, l @ [(GetOp sid, get_client sid (guarded s))])"
| unlock: "place s t = Holding \<Longrightarrow> manager_step (s, l) (drop_guard t s, l)"

abbreviation manager_reach :: "'c clients spin \<times> ('c manager_op \<times> 'c option) list \<Rightarrow> bool" where
  "manager_reach \<equiv> reach (\<lambda>x. x = (manager_new, [])) manager_step"

text \<open>Every step of the manager is a step of the lock, so the lock's invariant holds for it.\<close>

lemma manager_spin: "manager_step x y \<Longrightarrow> spin_step (fst x) (fst y)"
  by (induction rule: manager_step.induct) (auto intro: spin_step.intros)

lemma manager_reach_spin: "manager_reach x \<Longrightarrow> spin_reach Map.empty (fst x)"
proof (induction rule: reach.induct)
  case (reach_init x)
  then show ?case by (simp add: manager_new_def reach.reach_init)
next
  case (reach_step x y)
  then show ?case using manager_spin by (blast intro: reach.reach_step)
qed

section \<open>The sequential manager\<close>

text \<open>The client inserted last under an id.\<close>

fun latest_client :: "u32 \<Rightarrow> ('c manager_op \<times> 'c option) list \<Rightarrow> 'c option" where
  "latest_client sid [] = None"
| "latest_client sid ((InsertOp i c, r) # l) = (case latest_client sid l of Some d \<Rightarrow> Some d | None \<Rightarrow> if i = sid then Some c else None)"
| "latest_client sid ((GetOp i, r) # l) = latest_client sid l"

lemma latest_client_snoc:
  "latest_client sid (l @ [(InsertOp i c, r)]) = (if i = sid then Some c else latest_client sid l)"
  "latest_client sid (l @ [(GetOp i, r)]) = latest_client sid l"
  by (induction sid l rule: latest_client.induct) (auto split: option.split)

text \<open>The same as running the operations on a plain map.\<close>

lemma fold_latest: "fold (apply_op \<circ> fst) l Map.empty sid = latest_client sid l"
proof (induction l rule: rev_induct)
  case (snoc x l)
  obtain op r where x: "x = (op, r)" by (cases x)
  show ?case using snoc by (cases op) (simp_all add: x latest_client_snoc insert_client_def)
qed simp

definition gets_right :: "('c manager_op \<times> 'c option) list \<Rightarrow> bool" where
  "gets_right l \<longleftrightarrow> (\<forall>k sid r. k < length l \<longrightarrow> l ! k = (GetOp sid, r) \<longrightarrow> r = latest_client sid (take k l))"

lemma gets_right_snoc:
  "gets_right (l @ [(InsertOp i c, r)]) \<longleftrightarrow> gets_right l"
  "gets_right (l @ [(GetOp i, r)]) \<longleftrightarrow> gets_right l \<and> r = latest_client i l"
  by (auto simp: gets_right_def nth_append less_Suc_eq all_conj_distrib)

definition manager_inv :: "'c clients spin \<times> ('c manager_op \<times> 'c option) list \<Rightarrow> bool" where
  "manager_inv x \<longleftrightarrow> gets_right (snd x) \<and> (\<forall>sid. guarded (fst x) sid = latest_client sid (snd x))"

lemma manager_inv_step: "manager_step x y \<Longrightarrow> manager_inv x \<Longrightarrow> manager_inv y"
  by (induction rule: manager_step.induct)
    (auto simp: manager_inv_def spin_defs insert_client_def get_client_def gets_right_snoc latest_client_snoc)

lemma manager_inv_new: "manager_inv (manager_new, [])"
  by (simp add: manager_inv_def manager_new_def spin_new_def gets_right_def)

interpretation manager: inv_system "\<lambda>x. x = (manager_new, [])" manager_step manager_inv
  by unfold_locales (use manager_inv_new manager_inv_step in auto)

text \<open>
  C32. The manager. However threads interleave their calls of \<^verbatim>\<open>insert\<close> and \<^verbatim>\<open>get\<close> on the map behind the spin lock, every \<^verbatim>\<open>get\<close> returned the client
  that was inserted last under its id before it (none, if there was none), in the order in which the calls used the map;
  the map is what the inserts in that order make; and no access to it races with another.
\<close>

theorem manager_linearizable:
  assumes "manager_reach (s, l)"
  shows "(\<forall>k < length l. \<forall>sid r. l ! k = (GetOp sid, r) \<longrightarrow> r = latest_client sid (take k l))
    \<and> (\<forall>sid. get_client sid (guarded s) = latest_client sid l)
    \<and> guarded s = fold (apply_op \<circ> fst) l Map.empty
    \<and> races s = []"
proof (intro conjI)
  have inv: "gets_right l" "\<forall>sid. guarded s sid = latest_client sid l"
    using manager.reach_inv[OF assms] by (simp_all add: manager_inv_def)
  then show "\<forall>k < length l. \<forall>sid r. l ! k = (GetOp sid, r) \<longrightarrow> r = latest_client sid (take k l)"
    by (simp add: gets_right_def)
  show "\<forall>sid. get_client sid (guarded s) = latest_client sid l" using inv(2) by (simp add: get_client_def)
  show "guarded s = fold (apply_op \<circ> fst) l Map.empty" using inv(2) by (simp add: fun_eq_iff fold_latest)
  have "spin_inv Map.empty s" using manager_reach_spin[OF assms] spinlock.reach_inv by fastforce
  then show "races s = []" by (simp add: spin_inv_def view_inv_def)
qed

text \<open>Thread 0 inserts a client under 7; thread 1 gets it.\<close>

lemma manager_linearizable_witness:
  "\<exists>s :: nat clients spin. manager_reach (s, [(InsertOp 7 3, None), (GetOp 7, Some 3)])
     \<and> latest_client 7 [(InsertOp 7 (3 :: nat), None)] = Some 3 \<and> races s = []"
proof -
  let ?n = "manager_new :: nat clients spin"
  note d = manager_new_def spin_new_def spin_defs insert_client_def get_client_def
  let ?s2 = "exchange 0 (enter_loop 0 ?n)"
  let ?s4 = "drop_guard 0 (use_guard 0 (insert_client 7 3) ?s2)"
  let ?s6 = "exchange 1 (enter_loop 1 ?s4)"
  have "manager_reach (?n, [])" by (rule reach_init) simp
  then have "manager_reach (enter_loop 0 ?n, [])" by (rule reach_step) (rule lock_call, simp add: d)
  then have "manager_reach (?s2, [])" by (rule reach_step) (rule lock_acquire, simp_all add: d)
  then have "manager_reach (use_guard 0 (insert_client 7 3) ?s2, [] @ [(InsertOp 7 3, None)])"
    by (rule reach_step) (rule insert_op, simp add: d)
  then have "manager_reach (?s4, [] @ [(InsertOp 7 3, None)])" by (rule reach_step) (rule unlock, simp add: d)
  then have "manager_reach (enter_loop 1 ?s4, [] @ [(InsertOp 7 3, None)])" by (rule reach_step) (rule lock_call, simp add: d)
  then have "manager_reach (?s6, [] @ [(InsertOp 7 3, None)])" by (rule reach_step) (rule lock_acquire, simp_all add: d)
  then have "manager_reach (use_guard 1 id ?s6, ([] @ [(InsertOp 7 3, None)]) @ [(GetOp 7, get_client 7 (guarded ?s6))])"
    by (rule reach_step) (rule get_op, simp add: d)
  moreover have "get_client 7 (guarded ?s6) = Some 3" by (simp add: d)
  ultimately have r: "manager_reach (use_guard 1 id ?s6, [(InsertOp 7 3, None), (GetOp 7, Some 3)])" by simp
  from manager_linearizable[OF r] have "Some (3 :: nat) = latest_client 7 (take 1 [(InsertOp 7 3, None), (GetOp 7, Some 3)])"
    and "races (use_guard 1 id ?s6) = []" by auto
  with r show ?thesis by (intro exI[of _ "use_guard 1 id ?s6"]) simp
qed

section \<open>The accept loop\<close>

text \<open>
  \<^verbatim>\<open>while let Ok((socket, _)) = listener.accept().await\<close>: every accepted connection gets a task of
  its own; the first error of \<^verbatim>\<open>accept\<close> ends the loop. A connection is its input and its writing half.
\<close>

fun accept_loop :: "string \<Rightarrow> (error, u8 list \<times> writer) result list \<Rightarrow> ((error, unit) result \<times> writer) list" where
  "accept_loop io [] = []"
| "accept_loop io (Inr (input, w) # rest) = serve_connection io input w # accept_loop io rest"
| "accept_loop io (Inl e # rest) = []"

lemma accept_loop_map:
  "accept_loop io (map Inr conns) = map (\<lambda>(input, w). serve_connection io input w) conns"
  by (induction conns) auto

lemma accept_loop_error: "accept_loop io (map Inr conns @ Inl e # rest) = accept_loop io (map Inr conns)"
  by (induction conns) auto


section \<open>Printing errors\<close>

text \<open>\<^verbatim>\<open>From<String>\<close>, \<^verbatim>\<open>From<&'static str>\<close>, \<^verbatim>\<open>From<std::io::Error>\<close> by its text, and \<^verbatim>\<open>Display\<close>.\<close>

definition error_from_text :: "string \<Rightarrow> error" where
  "error_from_text value = error_new value"

fun error_display :: "error \<Rightarrow> string" where
  "error_display (Error message) = ''Error('' @ debug_str message @ '')''"

lemma error_display_inj: "error_display e = error_display f \<longleftrightarrow> e = f"
  by (cases e; cases f) (simp add: debug_str_cont del: append_assoc)

text \<open>What \<^verbatim>\<open>IoSession::run\<close> prints when a loop of the session fails.\<close>

definition net_error_line :: "error \<Rightarrow> string" where
  "net_error_line err = ''net error: '' @ error_display err"

end
