(* ===== verification/Worker.thy ===== *)
theory Worker
  imports Prelude "HOL-Library.Word"
begin

text \<open>
  The task workers of \<^verbatim>\<open>examples/rpc/worker.rs\<close>: a queue of futures that one task polls to
  completion one after another, catching the panics of a poll, and the manager's vector of workers.
\<close>

section \<open>State\<close>

text \<open>
  A queued task is a future: what its \<open>k\<close>-th poll does on the shared state. A task ends when a poll
  is ready or panics. A poll that is pending may have woken the waker it was given before it returned.
\<close>

datatype poll = Pending bool | Ready | Panicked

type_synonym 's task = "nat \<Rightarrow> 's \<Rightarrow> poll \<times> 's"

datatype fate = Finished | Caught

text \<open>
  \<open>senders\<close> counts the clones of \<^verbatim>\<open>WorkerQueue\<close>; \<open>current\<close> is the task being polled with the number
  of its polls; \<open>woken\<close> says that the runtime is to poll it, because it is new or its waker has been woken since the last poll; \<open>stderr\<close> is what the worker prints; \<open>sent\<close> and \<open>done\<close> record the accepted and the
  ended tasks.
\<close>

record 's worker =
  queue :: "'s task list"
  senders :: nat
  current :: "('s task \<times> nat) option"
  woken :: bool
  alive :: bool
  aborted :: bool
  stderr :: "string list"
  sent :: "'s task list"
  ended :: "('s task \<times> fate) list"

section \<open>Operations\<close>

definition QUEUE_CAP :: nat where "QUEUE_CAP = 1024"

text \<open>\<^verbatim>\<open>Worker::new\<close>: the worker itself holds the first sender.\<close>

definition worker_new :: "'s worker" where
  "worker_new = \<lparr>queue = [], senders = 1, current = None, woken = False, alive = True, aborted = False, stderr = [], sent = [], ended = []\<rparr>"

text \<open>\<^verbatim>\<open>shared\<close> clones the sender into a guard; dropping a guard or the worker drops one.\<close>

definition shared_guard :: "'s worker \<Rightarrow> 's worker" where
  "shared_guard w = w\<lparr>senders := Suc (senders w)\<rparr>"

definition drop_sender :: "'s worker \<Rightarrow> 's worker" where
  "drop_sender w = w\<lparr>senders := senders w - 1\<rparr>"

text \<open>
  \<^verbatim>\<open>send_task\<close>: an error when the worker's task is gone, no return while the queue is full
  (\<open>None\<close>).
\<close>

definition send_task :: "'s task \<Rightarrow> 's worker \<Rightarrow> (('s task, unit) result \<times> 's worker) option" where
  "send_task t w =
     (if \<not> alive w then Some (Inl t, w)
      else if length (queue w) < QUEUE_CAP then Some (Inr (), w\<lparr>queue := queue w @ [t], sent := sent w @ [t]\<rparr>)
      else None)"

definition abort :: "'s worker \<Rightarrow> 's worker" where
  "abort w = w\<lparr>alive := False, aborted := alive w \<or> aborted w, queue := [], current := None\<rparr>"

text \<open>\<^verbatim>\<open>catch_unwind\<close> around one poll, as the closure of \<^verbatim>\<open>poll_fn\<close> returns it.\<close>

fun caught :: "poll \<Rightarrow> (unit, unit) result option" where
  "caught (Pending b) = None"
| "caught Ready = Some (Inr ())"
| "caught Panicked = Some (Inl ())"

text \<open>\<^verbatim>\<open>if let Ok(err) = ...\<close>: the line is printed for the value of \<^verbatim>\<open>Ok\<close>.\<close>

definition report :: "(unit, unit) result \<Rightarrow> string list" where
  "report r = (case r of Inr _ \<Rightarrow> [''task panic: ()''] | Inl _ \<Rightarrow> [])"

definition fate_of :: "(unit, unit) result \<Rightarrow> fate" where
  "fate_of r = (case r of Inr _ \<Rightarrow> Finished | Inl _ \<Rightarrow> Caught)"

fun self_woken :: "poll \<Rightarrow> bool" where
  "self_woken (Pending b) = b"
| "self_woken _ = False"

text \<open>
  A turn of the worker's task on the shared state: poll the current task once if it is woken, or receive the next,
  or leave the loop when every sender is gone and the queue is empty. A task that is pending and not woken is
  not polled: the worker sleeps with it.
\<close>

definition worker_turn :: "'s \<Rightarrow> 's worker \<Rightarrow> ('s \<times> 's worker) option" where
  "worker_turn s w =
     (if \<not> alive w then None
      else case current w of
        Some (t, k) \<Rightarrow> if \<not> woken w then None else (case t k s of (p, s') \<Rightarrow> (case caught p of
            None \<Rightarrow> Some (s', w\<lparr>current := Some (t, Suc k), woken := self_woken p\<rparr>)
          | Some r \<Rightarrow> Some (s', w\<lparr>current := None, stderr := stderr w @ report r, ended := ended w @ [(t, fate_of r)]\<rparr>)))
      | None \<Rightarrow> (case queue w of
            t # q \<Rightarrow> Some (s, w\<lparr>queue := q, current := Some (t, 0), woken := True\<rparr>)
          | [] \<Rightarrow> if senders w = 0 then Some (s, w\<lparr>alive := False\<rparr>) else None))"

text \<open>\<^verbatim>\<open>Waker::wake\<close> of the waker that a poll was given, by whoever keeps it, at any time.\<close>

definition wake :: "'s worker \<Rightarrow> 's worker" where
  "wake w = w\<lparr>woken := True\<rparr>"

text \<open>Anyone else may change the shared state between two turns.\<close>

inductive worker_step :: "'s \<times> 's worker \<Rightarrow> 's \<times> 's worker \<Rightarrow> bool" where
  share: "0 < senders w \<Longrightarrow> worker_step (s, w) (s, shared_guard w)"
| release: "0 < senders w \<Longrightarrow> worker_step (s, w) (s, drop_sender w)"
| send: "0 < senders w \<Longrightarrow> send_task t w = Some (r, w') \<Longrightarrow> worker_step (s, w) (s, w')"
| turn: "worker_turn s w = Some (s', w') \<Longrightarrow> worker_step (s, w) (s', w')"
| wake_it: "worker_step (s, w) (s, wake w)"
| abort_it: "worker_step (s, w) (s, abort w)"
| environment: "worker_step (s, w) (s', w)"

abbreviation worker_reach :: "'s \<times> 's worker \<Rightarrow> bool" where
  "worker_reach \<equiv> reach (\<lambda>(s, w). w = worker_new) worker_step"

section \<open>The manager\<close>

text \<open>
  \<^verbatim>\<open>WorkerManager\<close>: the number of workers, the vector, \<^verbatim>\<open>get\<close> (\<open>None\<close>: the index panics), and
  \<^verbatim>\<open>terminate\<close>, which clears the vector and leaves the workers' tasks detached.
\<close>

definition cpu_num :: "nat option \<Rightarrow> nat" where
  "cpu_num parallelism = (case parallelism of None \<Rightarrow> 4 | Some n \<Rightarrow> n)"

definition manager_new :: "nat \<Rightarrow> 's worker list" where
  "manager_new n = replicate n worker_new"

definition manager_get :: "32 word \<Rightarrow> 's worker list \<Rightarrow> 's worker list option" where
  "manager_get i ws = (if unat i < length ws then Some (ws[unat i := shared_guard (ws ! unat i)]) else None)"

definition terminate :: "'s worker list \<Rightarrow> 's worker list \<times> 's worker list" where
  "terminate ws = ([], map drop_sender ws)"

section \<open>Invariant\<close>

definition in_flight :: "'s worker \<Rightarrow> 's task list" where
  "in_flight w = (case current w of None \<Rightarrow> [] | Some (t, _) \<Rightarrow> [t]) @ queue w"

definition printed :: "('s task \<times> fate) list \<Rightarrow> string list" where
  "printed es = map (\<lambda>_. ''task panic: ()'') (filter (\<lambda>(t, f). f = Finished) es)"

definition worker_inv :: "'s worker \<Rightarrow> bool" where
  "worker_inv w \<longleftrightarrow> (\<not> aborted w \<longrightarrow> sent w = map fst (ended w) @ in_flight w)
     \<and> (\<exists>rest. sent w = map fst (ended w) @ rest)
     \<and> (\<not> alive w \<longrightarrow> in_flight w = [] \<and> (senders w = 0 \<or> aborted w))
     \<and> (alive w \<longrightarrow> \<not> aborted w) \<and> length (queue w) \<le> QUEUE_CAP
     \<and> stderr w = printed (ended w)"

lemma printed_snoc: "printed (es @ [(t, fate_of r)]) = printed es @ report r"
  by (auto simp: printed_def report_def fate_of_def split: sum.split)

lemma in_flight_simps [simp]:
  "current w = None \<Longrightarrow> in_flight w = queue w" "current w = Some (t, k) \<Longrightarrow> in_flight w = t # queue w"
  by (simp_all add: in_flight_def)

lemma inv_turn:
  assumes "worker_turn s w = Some (s', w')" and "worker_inv w"
  shows "worker_inv w'"
proof (cases "current w")
  case None
  then show ?thesis using assms
    by (cases "queue w") (auto simp: worker_turn_def worker_inv_def in_flight_def split: if_splits)
next
  case (Some c)
  obtain t k where c: "c = (t, k)" by (cases c)
  obtain p s1 where p: "t k s = (p, s1)" by (cases "t k s")
  have alive: "alive w" using assms(1) by (auto simp: worker_turn_def split: if_splits)
  show ?thesis
  proof (cases "caught p")
    case None
    then have "w' = w\<lparr>current := Some (t, Suc k), woken := self_woken p\<rparr>"
      using assms(1) Some c p alive by (simp add: worker_turn_def split: if_splits)
    then show ?thesis using assms(2) Some c by (simp add: worker_inv_def in_flight_def)
  next
    case (Some r)
    then have "w' = w\<lparr>current := None, stderr := stderr w @ report r, ended := ended w @ [(t, fate_of r)]\<rparr>"
      using assms(1) \<open>current w = Some c\<close> c p alive by (simp add: worker_turn_def split: if_splits)
    then show ?thesis using assms(2) \<open>current w = Some c\<close> c alive
      by (simp add: worker_inv_def in_flight_def printed_snoc)
  qed
qed

lemma inv_step: "worker_step x y \<Longrightarrow> worker_inv (snd x) \<Longrightarrow> worker_inv (snd y)"
proof (induction rule: worker_step.induct)
  case (send w t r w' s)
  then show ?case
    by (auto simp: worker_inv_def send_task_def in_flight_def split: if_splits option.splits)
next
  case (abort_it s w)
  then show ?case by (auto simp: worker_inv_def abort_def in_flight_def)
next
  case (turn s w s' w')
  then show ?case using inv_turn by simp
qed (auto simp: worker_inv_def shared_guard_def drop_sender_def wake_def in_flight_def split: option.splits)

lemma worker_inv_new: "worker_inv worker_new"
  by (simp add: worker_inv_def worker_new_def in_flight_def printed_def)

interpretation worker: inv_system "\<lambda>(s, w). w = worker_new" worker_step "\<lambda>x. worker_inv (snd x)"
  by unfold_locales (use inv_step worker_inv_new in auto)

section \<open>Progress\<close>

text \<open>A task that ends: in every state of the world, one of its polls is not pending, within a bound.\<close>

definition bounded :: "nat \<Rightarrow> 's task \<Rightarrow> bool" where
  "bounded n t \<longleftrightarrow> (\<forall>s b. fst (t n s) \<noteq> Pending b)"

lemma caught_None: "caught p = None \<longleftrightarrow> (\<exists>b. p = Pending b)"
  by (cases p) simp_all

text \<open>
  The worker moves on: it takes a turn, in whatever state the others have brought the world to; or, while its task
  is pending and asleep, somebody wakes the task.
\<close>

inductive drive :: "'s \<times> 's worker \<Rightarrow> 's \<times> 's worker \<Rightarrow> bool" where
  drive_turn: "worker_turn s1 w = Some (s', w') \<Longrightarrow> drive (s, w) (s', w')"
| drive_wake: "alive w \<Longrightarrow> current w \<noteq> None \<Longrightarrow> \<not> woken w \<Longrightarrow> drive (s, w) (s', wake w)"

lemma drive_steps: "drive x y \<Longrightarrow> worker_step\<^sup>*\<^sup>* x y"
proof (induction rule: drive.induct)
  case (drive_turn s1 w s' w' s)
  then show ?case using worker_step.environment[of s w s1] worker_step.turn by (meson r_into_rtranclp rtranclp.rtrancl_into_rtrancl)
next
  case (drive_wake w s s')
  then show ?case using worker_step.environment[of s w s'] worker_step.wake_it[of s' w] by (meson r_into_rtranclp rtranclp.rtrancl_into_rtrancl)
qed

text \<open>How many polls are left at most, and what is left to do.\<close>

definition left :: "'s task \<Rightarrow> nat \<Rightarrow> nat" where
  "left t k = (LEAST d. bounded (k + d) t)"

definition ends :: "'s task \<Rightarrow> nat \<Rightarrow> bool" where
  "ends t k \<longleftrightarrow> (\<exists>d. bounded (k + d) t)"

definition work :: "'s worker \<Rightarrow> nat" where
  "work w = (case current w of None \<Rightarrow> 0 | Some (t, k) \<Rightarrow> 2 * left t k + (if woken w then 1 else 2))
     + (\<Sum>t\<leftarrow>queue w. 2 * left t 0 + 2) + (if alive w then 1 else 0)"

definition all_end :: "'s worker \<Rightarrow> bool" where
  "all_end w \<longleftrightarrow> (\<forall>t k. current w = Some (t, k) \<longrightarrow> ends t k) \<and> (\<forall>t \<in> set (queue w). ends t 0)"

lemma left_pending:
  assumes "ends t k" and "caught (fst (t k s)) = None"
  shows "ends t (Suc k)" and "left t k = Suc (left t (Suc k))"
proof -
  have n: "\<not> bounded (k + 0) t" using assms(2) by (auto simp: bounded_def caught_None)
  obtain d where d: "bounded (k + d) t" using assms(1) by (auto simp: ends_def)
  then obtain e where "d = Suc e" using n by (cases d) auto
  then show "ends t (Suc k)" using d by (auto simp: ends_def)
  show "left t k = Suc (left t (Suc k))"
    unfolding left_def using Least_Suc[of "\<lambda>d. bounded (k + d) t", OF d n] by simp
qed

lemma turn_work:
  assumes "worker_turn s w = Some (s', w')" and "all_end w"
  shows "all_end w' \<and> work w' < work w"
proof -
  have al: "alive w" using assms(1) by (auto simp: worker_turn_def split: if_splits)
  show ?thesis
  proof (cases "current w")
    case None
    then show ?thesis using assms al
      by (cases "queue w") (auto simp: worker_turn_def all_end_def work_def split: if_splits)
  next
    case (Some c)
    obtain t k where c: "current w = Some (t, k)" using Some by (cases c) auto
    have wk: "woken w" using assms(1) al c by (simp add: worker_turn_def split: if_splits)
    obtain p s1 where p: "t k s = (p, s1)" by (cases "t k s")
    show ?thesis
    proof (cases "caught p")
      case None
      have e: "ends t k" using assms(2) c by (simp add: all_end_def)
      have "caught (fst (t k s)) = None" using None p by simp
      note l = left_pending[OF e this]
      have "w' = w\<lparr>current := Some (t, Suc k), woken := self_woken p\<rparr>"
        using assms(1) None c p al wk by (simp add: worker_turn_def)
      then show ?thesis using l assms(2) c wk by (auto simp: all_end_def work_def)
    next
      case (Some r)
      then have "w' = w\<lparr>current := None, stderr := stderr w @ report r, ended := ended w @ [(t, fate_of r)]\<rparr>"
        using assms(1) c p al wk by (simp add: worker_turn_def)
      then show ?thesis using assms(2) c wk by (auto simp: all_end_def work_def)
    qed
  qed
qed

lemma drive_work: "drive x y \<Longrightarrow> all_end (snd x) \<Longrightarrow> all_end (snd y) \<and> work (snd y) < work (snd x)"
proof (induction rule: drive.induct)
  case (drive_turn s1 w s' w' s)
  then show ?case using turn_work by simp
next
  case (drive_wake w s s')
  then show ?case by (auto simp: all_end_def work_def wake_def)
qed

lemma drive_bound: "(drive ^^ m) x y \<Longrightarrow> all_end (snd x) \<Longrightarrow> m + work (snd y) \<le> work (snd x) \<and> all_end (snd y)"
proof (induction m arbitrary: y)
  case (Suc m)
  then obtain z where "(drive ^^ m) x z" "drive z y" by auto
  then show ?case using Suc drive_work[of z y] by fastforce
qed auto

lemma drive_frame: "drive x y \<Longrightarrow> sent (snd y) = sent (snd x) \<and> aborted (snd y) = aborted (snd x) \<and> senders (snd y) = senders (snd x)"
  by (induction rule: drive.induct)
    (auto simp: worker_turn_def wake_def split: if_splits list.splits option.splits prod.splits)

text \<open>A worker that cannot move on has nothing left to do.\<close>

lemma drive_end:
  assumes "\<And>y. \<not> drive (s, w) y" and "worker_inv w"
  shows "in_flight w = [] \<and> (alive w \<longrightarrow> 0 < senders w)"
proof (cases "alive w")
  case True
  have no: "worker_turn s w = None"
  proof (rule ccontr)
    assume "worker_turn s w \<noteq> None"
    then obtain s' w' where "worker_turn s w = Some (s', w')" by auto
    then have "drive (s, w) (s', w')" by (rule drive_turn)
    with assms(1) show False by blast
  qed
  have "current w = None"
  proof (rule ccontr)
    assume c: "current w \<noteq> None"
    then obtain t k where tk: "current w = Some (t, k)" by auto
    have "woken w" using drive_wake[OF True c, of s s] assms(1) by blast
    with no True tk show False by (simp add: worker_turn_def split: option.splits prod.splits)
  qed
  with no True show ?thesis by (cases "queue w") (auto simp: worker_turn_def split: if_splits)
next
  case False
  then show ?thesis using assms(2) by (simp add: worker_inv_def)
qed

text \<open>While its task is pending and asleep, nothing but a wake-up or an abort moves the worker.\<close>

lemma asleep_blocks:
  assumes "worker_step (s, w) (s', w')" and "current w = Some (t, k)" and "\<not> woken w"
  shows "woken w' \<or> aborted w' \<or> \<not> alive w \<or> current w' = Some (t, k) \<and> ended w' = ended w"
  using assms by cases
    (auto simp: worker_turn_def wake_def abort_def send_task_def shared_guard_def drop_sender_def split: if_splits)

section \<open>Properties\<close>

text \<open>
  C36. The worker runs tasks one at a time, in the order they were accepted, and a panicking task
  does not stop it: the worker's task ends only by an abort or after every sender is gone and
  every accepted task has ended. Its line about a panic is printed once for every task that did
  not panic.
\<close>

theorem worker_fifo:
  assumes "worker_reach (s, w)"
  shows "(\<not> aborted w \<longrightarrow> sent w = map fst (ended w) @ in_flight w)
    \<and> (\<not> alive w \<and> \<not> aborted w \<longrightarrow> senders w = 0 \<and> sent w = map fst (ended w))
    \<and> length (queue w) \<le> QUEUE_CAP
    \<and> stderr w = map (\<lambda>_. ''task panic: ()'') (filter (\<lambda>(t, f). f = Finished) (ended w))"
  using worker.reach_inv[OF assms] by (auto simp: worker_inv_def printed_def)

text \<open>
  C37. Progress. Take any reachable state of a worker that is alive and whose accepted tasks all end within some number of polls,
  whatever state of the world these find. Let the worker run and, whenever its current task is pending and asleep,
  let somebody wake it (the task's business: while a task is never woken, no other task of the worker runs,
  \<open>asleep_blocks\<close>), and the world change meanwhile. The number of turns and wake-ups is bounded; and when
  nothing more can happen, every accepted task has ended, panicking or not, in the order of acceptance, and the worker is alive
  and ready for more exactly if a sender is left.
\<close>

theorem worker_progress:
  assumes "worker_reach (s, w)" and "alive w" and "\<forall>t \<in> set (queue w). \<exists>n. bounded n t"
    and "\<forall>t k. current w = Some (t, k) \<longrightarrow> (\<exists>n \<ge> k. bounded n t)"
  shows "\<exists>N. \<forall>m s' w'. (drive ^^ m) (s, w) (s', w') \<longrightarrow> m \<le> N
    \<and> ((\<forall>y. \<not> drive (s', w') y) \<longrightarrow>
        in_flight w' = [] \<and> map fst (ended w') = sent w \<and> (alive w' \<longleftrightarrow> 0 < senders w))"
proof -
  have e: "all_end w" using assms(3,4) by (auto simp: all_end_def ends_def le_iff_add)
  have na: "\<not> aborted w" using worker.reach_inv[OF assms(1)] assms(2) by (simp add: worker_inv_def)
  have "m \<le> work w \<and> ((\<forall>y. \<not> drive (s', w') y) \<longrightarrow>
        in_flight w' = [] \<and> map fst (ended w') = sent w \<and> (alive w' \<longleftrightarrow> 0 < senders w))"
    if m: "(drive ^^ m) (s, w) (s', w')" for m s' w'
  proof -
    have st: "drive\<^sup>*\<^sup>* (s, w) (s', w')" using m by (rule relpowp_imp_rtranclp)
    from st have "sent w' = sent w \<and> aborted w' = aborted w \<and> senders w' = senders w \<and> worker_reach (s', w')"
    proof (induction rule: rtranclp_induct2)
      case (step s1 w1 s2 w2)
      have "worker_step\<^sup>*\<^sup>* (s1, w1) (s2, w2)" by (rule drive_steps[OF step(2)])
      then have "worker_reach (s2, w2)" using step.IH by (induction rule: rtranclp_induct) (auto intro: reach_step)
      then show ?case using drive_frame[OF step(2)] step.IH by simp
    qed (use assms(1) in simp)
    then have f: "sent w' = sent w" "\<not> aborted w'" "senders w' = senders w" and inv: "worker_inv w'"
      using na worker.reach_inv[of "(s', w')"] by auto
    have sn: "sent w' = map fst (ended w') @ in_flight w'" "\<not> alive w' \<longrightarrow> senders w' = 0" using inv f(2) by (auto simp: worker_inv_def)
    have "m \<le> work w" using drive_bound[OF m] e by simp
    moreover have "in_flight w' = [] \<and> (alive w' \<longrightarrow> 0 < senders w')" if "\<forall>y. \<not> drive (s', w') y"
      by (rule drive_end) (use that inv in auto)
    ultimately show ?thesis using f sn by auto
  qed
  then show ?thesis by blast
qed

text \<open>
  A task that panics, between two that count. The first is pending at its first poll; it has woken its waker, or it
  has not and sleeps.
\<close>

definition ex_task :: "bool \<Rightarrow> nat \<Rightarrow> nat task" where
  "ex_task b n = (\<lambda>k s. if k < n then (Pending b, s) else (Ready, s + 1))"

definition ex_panic :: "nat task" where
  "ex_panic = (\<lambda>k s. (Panicked, s))"

definition ex_worker :: "bool \<Rightarrow> nat worker" where
  "ex_worker b = worker_new\<lparr>queue := [ex_task b 1, ex_panic, ex_task b 0], sent := [ex_task b 1, ex_panic, ex_task b 0]\<rparr>"

lemma ex_send: "worker_reach (s, worker_new\<lparr>queue := q, sent := q\<rparr>) \<Longrightarrow> length q < QUEUE_CAP \<Longrightarrow>
   worker_reach (s, worker_new\<lparr>queue := q @ [t], sent := q @ [t]\<rparr>)"
  by (erule reach_step, rule worker_step.send[of _ t "Inr ()"]) (simp_all add: send_task_def worker_new_def)

lemma ex_worker_reach: "worker_reach (0, ex_worker b)"
proof -
  have "worker_reach (0, worker_new\<lparr>queue := [], sent := []\<rparr>)" by (rule reach_init) (simp add: worker_new_def)
  from ex_send[OF ex_send[OF ex_send[OF this, of "ex_task b 1"], of ex_panic], of "ex_task b 0"] show ?thesis
    by (simp add: ex_worker_def QUEUE_CAP_def)
qed

lemma worker_fifo_witness: "sent (ex_worker True) = in_flight (ex_worker True) \<and> stderr (ex_worker True) = []"
  using worker_fifo[OF ex_worker_reach[of True]] by (simp add: ex_worker_def worker_new_def)

text \<open>The sleeper is woken, and then everything ends: the steps are counted by \<open>run_drive\<close>.\<close>

fun run_drive :: "nat \<Rightarrow> 's \<times> 's worker \<Rightarrow> 's \<times> 's worker" where
  "run_drive 0 x = x"
| "run_drive (Suc n) x = (case worker_turn (fst x) (snd x) of Some y \<Rightarrow> run_drive n y
     | None \<Rightarrow> if alive (snd x) \<and> current (snd x) \<noteq> None \<and> \<not> woken (snd x) then run_drive n (fst x, wake (snd x)) else x)"

lemma run_drive_steps: "\<exists>m. (drive ^^ m) x (run_drive n x)"
proof (induction n arbitrary: x)
  case 0
  show ?case by (rule exI[of _ 0]) simp
next
  case (Suc n)
  obtain s w where x: "x = (s, w)" by (cases x)
  have one: "\<exists>m. (drive ^^ m) x (run_drive n y)" if "drive x y" for y
    using Suc[of y] that relpowp_Suc_I2 by metis
  have stay: "\<exists>m. (drive ^^ m) x x" by (rule exI[of _ 0]) simp
  show ?case
  proof (cases "worker_turn s w")
    case None
    then show ?thesis using one[of "(s, wake w)"] stay drive_wake[of w s s] by (simp add: x)
  next
    case (Some y)
    then have "drive x y" unfolding x by (cases y) (auto intro: drive_turn)
    from one[OF this] Some show ?thesis by (simp add: x)
  qed
qed

lemma worker_progress_witness:
  "\<exists>m s' w'. (drive ^^ m) (0, ex_worker False) (s', w') \<and> alive w' \<and> s' = 2
     \<and> map fst (ended w') = [ex_task False 1, ex_panic, ex_task False 0]"
proof -
  have a: "alive (ex_worker False)" and c: "\<forall>t k. current (ex_worker False) = Some (t, k) \<longrightarrow> (\<exists>n \<ge> k. bounded n t)"
    and q: "queue (ex_worker False) = [ex_task False 1, ex_panic, ex_task False 0]"
    and sent: "sent (ex_worker False) = queue (ex_worker False)" and sd: "senders (ex_worker False) = 1"
    by (simp_all add: ex_worker_def worker_new_def)
  have "bounded 1 t" if "t \<in> set (queue (ex_worker False))" for t
    using that by (auto simp: q bounded_def ex_task_def ex_panic_def)
  then have "\<forall>t \<in> set (queue (ex_worker False)). \<exists>n. bounded n t" by blast
  note p = worker_progress[OF ex_worker_reach a this c]
  obtain m s' w' where r: "(drive ^^ m) (0, ex_worker False) (s', w')" "(s', w') = run_drive 10 (0, ex_worker False)"
    using run_drive_steps[of "(0, ex_worker False)" 10] by (cases "run_drive 10 (0, ex_worker False)") auto
  have e: "current w' = None" "queue w' = []" "alive w'" "senders w' = 1" "s' = 2"
    using r(2) by (simp_all add: eval_nat_numeral worker_turn_def ex_worker_def worker_new_def ex_task_def ex_panic_def wake_def)
  then have "\<not> drive (s', w') y" for y by (auto simp: worker_turn_def elim!: drive.cases)
  then have "map fst (ended w') = sent (ex_worker False)" using p r(1) by blast
  then have "map fst (ended w') = [ex_task False 1, ex_panic, ex_task False 0]" unfolding sent q .
  with r(1) e(3,5) show ?thesis by (intro exI[of _ m] exI[of _ s'] exI[of _ w'] conjI)
qed

text \<open>Evaluated: the panic passes in silence, the two that end well are reported as panics.\<close>

lemma ex_worker_log:
  "(case run_drive 10 (0, ex_worker b) of (s, w) \<Rightarrow> (s, stderr w, map snd (ended w)))
   = (2, [''task panic: ()'', ''task panic: ()''], [Finished, Caught, Finished])"
  by (cases b) (simp_all add: eval_nat_numeral worker_turn_def ex_worker_def worker_new_def ex_task_def ex_panic_def
    report_def fate_of_def wake_def)

end
