(* ===== verification/Spec2Isabelle.thy ===== *)
theory Spec2Isabelle
  imports OneshotSuite OneshotWake ForwardChannel ForwardSketch MacroTotal ExampleTests RpcSync RpcServices Worker
begin

text \<open>
  A verification development for \<^verbatim>\<open>forwardr\<close>, a Rust workspace for forwarding method calls to other
  threads and servers. All paths below are under \<^verbatim>\<open>src/\<close>.

  The program. A macro (\<^verbatim>\<open>forward_macro\<close>) turns the implementation of a trait into a proxy whose
  methods build a method object of the runtime (\<^verbatim>\<open>forward\<close>). The object decides by its server and
  thread selectors whether the call is executed at once or handed to a handle that forwards it; a
  forwarded call gives the receiver of a one-shot channel (\<^verbatim>\<open>conlock\<close>), on which the executing side
  sends the result. \<^verbatim>\<open>const_string\<close> is an independent small-string type. \<^verbatim>\<open>examples/test.rs\<close> is the
  hand-written form of what the macro generates; \<^verbatim>\<open>examples/rpc\<close> holds a plan interpreter with executor
  threads, an RPC client and server over TCP, a task worker and a spin lock.

  The theories, their sources, and what their lemmas show.

  \<^item> \<open>Prelude\<close>: machine-integer types, results (\<open>Inl\<close> is \<^verbatim>\<open>Err\<close>), decimal printing, and the locale
    \<open>inv_system\<close>, a transition system with an invariant, which is interpreted by the channel, the
    client programs of the channel, the executor queue, the spin lock, the manager, both RPC sessions and the worker.
  \<^item> \<open>BitStatus\<close> (\<^verbatim>\<open>conlock/src/bit.rs\<close>, \<^verbatim>\<open>BitStatus\<close> and \<^verbatim>\<open>Status\<close> of \<^verbatim>\<open>conlock/src/oneshot.rs\<close>): the status word and
    its compare-and-swap operations. \<open>AtomicMem\<close>: the channel's allocation, with release/acquire
    views, in which a race, a use after free or a wrong access to a cell is recorded as a fault.
  \<^item> \<open>Oneshot\<close> (\<^verbatim>\<open>Inner\<close>, \<^verbatim>\<open>Sender\<close>, \<^verbatim>\<open>Receiver\<close>): the operations \<^verbatim>\<open>send\<close>, \<^verbatim>\<open>recv\<close>, \<^verbatim>\<open>poll_recv\<close> and the two
    drops as program points, one memory access each; \<open>chan_step\<close> interleaves any number of receiving
    threads with the sender. \<open>OneshotWords\<close>, \<open>OneshotCtl\<close>, \<open>OneshotStep\<close>: which words occur and what each
    program point knows of them. \<open>OneshotRace\<close>: who owns the cells and the allocation. \<open>OneshotFate\<close>: the
    abstract machine of the sent value. \<open>OneshotLive\<close>: closing, giving up, parked threads.
    \<open>OneshotRun\<close>: an executable scheduler for concrete runs. \<open>OneshotSpec\<close>: C1, C2, C4, C8, C9 and
    C11; C8 holds every exchange against the transition table of the README, transcribed row by row. \<open>OneshotLog\<close>: the results of the calls in their order, whose drop a failure is owed to; C6.
    \<open>OneshotSolo\<close>: every call of a thread that runs alone ends, within seven instructions and eight more for every stale load
    or spurious failure of an exchange, or waits for another thread; C7.
    \<open>OneshotWake\<close>: a task that polls and then does not use the receiver is woken when the value comes or the sender goes; C5.
  \<^item> Programs over the channel. \<open>OneshotClient\<close>: threads that run a list of calls each and stop at a result they did
    not expect, as the threads of a test do. \<open>OneshotResults\<close>, \<open>OneshotShapes\<close>: what the calls of programs with one receiver, with
    several, with a receiver that is dropped first, can return. \<open>OneshotTests\<close>: the unit tests of
    \<^verbatim>\<open>conlock/src/oneshot.rs\<close> as programs. \<open>OneshotEnds\<close>: such programs can always end. \<open>OneshotSuite\<close>: the tests of
    \<^verbatim>\<open>conlock/tests/loom_oneshot.rs\<close>; the unit tests and fifteen loom tests pass in every interleaving (C3), and
    four loom tests assert what some interleaving of the code refutes (C10).
  \<^item> \<open>Bytes\<close>: words as byte lists. \<open>ConstString\<close> (\<^verbatim>\<open>const_string/src\<close>): the sixteen-byte representation
    with its heap, refined to byte strings; C12 to C14.
  \<^item> \<open>AttrConfig\<close> (\<^verbatim>\<open>forward_macro/src/config\<close>, \<^verbatim>\<open>parser.rs\<close>): the parser that \<^verbatim>\<open>named_attrs_config!\<close> generates;
    C15. \<open>MacroGen\<close> (\<^verbatim>\<open>forward_macro/src/lib.rs\<close>): the expansion of \<^verbatim>\<open>#[forward_proxy]\<close> and the export of its
    output; C38. \<open>MacroTotal\<close>: the macro always answers, if only by a panic of \<^verbatim>\<open>parse_quote!\<close>, and when it panics; C16. Also the
    \<^verbatim>\<open>Debug\<close> output of configurations. \<open>DebugFmt\<close>: the \<^verbatim>\<open>Debug\<close> output of strings, proved
    injective.
  \<^item> \<open>ForwardCore\<close> (\<^verbatim>\<open>forward/src/lib.rs\<close>, \<^verbatim>\<open>examples/test.rs\<close>): selectors, kinds, handles, method objects. The
    locale \<open>transport\<close> is the contract of a forwarding handle, interpreted for the synchronous and
    asynchronous handles of the example and for the provided methods of the trait; C17 and C18.
    \<open>ProxyMeaning\<close>: what a body that the macro generates for a method with only \<^verbatim>\<open>&self\<close> does on this runtime, for the handles of the
    example; C19.
  \<^item> \<open>Practice\<close> (\<^verbatim>\<open>examples/rpc/practice.rs\<close>): the plan cursor, the executors and the player service for one
    call at a time; the locale \<open>executor_call\<close> is what the cursor needs of an executor, interpreted for
    \<^verbatim>\<open>execute_sync\<close> and \<^verbatim>\<open>execute_async\<close>; C20, C21, C23, C24. \<open>ExecQueue\<close>: the executor thread under
    concurrent callers, whose jobs may panic or never return, refined to a sequential run; C25 and C26. \<open>PlayerQueue\<close>: the player service on
    that thread, no update of a score is lost unless one overflows in a checked build; C22. \<open>ExampleTests\<close>: the tests of \<^verbatim>\<open>practice.rs\<close>, of \<^verbatim>\<open>examples/test.rs\<close> and of
    \<^verbatim>\<open>const_string/src/lib.rs\<close>, which pass; C39.
  \<^item> \<open>SpinLock\<close> (\<^verbatim>\<open>examples/rpc/lock/spin.rs\<close>): C27.
  \<^item> \<open>RpcNet\<close> (\<^verbatim>\<open>examples/rpc/message.rs\<close>, \<^verbatim>\<open>error.rs\<close>, codec of \<^verbatim>\<open>net/async_impl.rs\<close>, server of \<^verbatim>\<open>net.rs\<close>): C29 to
    C31. \<open>RpcSession\<close> (\<^verbatim>\<open>RpcClient\<close> of \<^verbatim>\<open>net.rs\<close>, \<^verbatim>\<open>IoSession\<close> of \<^verbatim>\<open>net/async_impl.rs\<close>): the client's two loops and
    their exchange with the server; C33 to C35. \<open>RpcSync\<close> (\<^verbatim>\<open>net/sync_impl.rs\<close>): the blocking codec equals
    the asynchronous one, and the blocking session, whose two threads end apart; C28. \<open>RpcServices\<close>: \<^verbatim>\<open>RpcManager\<close>
    on the spin lock, proved linearizable (C32), the accept loop, and the printing of errors.
  \<^item> \<open>Worker\<close> (\<^verbatim>\<open>examples/rpc/worker.rs\<close>): the worker polls a pending task again only when its waker has been woken; C36 and C37.
  \<^item> \<open>ForwardChannel\<close>: \<^verbatim>\<open>into_sync\<close> and \<^verbatim>\<open>into_async\<close> of \<open>ForwardCore\<close> over the channel of \<open>OneshotSpec\<close>; C40.
  \<^item> \<open>ForwardSketch\<close> (\<^verbatim>\<open>src/forward/mod.rs\<close>): the registry that is never filled and the hand-written proxy
    without a transport.

  How state and operations are rendered. A concurrent component is a record with a step relation
  whose steps are the atomic actions of the code; a sequential one is a function on explicit state.
  A panic, an early return and an error are values. A call that never returns is \<open>None\<close>:
  \<open>ForwardCore.forward_sync\<close> is a \<open>partial_function (option)\<close>; the asynchronous forwarding recursion
  takes fuel, and C18 gives the amount that is enough. The attribute parser takes as fuel the
  length of its input, each turn consumes a token, and C16 shows that the fuel never runs out.
  A job of an executor is a partial function on the state, undefined where it never returns. \<open>OneshotSolo.alone_run\<close> runs
  a given list of steps, and its bound is part of C7.
  Every other recursion terminates as written. Ghost fields (\<open>sent\<close>, \<open>rets\<close>, \<open>uses\<close>, \<open>asked\<close>,
  \<open>received\<close>, \<open>accepted\<close>, \<open>ended\<close>) record the past and are read by no operation.

  Parameters, with what is assumed of them as named hypotheses: the parsers of \<^verbatim>\<open>syn\<close> (\<open>syn_ok\<close>,
  \<open>reads\<close>), the parser of the annotated item, whether \<^verbatim>\<open>syn\<close> parses a quoted block (\<open>quotes\<close>; \<open>rejects_mut\<close>: not if
  \<^verbatim>\<open>mut\<close> stands where an expression begins), when \<^verbatim>\<open>atomic_wait::wait\<close> may block and \<^verbatim>\<open>Waker::will_wake\<close>, the heap
  allocator of \<open>ConstString\<close>, the text of I/O errors, the file system of the export.

  Bounds: status words are \<open>u32\<close>, lengths and pointers of \<open>ConstString\<close> 64-bit little-endian words,
  message ids and lengths \<open>u32\<close> with wrap-around, scores \<open>i32\<close> with and without overflow checks,
  queues of 1024 entries.

  Not modelled: opening and closing sockets and the \<^verbatim>\<open>accept\<close> call itself (input and output, the
  operating system's); the unused message id counters of the sessions; the static instances of
  managers, which only delay a construction; how \<^verbatim>\<open>tokio\<close> schedules tasks, beyond the interleavings
  of the step relations (a shutdown in \<open>Practice\<close> and an abort in \<open>Worker\<close> take effect at once); the two tests of \<^verbatim>\<open>const_string\<close> that only print; the unit test
  \<^verbatim>\<open>test_scheduler_thread_switch_and_waker_replace\<close>, which steers the scheduler by shared counters; the benchmarks.
  How \<^verbatim>\<open>loom\<close> bounds its exploration and how it counts allocations are not part of the model: a loom test is the set of
  all interleavings of its calls. The loom tests without a definition run one of those programs with another payload, several in a
  row, or with a counter beside the channel.
\<close>

end
